(* ===== verification/Prelude.thy ===== *)
theory Prelude
  imports Main "HOL-Library.Word"
begin

section \<open>Shared types, outcomes and list lemmas\<close>

text \<open>
  What every component of the cache model shares: byte strings and the C string read out of
  them, the outcome of a C++ call (a value, a thrown exception or undefined behaviour), the
  heap of \<^verbatim>\<open>new char[]\<close> buffers, and generic lemmas on lists and folds.
\<close>

type_synonym bytes = "char list"
type_synonym u32 = "32 word"
type_synonym u64 = "64 word"

abbreviation NUL :: char where "NUL \<equiv> CHR 0x00"

named_theorems heap_simps \<open>unfolding rules of the buffer heap\<close>
named_theorems pool_simps \<open>unfolding rules of the entry pool operations\<close>
named_theorems kvs_simps \<open>unfolding rules of the key value store operations\<close>

subsection \<open>C strings\<close>

text \<open>
  A \<^verbatim>\<open>const char*\<close> passed to \<^verbatim>\<open>strlen\<close>, \<^verbatim>\<open>strcmp\<close> or \<^verbatim>\<open>memcpy(.., strlen + 1)\<close> is read
  up to its first NUL byte; \<open>is_cstr\<close> says that a byte string holds none.
\<close>

definition cstr :: "bytes \<Rightarrow> bytes" where
  "cstr bs = takeWhile (\<lambda>c. c \<noteq> NUL) bs"

definition is_cstr :: "bytes \<Rightarrow> bool" where
  "is_cstr bs = list_all (\<lambda>c. c \<noteq> NUL) bs"

lemma cstr_append_NUL [simp]: "is_cstr s \<Longrightarrow> cstr (s @ NUL # t) = s"
  by (induction s) (auto simp: cstr_def is_cstr_def)

lemma cstr_id [simp]: "is_cstr s \<Longrightarrow> cstr s = s"
  by (induction s) (auto simp: cstr_def is_cstr_def)

lemma is_cstr_cstr [simp, intro]: "is_cstr (cstr s)"
  by (auto simp: cstr_def is_cstr_def list_all_iff dest: set_takeWhileD)

lemma is_cstr_append [simp]: "is_cstr (s @ t) \<longleftrightarrow> is_cstr s \<and> is_cstr t"
  by (simp add: is_cstr_def)

lemma is_cstr_Nil [simp]: "is_cstr []"
  by (simp add: is_cstr_def)

lemma is_cstr_Cons [simp]: "is_cstr (c # s) \<longleftrightarrow> c \<noteq> NUL \<and> is_cstr s"
  by (simp add: is_cstr_def)

subsection \<open>Outcome of a C++ call\<close>

text \<open>
  \<open>Val\<close> is a normal return, \<open>Exn\<close> a thrown exception with its message, \<open>UB\<close> undefined
  behaviour (an access outside an array, a read or \<^verbatim>\<open>delete[]\<close> of a freed buffer, a division
  by zero) and \<open>Hang\<close> a call that never returns. Operations on an object return the outcome and the object's state after the call.
\<close>

datatype 'a cpp = Val 'a | Exn string | UB | Hang

text \<open>Sequencing: the rest of the code runs only after a normal return.\<close>

definition and_then :: "'a cpp \<times> 's \<Rightarrow> ('a \<Rightarrow> 's \<Rightarrow> 'b cpp \<times> 't) \<Rightarrow> ('s \<Rightarrow> 't) \<Rightarrow> 'b cpp \<times> 't" where
  "and_then r f keep = (case r of
       (Val a, s) \<Rightarrow> f a s
     | (Exn m, s) \<Rightarrow> (Exn m, keep s)
     | (UB, s) \<Rightarrow> (UB, keep s)
     | (Hang, s) \<Rightarrow> (Hang, keep s))"

lemma and_then_simps [simp]:
  "and_then (Val a, s) f keep = f a s"
  "and_then (Exn m, s) f keep = (Exn m, keep s)"
  "and_then (UB, s) f keep = (UB, keep s)"
  "and_then (Hang, s) f keep = (Hang, keep s)"
  by (simp_all add: and_then_def)

lemma find_append:
  "find P (xs @ ys) = (case find P xs of Some x \<Rightarrow> Some x | None \<Rightarrow> find P ys)"
  by (induction xs) auto

lemma find_SomeD: "find P xs = Some x \<Longrightarrow> x \<in> set xs \<and> P x"
  by (metis find_Some_iff nth_mem)

text \<open>An update at a place where the search had stopped, of a predicate that agrees before it.\<close>

lemma find_update_hit:
  "find P xs = Some x \<Longrightarrow> Q x \<Longrightarrow> (\<And>y. y \<noteq> x \<Longrightarrow> y \<in> set xs \<Longrightarrow> Q y \<Longrightarrow> P y) \<Longrightarrow> find Q xs = Some x"
  by (induction xs) (auto split: if_splits)

lemma find_widened:
  "find P xs = Some q \<Longrightarrow> Q q \<Longrightarrow> \<exists>y. find Q xs = Some y \<and> (y = q \<or> \<not> P y)"
  by (induction xs) (auto split: if_splits)

lemma find_cong_weak: "(\<And>y. y \<in> set xs \<Longrightarrow> P y = Q y) \<Longrightarrow> find P xs = find Q xs"
  by (induction xs) auto

subsection \<open>The heap of \<open>new char[]\<close> buffers\<close>

text \<open>
  A buffer has an address that is never used again after \<^verbatim>\<open>delete[]\<close>, so that a dangling
  pointer is an address outside the domain of \<open>mem\<close>. \<^verbatim>\<open>delete[] nullptr\<close> does nothing.
\<close>

type_synonym addr = nat

record cheap =
  mem :: "addr \<rightharpoonup> bytes"
  next_addr :: addr

definition empty_heap :: cheap where
  "empty_heap = \<lparr>mem = Map.empty, next_addr = 0\<rparr>"

definition new_buf :: "bytes \<Rightarrow> cheap \<Rightarrow> addr \<times> cheap" where
  "new_buf bs h = (next_addr h, h\<lparr>mem := (mem h)(next_addr h \<mapsto> bs), next_addr := Suc (next_addr h)\<rparr>)"

definition delete_buf :: "addr option \<Rightarrow> cheap \<Rightarrow> cheap option" where
  "delete_buf p h = (case p of
       None \<Rightarrow> Some h
     | Some a \<Rightarrow> (case mem h a of None \<Rightarrow> None | Some _ \<Rightarrow> Some (h\<lparr>mem := (mem h)(a := None)\<rparr>)))"

definition heap_inv :: "cheap \<Rightarrow> bool" where
  "heap_inv h \<longleftrightarrow> (\<forall>a. mem h a \<noteq> None \<longrightarrow> a < next_addr h)"

lemma heap_inv_empty [simp]: "heap_inv empty_heap"
  by (simp add: heap_inv_def empty_heap_def)

lemma heap_inv_new_buf: "heap_inv h \<Longrightarrow> heap_inv (snd (new_buf bs h))"
  by (auto simp: heap_inv_def new_buf_def less_Suc_eq)

lemma heap_inv_delete_buf: "heap_inv h \<Longrightarrow> delete_buf p h = Some h' \<Longrightarrow> heap_inv h'"
  by (auto simp: heap_inv_def delete_buf_def split: option.splits if_splits)

lemma new_buf_fresh: "heap_inv h \<Longrightarrow> mem h (next_addr h) = None"
  by (force simp: heap_inv_def)

lemma new_buf_simps [heap_simps]:
  "fst (new_buf bs h) = next_addr h"
  "mem (snd (new_buf bs h)) = (mem h)(next_addr h \<mapsto> bs)"
  "next_addr (snd (new_buf bs h)) = Suc (next_addr h)"
  by (simp_all add: new_buf_def)

end
