(* ===== verification/Primegen.thy ===== *)
theory Primegen
  imports Prelude
begin

section \<open>The table size generator (src/src/primegen)\<close>

text \<open>
  \<^verbatim>\<open>Primegen::initGenerator\<close> fills a shared queue of table sizes with a segmented sieve;
  \<^verbatim>\<open>Primegen::PopNext\<close> takes the next one or throws. The segment size and the upper limit are
  arguments of the definitions (\<open>SEGMENT_SIZE\<close> and \<open>DEFAULT_MAX_LIMIT\<close> in the program), so that
  the sieve can be evaluated on small segments. The \<^verbatim>\<open>omp\<close> pragma has no effect: the build
  never enables OpenMP.
\<close>

definition DEFAULT_MAX_LIMIT :: nat where "DEFAULT_MAX_LIMIT = 1000000000"

definition SEGMENT_SIZE :: nat where "SEGMENT_SIZE = 1000000"

subsection \<open>Double precision growth factors\<close>

text \<open>
  A growth factor \<open>(m, e)\<close> is the double \<open>m / 2 ^ e\<close>; the three factors that binary fractions
  cannot hold are their nearest doubles. The product with a \<^verbatim>\<open>uint_fast64_t\<close> is rounded to 53
  significant bits, ties to even, and \<^verbatim>\<open>static_cast<uint_fast64_t>\<close> drops the fraction.
\<close>

type_synonym dbl = "nat \<times> nat"

definition dbl_2_0 :: dbl where "dbl_2_0 = (2, 0)"
definition dbl_4 :: dbl where "dbl_4 = (4, 0)"
definition dbl_1_5 :: dbl where "dbl_1_5 = (3, 1)"
definition dbl_1_2 :: dbl where "dbl_1_2 = (5404319552844595, 52)"
definition dbl_1_1 :: dbl where "dbl_1_1 = (4953959590107546, 52)"
definition dbl_1_05 :: dbl where "dbl_1_05 = (4728779608739021, 52)"

fun bit_length :: "nat \<Rightarrow> nat" where
  "bit_length n = (if n = 0 then 0 else Suc (bit_length (n div 2)))"

declare bit_length.simps [simp del]

definition round53 :: "nat \<Rightarrow> nat" where
  "round53 p =
     (let s = bit_length p - 53; q = p div 2 ^ s; r = p mod 2 ^ s
      in (if 2 ^ s < 2 * r \<or> 2 * r = 2 ^ s \<and> odd q then Suc q else q) * 2 ^ s)"

definition dbl_mul_trunc :: "nat \<Rightarrow> dbl \<Rightarrow> nat" where
  "dbl_mul_trunc n g = round53 (n * fst g) div 2 ^ snd g"

definition next_growth :: "nat \<Rightarrow> dbl" where
  "next_growth prime =
     (if prime < 100000 then dbl_4
      else if prime < 1000000 then dbl_1_5
      else if prime < 10000000 then dbl_1_2
      else if prime < 100000000 then dbl_1_1
      else dbl_1_05)"

subsection \<open>The sieve of one segment\<close>

text \<open>The inner loop: \<^verbatim>\<open>for (j = ..; j < end; j += i) isPrime[j - start] = 0\<close>, with \<open>i\<close> at least 2.\<close>

function clear_from :: "nat \<Rightarrow> nat \<Rightarrow> nat \<Rightarrow> nat \<Rightarrow> bool list \<Rightarrow> bool list" where
  "clear_from i start stop j isPrime =
     (if 0 < i \<and> j < stop then clear_from i start stop (j + i) (isPrime[j - start := False])
      else isPrime)"
  by pat_completeness auto
termination
  by (relation "measure (\<lambda>(i, start, stop, j, isPrime). stop - j)") auto

function sieve :: "nat \<Rightarrow> nat \<Rightarrow> nat \<Rightarrow> bool list \<Rightarrow> bool list" where
  "sieve start stop i isPrime =
     (if i * i \<le> stop then
        sieve start stop (i + 1)
          (if i < start then isPrime
           else if \<not> isPrime ! (i - start) then isPrime
           else clear_from i start stop (max (i * i) ((start + i - 1) div i * i)) isPrime)
      else isPrime)"
  by pat_completeness auto
termination
proof (relation "measure (\<lambda>(start, stop, i, isPrime). Suc stop - i)")
  show "wf (measure (\<lambda>(start, stop, i, isPrime). Suc stop - i))" by simp
next
  fix start stop i :: nat and isPrime :: "bool list"
  assume "i * i \<le> stop"
  moreover have "i \<le> i * i" by (cases i) auto
  ultimately have "i \<le> stop" by (rule order_trans [rotated])
  then show "((start, stop, i + 1,
      if i < start then isPrime
      else if \<not> isPrime ! (i - start) then isPrime
      else clear_from i start stop (max (i * i) ((start + i - 1) div i * i)) isPrime),
      (start, stop, i, isPrime)) \<in> measure (\<lambda>(start, stop, i, isPrime). Suc stop - i)"
    by simp
qed

declare clear_from.simps [simp del] sieve.simps [simp del]

subsection \<open>Filling the queue\<close>

record gen_state =
  lastStored :: nat
  growthFactor :: dbl
  sharedQueue :: "nat list"

definition collect_step :: "nat \<Rightarrow> bool list \<Rightarrow> nat \<Rightarrow> gen_state \<Rightarrow> gen_state" where
  "collect_step start isPrime i st =
     (if isPrime ! i then
        let prime = start + i;
            nextCandidate = dbl_mul_trunc (lastStored st) (growthFactor st)
        in if nextCandidate \<le> prime
           then st\<lparr>sharedQueue := sharedQueue st @ [prime], lastStored := prime,
                   growthFactor := next_growth prime\<rparr>
           else st
      else st)"

function generate :: "nat \<Rightarrow> nat \<Rightarrow> nat \<Rightarrow> gen_state \<Rightarrow> gen_state" where
  "generate seg maxLimit start st =
     (if start < maxLimit \<and> 0 < seg then
        let stop = min (start + seg) maxLimit;
            isPrime = sieve start stop 2 (replicate seg True)
        in generate seg maxLimit stop (fold (collect_step start isPrime) [0..<stop - start] st)
      else st)"
  by pat_completeness auto
termination
  by (relation "measure (\<lambda>(seg, maxLimit, start, st). maxLimit - start)") auto

declare generate.simps [simp del]

definition gen_init :: gen_state where
  "gen_init = \<lparr>lastStored = 2053, growthFactor = dbl_2_0, sharedQueue = []\<rparr>"

definition initGenerator :: "nat \<Rightarrow> nat \<Rightarrow> nat list" where
  "initGenerator seg maxLimit = sharedQueue (generate seg maxLimit 2 gen_init)"

definition PopNext :: "nat list \<Rightarrow> nat cpp \<times> nat list" where
  "PopNext primeQueue = (case primeQueue of
       [] \<Rightarrow> (Exn ''Prime number generator reached it's limit.'', primeQueue)
     | p # ps \<Rightarrow> (Val p, ps))"

subsection \<open>Lemmas\<close>

definition is_prime :: "nat \<Rightarrow> bool" where
  "is_prime n \<longleftrightarrow> 2 \<le> n \<and> (\<forall>d<n. 2 \<le> d \<longrightarrow> \<not> d dvd n)"

lemma length_clear_from [simp]: "length (clear_from i start stop j bits) = length bits"
proof (induction i start stop j bits rule: clear_from.induct)
  case (1 i start stop j bits)
  then show ?case by (simp add: clear_from.simps [of i start stop j])
qed

lemma length_sieve [simp]: "length (sieve start stop i bits) = length bits"
proof (induction start stop i bits rule: sieve.induct)
  case (1 start stop i bits)
  then show ?case by (simp add: sieve.simps [of start stop i])
qed

text \<open>Clearing from \<open>j\<close> on in steps of \<open>i\<close> clears exactly the bits of \<open>j + k * i\<close> below \<open>stop\<close>.\<close>

lemma nth_clear_from:
  "start \<le> j \<Longrightarrow> 0 < i \<Longrightarrow> x < length bits \<Longrightarrow>
   clear_from i start stop j bits ! x \<longleftrightarrow>
     bits ! x \<and> \<not> (start + x < stop \<and> (\<exists>k. start + x = j + k * i))"
proof (induction i start stop j bits rule: clear_from.induct)
  case (1 i start stop j bits)
  show ?case
  proof (cases "j < stop")
    case False
    then show ?thesis by (auto simp: clear_from.simps [of i start stop j])
  next
    case True
    have shift: "(\<exists>k. start + x = j + k * i) \<longleftrightarrow> start + x = j \<or> (\<exists>k. start + x = j + i + k * i)"
    proof
      assume "\<exists>k. start + x = j + k * i"
      then obtain k where "start + x = j + k * i" ..
      then show "start + x = j \<or> (\<exists>k. start + x = j + i + k * i)"
        by (cases k) (auto simp: algebra_simps)
    next
      assume "start + x = j \<or> (\<exists>k. start + x = j + i + k * i)"
      then show "\<exists>k. start + x = j + k * i"
        by (metis add.assoc add_0_right mult_0 mult_Suc)
    qed
    have "clear_from i start stop (j + i) (bits[j - start := False]) ! x \<longleftrightarrow>
        bits[j - start := False] ! x \<and> \<not> (start + x < stop \<and> (\<exists>k. start + x = j + i + k * i))"
      using "1.IH" True "1.prems" by simp
    moreover have "bits[j - start := False] ! x \<longleftrightarrow> bits ! x \<and> start + x \<noteq> j"
      using "1.prems" by (cases "x = j - start") auto
    ultimately show ?thesis
      using True "1.prems" by (auto simp: clear_from.simps [of i start stop j] shift)
  qed
qed

text \<open>
  In the first segment, which starts at 2, the sieve is right. Before round \<open>i\<close>, a bit is still
  set exactly when its number has no divisor \<open>d < i\<close> with \<open>d * d\<close> up to the number.
\<close>

definition unsieved :: "nat \<Rightarrow> nat \<Rightarrow> bool" where
  "unsieved i n \<longleftrightarrow> (\<forall>d. 2 \<le> d \<longrightarrow> d < i \<longrightarrow> d * d \<le> n \<longrightarrow> \<not> d dvd n)"

lemma unsieved_Suc:
  "2 \<le> i \<Longrightarrow> unsieved (Suc i) n \<longleftrightarrow> unsieved i n \<and> \<not> (i * i \<le> n \<and> i dvd n)"
  by (auto simp: unsieved_def less_Suc_eq)

lemma unsieved_mult:
  assumes "2 \<le> i" and "\<not> unsieved i i" and "i dvd n" and "i * i \<le> n"
  shows "\<not> unsieved i n"
proof -
  from assms(2) obtain d where d: "2 \<le> d" "d < i" "d * d \<le> i" "d dvd i"
    by (auto simp: unsieved_def)
  have "i \<le> i * i" by (cases i) auto
  then have "d * d \<le> n" using d(3) assms(4) by linarith
  moreover have "d dvd n" using d(4) assms(3) by (rule dvd_trans)
  ultimately show ?thesis using d by (auto simp: unsieved_def)
qed

lemma first_multiple: "2 \<le> i \<Longrightarrow> max (i * i) ((2 + i - 1) div i * i) = i * (i :: nat)"
proof -
  assume i: "2 \<le> i"
  have "(2 + i - 1) div i * i \<le> 2 + i - 1" by (rule div_times_less_eq_dividend)
  moreover have "2 * i \<le> i * i" using i by simp
  ultimately show ?thesis using i by (intro max_absorb1) linarith
qed

lemma multiple_from_square:
  "0 < i \<Longrightarrow> (\<exists>k. n = i * i + k * i) \<longleftrightarrow> i dvd n \<and> i * i \<le> (n :: nat)"
proof
  assume "\<exists>k. n = i * i + k * i"
  then show "i dvd n \<and> i * i \<le> n" by auto
next
  assume "0 < i" and n: "i dvd n \<and> i * i \<le> n"
  then obtain m where m: "n = i * m" by (auto elim: dvdE)
  with \<open>0 < i\<close> n have "i \<le> m" by simp
  then have "n = i * i + (m - i) * i" using m by (simp add: algebra_simps)
  then show "\<exists>k. n = i * i + k * i" ..
qed

lemma unsieved_is_prime:
  assumes "2 \<le> n" and "n < i * i"
  shows "unsieved i n \<longleftrightarrow> is_prime n"
proof
  assume u: "unsieved i n"
  have small: "c < i" if "c * c \<le> n" for c
    using that assms(2) mult_le_mono [of i c i c] by (rule_tac ccontr) simp
  have "\<not> d dvd n" if d: "2 \<le> d" "d < n" for d
  proof
    assume dn: "d dvd n"
    then obtain e where e: "n = d * e" by (auto elim: dvdE)
    have "2 \<le> e" using e d by (cases "e = 0"; cases "e = 1") auto
    have "e dvd n" by (simp add: e)
    consider "d * d \<le> n" | "e * e \<le> n"
      using e by (cases "d \<le> e") simp_all
    then show False
      using u small d(1) dn \<open>2 \<le> e\<close> \<open>e dvd n\<close> by cases (auto simp: unsieved_def)
  qed
  with assms(1) show "is_prime n" by (simp add: is_prime_def)
next
  assume p: "is_prime n"
  have "d < n" if "2 \<le> d" "d * d \<le> n" for d
    using that mult_le_mono2 [of 2 d d] by linarith
  with p show "unsieved i n" by (auto simp: is_prime_def unsieved_def)
qed

text \<open>One round of the sieve on the first segment keeps that characterisation.\<close>

lemma sieve_round:
  assumes i: "2 \<le> i" "i * i \<le> stop" and len: "stop - 2 \<le> length bits"
    and inv: "\<And>y. y < stop - 2 \<Longrightarrow> bits ! y \<longleftrightarrow> unsieved i (y + 2)" and y: "y < stop - 2"
  shows "(if i < 2 then bits else if \<not> bits ! (i - 2) then bits
      else clear_from i 2 stop (max (i * i) ((2 + i - 1) div i * i)) bits) ! y
    \<longleftrightarrow> unsieved (i + 1) (y + 2)"
proof -
  have "i * 2 \<le> i * i" using i by simp
  then have i_in: "i - 2 < stop - 2" using i by linarith
  show ?thesis
  proof (cases "bits ! (i - 2)")
    case False
    then have "\<not> unsieved i i" using inv [OF i_in] le_add_diff_inverse2 [OF i(1)] by metis
    with False y inv i(1) show ?thesis
      by (auto simp: unsieved_Suc dest: unsieved_mult)
  next
    case set: True
    have "clear_from i 2 stop (i * i) bits ! y \<longleftrightarrow>
        bits ! y \<and> \<not> (2 + y < stop \<and> (\<exists>k. 2 + y = i * i + k * i))"
      using y i len \<open>i * 2 \<le> i * i\<close> by (intro nth_clear_from) linarith+
    moreover have "(\<exists>k. 2 + y = i * i + k * i) \<longleftrightarrow> i * i \<le> y + 2 \<and> i dvd y + 2"
      using multiple_from_square [of i "2 + y"] i(1) by (auto simp only: add.commute [of y 2])
    moreover have "2 + y < stop" using y by linarith
    ultimately have "clear_from i 2 stop (i * i) bits ! y \<longleftrightarrow> unsieved (i + 1) (y + 2)"
      using inv [OF y] unsieved_Suc [OF i(1), of "y + 2"] by auto
    with set i(1) first_multiple [OF i(1)] show ?thesis by simp
  qed
qed

lemma sieve_first_segment:
  assumes "2 \<le> i" and "stop - 2 \<le> length bits" and "x < stop - 2"
    and "\<And>y. y < stop - 2 \<Longrightarrow> bits ! y \<longleftrightarrow> unsieved i (y + 2)"
  shows "sieve 2 stop i bits ! x \<longleftrightarrow> is_prime (x + 2)"
  using assms
proof (induction "2 :: nat" stop i bits rule: sieve.induct)
  case (1 stop i bits)
  show ?case
  proof (cases "i * i \<le> stop")
    case False
    with 1 show ?thesis by (simp add: sieve.simps [of 2 stop i] unsieved_is_prime)
  next
    case True
    let ?bits' = "if i < 2 then bits else if \<not> bits ! (i - 2) then bits
      else clear_from i 2 stop (max (i * i) ((2 + i - 1) div i * i)) bits"
    have "sieve 2 stop (i + 1) ?bits' ! x \<longleftrightarrow> is_prime (x + 2)"
      by (rule "1.hyps" [OF True]) (use "1.prems" True sieve_round in auto)
    with True show ?thesis by (simp add: sieve.simps [of 2 stop i])
  qed
qed

text \<open>A later segment, which starts beyond the square root of its end, is left as it was.\<close>

lemma sieve_later_segment:
  "stop < start * start \<Longrightarrow> sieve start stop i bits = bits"
proof (induction start stop i bits rule: sieve.induct)
  case (1 start stop i bits)
  show ?case
  proof (cases "i * i \<le> stop")
    case True
    with "1.prems" have "i * i < start * start" by simp
    then have "i < start" using mult_le_mono [of start i start i] by (rule_tac ccontr) simp
    with 1 True show ?thesis by (simp add: sieve.simps [of start stop i])
  next
    case False
    then show ?thesis by (simp add: sieve.simps [of start stop i])
  qed
qed

subsection \<open>What one segment adds to the queue\<close>

lemma collect_step_skip:
  "(bits ! i \<Longrightarrow> start + i < dbl_mul_trunc (lastStored st) (growthFactor st)) \<Longrightarrow>
   collect_step start bits i st = st"
  by (auto simp: collect_step_def Let_def)

lemma collect_step_push:
  "bits ! i \<Longrightarrow> dbl_mul_trunc (lastStored st) (growthFactor st) \<le> start + i \<Longrightarrow>
   collect_step start bits i st =
     st\<lparr>sharedQueue := sharedQueue st @ [start + i], lastStored := start + i,
        growthFactor := next_growth (start + i)\<rparr>"
  by (simp add: collect_step_def Let_def)

lemma collect_none:
  assumes "\<And>x. a \<le> x \<Longrightarrow> x < b \<Longrightarrow> bits ! x \<Longrightarrow>
      start + x < dbl_mul_trunc (lastStored st) (growthFactor st)"
  shows "fold (collect_step start bits) [a..<b] st = st"
  using assms
proof (induction b)
  case 0
  then show ?case by simp
next
  case (Suc b)
  then have "fold (collect_step start bits) [a..<b] st = st" by simp
  with Suc.prems [of b] show ?case
    by (cases "a \<le> b") (auto intro!: collect_step_skip)
qed

text \<open>The first set bit at or above the next candidate is pushed, and the scan goes on after it.\<close>

lemma collect_push:
  assumes c: "a \<le> c" "c < b" "bits ! c" "dbl_mul_trunc (lastStored st) (growthFactor st) \<le> start + c"
    and none: "\<And>x. a \<le> x \<Longrightarrow> x < c \<Longrightarrow> bits ! x \<Longrightarrow>
      start + x < dbl_mul_trunc (lastStored st) (growthFactor st)"
  shows "fold (collect_step start bits) [a..<b] st =
    fold (collect_step start bits) [Suc c..<b]
      (st\<lparr>sharedQueue := sharedQueue st @ [start + c], lastStored := start + c,
          growthFactor := next_growth (start + c)\<rparr>)"
proof -
  have "[a..<b] = [a..<c] @ c # [Suc c..<b]"
    using c upt_add_eq_append [of a c "b - c"] by (simp add: upt_conv_Cons)
  with collect_none [of a c bits start st] none c(3,4) show ?thesis
    by (simp add: collect_step_push)
qed

definition gen_inv :: "nat \<Rightarrow> gen_state \<Rightarrow> bool" where
  "gen_inv n st \<longleftrightarrow> sorted_wrt (<) (2053 # sharedQueue st) \<and> (\<forall>p\<in>set (sharedQueue st). p < n) \<and>
     (if sharedQueue st = [] then st = gen_init
      else lastStored st = last (sharedQueue st) \<and> growthFactor st = next_growth (lastStored st))"

lemma gen_inv_mono: "gen_inv m st \<Longrightarrow> m \<le> n \<Longrightarrow> gen_inv n st"
  by (auto simp: gen_inv_def)

lemmas dbl_eval =
  dbl_mul_trunc_def round53_def bit_length.simps dbl_2_0_def dbl_4_def dbl_1_5_def dbl_1_2_def

lemma dbl_mul_trunc_first: "dbl_mul_trunc 2053 dbl_2_0 = 4106"
  by (simp add: dbl_eval)

lemma gen_inv_collect:
  assumes "gen_inv (start + i) st"
  shows "gen_inv (Suc (start + i)) (collect_step start bits i st)"
proof (cases "bits ! i \<and> dbl_mul_trunc (lastStored st) (growthFactor st) \<le> start + i")
  case True
  have "2053 < start + i" if "sharedQueue st = []"
    using True assms that by (auto simp: gen_inv_def gen_init_def dbl_mul_trunc_first)
  moreover have "2053 < start + i" if "sharedQueue st \<noteq> []"
    using assms that by (cases "sharedQueue st") (auto simp: gen_inv_def)
  ultimately show ?thesis
    using True assms by (auto simp: gen_inv_def collect_step_push sorted_wrt_append less_Suc_eq)
next
  case False
  then have "collect_step start bits i st = st" by (auto intro!: collect_step_skip)
  with assms show ?thesis by (auto intro: gen_inv_mono)
qed

lemma gen_inv_fold:
  "gen_inv start st \<Longrightarrow> gen_inv (start + n) (fold (collect_step start bits) [0..<n] st)"
  by (induction n) (auto dest: gen_inv_collect)

lemma gen_inv_generate:
  assumes "gen_inv start st" "start \<le> maxLimit"
  shows "gen_inv maxLimit (generate seg maxLimit start st)"
  using assms
proof (induction seg maxLimit start st rule: generate.induct)
  case (1 seg maxLimit start st)
  show ?case
  proof (cases "start < maxLimit \<and> 0 < seg")
    case False
    then have "generate seg maxLimit start st = st"
      by (subst generate.simps) auto
    with "1.prems" show ?thesis by (auto intro: gen_inv_mono)
  next
    case True
    let ?stop = "min (start + seg) maxLimit"
    have "gen_inv (start + (?stop - start))
        (fold (collect_step start (sieve start ?stop 2 (replicate seg True))) [0..<?stop - start] st)"
      using "1.prems"(1) by (rule gen_inv_fold)
    moreover have "start + (?stop - start) = ?stop" using True by simp
    ultimately show ?thesis
      using "1.IH" [OF True refl refl] True
      by (simp add: generate.simps [of seg maxLimit start] Let_def)
  qed
qed

lemma gen_inv_init: "gen_inv n gen_init"
  by (simp add: gen_inv_def gen_init_def)

subsection \<open>Beyond the first segment nothing is sieved\<close>

text \<open>
  The candidate after an entry \<open>p\<close>. Once a scan has passed into the later segments, where every
  bit is set, each new entry is the candidate itself, prime or not.
\<close>

definition next_size :: "nat \<Rightarrow> nat" where
  "next_size p = max (dbl_mul_trunc p (next_growth p)) (Suc p)"

definition unsieved_from :: "nat \<Rightarrow> nat list \<Rightarrow> bool" where
  "unsieved_from S q \<longleftrightarrow> (\<forall>i. Suc i < length q \<longrightarrow> S \<le> q ! i \<longrightarrow> q ! Suc i = next_size (q ! i))"

definition scan_inv :: "nat \<Rightarrow> nat \<Rightarrow> gen_state \<Rightarrow> bool" where
  "scan_inv S n st \<longleftrightarrow> gen_inv n st \<and> unsieved_from S (sharedQueue st) \<and>
     (sharedQueue st \<noteq> [] \<longrightarrow> S \<le> lastStored st \<longrightarrow> n \<le> next_size (lastStored st))"

lemma unsieved_from_snoc:
  assumes "unsieved_from S q" and "q \<noteq> [] \<Longrightarrow> S \<le> last q \<Longrightarrow> p = next_size (last q)"
  shows "unsieved_from S (q @ [p])"
proof -
  have "p = next_size (q ! i)" if "Suc i = length q" "S \<le> q ! i" for i
  proof -
    have "q \<noteq> []" using that(1) by auto
    moreover from this have "last q = q ! i" using that(1) by (metis diff_Suc_1 last_conv_nth)
    ultimately show ?thesis using assms(2) that(2) by simp
  qed
  with assms(1) show ?thesis by (auto simp: unsieved_from_def nth_append less_Suc_eq)
qed

lemma scan_inv_step:
  assumes inv: "scan_inv S (start + i) st" and S: "S \<le> start + i" "bits ! i"
  shows "scan_inv S (Suc (start + i)) (collect_step start bits i st)"
proof (cases "dbl_mul_trunc (lastStored st) (growthFactor st) \<le> start + i")
  case False
  then have "collect_step start bits i st = st" by (auto intro!: collect_step_skip)
  with False inv show ?thesis
    by (auto simp: scan_inv_def gen_inv_def next_size_def)
next
  case True
  let ?st' = "collect_step start bits i st"
  have st': "?st' = st\<lparr>sharedQueue := sharedQueue st @ [start + i], lastStored := start + i,
        growthFactor := next_growth (start + i)\<rparr>"
    using S(2) True by (rule collect_step_push)
  have "start + i = next_size (last (sharedQueue st))"
    if "sharedQueue st \<noteq> []" "S \<le> last (sharedQueue st)"
  proof -
    have "last (sharedQueue st) < start + i" and "lastStored st = last (sharedQueue st)"
      using inv that(1) by (auto simp: scan_inv_def gen_inv_def)
    moreover from this have "start + i \<le> next_size (last (sharedQueue st))"
      and "growthFactor st = next_growth (last (sharedQueue st))"
      using inv that by (auto simp: scan_inv_def gen_inv_def)
    ultimately show ?thesis using True by (simp add: next_size_def max_def split: if_splits)
  qed
  moreover have "gen_inv (Suc (start + i)) ?st'"
    using inv by (auto simp: scan_inv_def intro: gen_inv_collect)
  ultimately show ?thesis
    using inv by (auto simp: scan_inv_def st' next_size_def intro!: unsieved_from_snoc)
qed

lemma scan_inv_fold:
  assumes "scan_inv S start st" "S \<le> start" "\<And>i. i < n \<Longrightarrow> bits ! i"
  shows "scan_inv S (start + n) (fold (collect_step start bits) [0..<n] st)"
  using assms(3) by (induction n) (auto simp: assms(1,2) intro!: scan_inv_step intro: trans_le_add1)

lemma scan_inv_generate:
  assumes "scan_inv S start st" "S \<le> start" "start \<le> maxLimit" "maxLimit < S * S" "2 \<le> S"
  shows "scan_inv S maxLimit (generate seg maxLimit start st) \<or> seg = 0"
  using assms
proof (induction seg maxLimit start st rule: generate.induct)
  case (1 seg maxLimit start st)
  show ?case
  proof (cases "start < maxLimit \<and> 0 < seg")
    case False
    then have "generate seg maxLimit start st = st" by (subst generate.simps) auto
    with False "1.prems" show ?thesis by auto
  next
    case True
    let ?stop = "min (start + seg) maxLimit"
    have "S * S \<le> start * start" using "1.prems"(2) by (simp add: mult_le_mono)
    then have all: "sieve start ?stop 2 (replicate seg True) = replicate seg True"
      using "1.prems"(4) by (intro sieve_later_segment) linarith
    have "scan_inv S (start + (?stop - start))
        (fold (collect_step start (replicate seg True)) [0..<?stop - start] st)"
      using "1.prems"(1,2) by (rule scan_inv_fold) auto
    moreover have "start + (?stop - start) = ?stop" using True by simp
    ultimately show ?thesis
      using "1.IH" [OF True refl refl] True "1.prems"
      by (simp add: generate.simps [of seg maxLimit start] Let_def all)
  qed
qed

lemma scan_inv_first_segment:
  assumes "2 \<le> S"
  shows "scan_inv S S (fold (collect_step 2 bits) [0..<S - 2] gen_init)"
proof -
  let ?st = "fold (collect_step 2 bits) [0..<S - 2] gen_init"
  have "gen_inv (2 + (S - 2)) ?st" by (rule gen_inv_fold) (rule gen_inv_init)
  then have g: "gen_inv S ?st" by (simp only: le_add_diff_inverse [OF assms])
  then have below: "p < S" if "p \<in> set (sharedQueue ?st)" for p
    using that by (simp add: gen_inv_def)
  have "unsieved_from S (sharedQueue ?st)"
    unfolding unsieved_from_def using below nth_mem by (metis Suc_lessD not_less)
  moreover have "lastStored ?st < S" if "sharedQueue ?st \<noteq> []"
    using g that below [OF last_in_set] by (simp add: gen_inv_def)
  ultimately show ?thesis using g unfolding scan_inv_def by (meson not_less)
qed

subsection \<open>Properties\<close>

text \<open>
  C37: In the first segment the sieve is correct: after sieving \<open>[2, stop)\<close> from a segment of set
  bits, bit \<open>x\<close> is set exactly when \<open>x + 2\<close> is a prime number.
\<close>

theorem first_segment_sieved:
  assumes "stop \<le> 2 + seg" and "x < stop - 2"
  shows "sieve 2 stop 2 (replicate seg True) ! x \<longleftrightarrow> is_prime (x + 2)"
  using assms by (intro sieve_first_segment) (auto simp: unsieved_def)

theorem first_segment_sieved_witness:
  "(9 :: nat) \<le> 2 + 7 \<and> (3 :: nat) < 9 - 2 \<and> sieve 2 9 2 (replicate 7 True) ! 3 \<and> is_prime 5"
proof -
  have "sieve 2 9 2 (replicate 7 True) ! 3 \<longleftrightarrow> is_prime (3 + 2)"
    by (rule first_segment_sieved) simp_all
  moreover have "is_prime 5" by code_simp
  ultimately show ?thesis by simp
qed

text \<open>
  The queue is a strictly increasing list of table sizes, each above the initial table size
  2053 and below the limit, whatever the segment size: a table that is resized through the queue
  always grows.
\<close>

theorem queue_strictly_increasing:
  assumes "2 \<le> maxLimit"
  shows "sorted_wrt (<) (2053 # initGenerator seg maxLimit) \<and>
    list_all (\<lambda>p. p < maxLimit) (initGenerator seg maxLimit)"
  using gen_inv_generate [OF gen_inv_init assms, of seg]
  by (simp add: initGenerator_def gen_inv_def list_all_iff)

theorem queue_strictly_increasing_witness:
  "sorted_wrt (<) (2053 # initGenerator SEGMENT_SIZE DEFAULT_MAX_LIMIT) \<and>
    list_all (\<lambda>p. p < 1000000000) (initGenerator SEGMENT_SIZE DEFAULT_MAX_LIMIT)"
  using queue_strictly_increasing [of DEFAULT_MAX_LIMIT SEGMENT_SIZE]
  by (simp add: DEFAULT_MAX_LIMIT_def)

text \<open>
  Beyond the first segment the generator does not test for primes at all: when the limit is
  below the square of the second segment's start, every queue entry after an entry of the later
  segments is the growth candidate computed from its predecessor, whatever its divisors.
\<close>

theorem later_entries_not_sieved:
  assumes "0 < seg" and "2 + seg \<le> maxLimit" and "maxLimit < (2 + seg) * (2 + seg)"
  shows "unsieved_from (2 + seg) (initGenerator seg maxLimit)"
proof -
  let ?bits = "sieve 2 (2 + seg) 2 (replicate seg True)"
  have "scan_inv (2 + seg) (2 + seg) (fold (collect_step 2 ?bits) [0..<2 + seg - 2] gen_init)"
    by (rule scan_inv_first_segment) simp
  from scan_inv_generate [OF this, of maxLimit seg] assms
  have "scan_inv (2 + seg) maxLimit
      (generate seg maxLimit (2 + seg) (fold (collect_step 2 ?bits) [0..<seg] gen_init))"
    by simp
  moreover have "generate seg maxLimit 2 gen_init =
      generate seg maxLimit (2 + seg) (fold (collect_step 2 ?bits) [0..<seg] gen_init)"
    using assms by (subst generate.simps) (simp add: min_def)
  ultimately show ?thesis by (simp add: initGenerator_def scan_inv_def)
qed

theorem later_entries_not_sieved_witness:
  "unsieved_from 1000002 (initGenerator SEGMENT_SIZE DEFAULT_MAX_LIMIT)"
  using later_entries_not_sieved [of SEGMENT_SIZE DEFAULT_MAX_LIMIT]
  by (simp add: SEGMENT_SIZE_def DEFAULT_MAX_LIMIT_def)

end
