(* ===== verification/Primegen_Queue.thy ===== *)
theory Primegen_Queue
  imports Primegen
begin

section \<open>The first sizes of the program's queue\<close>

text \<open>
  The queue \<open>initGenerator SEGMENT_SIZE DEFAULT_MAX_LIMIT\<close> that the program builds is too long to
  evaluate, but its first entries follow from the correctness of the first segment: seven primes
  below 1000002, each the first prime at or above the candidate, and then the first entry of the
  second segment. Primality is shown by trial division with the quotients as a certificate.
\<close>

subsection \<open>Trial division by numbers of the form 6k + 5 and 6k + 7\<close>

fun trial :: "nat \<Rightarrow> nat \<Rightarrow> nat \<Rightarrow> nat list \<Rightarrow> bool" where
  "trial n d w [] = (n < d * d)"
| "trial n d w (q # qs) = (if d * q < n \<and> n < d * q + d then trial n (d + w) (6 - w) qs else False)"

lemma between_multiples: "d * q < n \<Longrightarrow> n < d * q + d \<Longrightarrow> \<not> d dvd (n :: nat)"
proof
  assume b: "d * q < n" "n < d * q + d" and "d dvd n"
  then obtain k where k: "n = d * k" by (auto elim: dvdE)
  with b have "q < k" by simp
  then have "d * Suc q \<le> d * k" by (intro mult_le_mono2) simp
  with b(2) k show False by simp
qed

lemma wheel_step:
  assumes "d mod 6 = 5 \<and> w = 2 \<or> d mod 6 = 1 \<and> w = 4" and "d < c" "c mod 6 = 1 \<or> c mod 6 = 5"
  shows "d + w \<le> (c :: nat)"
proof (rule ccontr)
  assume "\<not> d + w \<le> c"
  with assms(2) obtain k where k: "c = d + k" "0 < k" "k < w"
    using less_imp_add_positive [OF assms(2)] by auto
  have "c mod 6 = (d mod 6 + k) mod 6" by (simp add: k(1) mod_add_left_eq)
  moreover have "k = 1 \<or> w = 4 \<and> (k = 2 \<or> k = 3)" using k(2,3) assms(1) by auto
  ultimately show False using assms(1,3) by auto
qed

text \<open>The divisors visited from \<open>d\<close> on are all the numbers coprime to 6.\<close>

lemma trial_sound:
  assumes "trial n d w qs" and "d mod 6 = 5 \<and> w = 2 \<or> d mod 6 = 1 \<and> w = 4"
    and "d \<le> c" "c mod 6 = 1 \<or> c mod 6 = 5" "c * c \<le> n"
  shows "\<not> c dvd n"
  using assms
proof (induction n d w qs rule: trial.induct)
  case (1 n d w)
  then have "d * d \<le> c * c" by (simp add: mult_le_mono)
  with 1 show ?case by simp
next
  case (2 n d w q qs)
  show ?case
  proof (cases "c = d")
    case True
    from "2.prems"(1) have "d * q < n" "n < d * q + d" by (simp_all split: if_splits)
    then show ?thesis unfolding True by (rule between_multiples)
  next
    case False
    with "2.prems"(2-4) have "d + w \<le> c" by (intro wheel_step) auto
    moreover have "(d + w) mod 6 = 5 \<and> 6 - w = 2 \<or> (d + w) mod 6 = 1 \<and> 6 - w = 4"
      using "2.prems"(2) by (auto simp: mod_add_left_eq [symmetric, of d])
    ultimately show ?thesis using "2.IH" "2.prems" by (simp split: if_splits)
  qed
qed

lemma is_prime_trial:
  assumes "trial n 5 2 qs" "5 \<le> n" "n mod 6 = 1 \<or> n mod 6 = 5"
  shows "is_prime n"
proof -
  have "\<not> d dvd n" if d: "2 \<le> d" "d * d \<le> n" for d
  proof
    assume "d dvd n"
    moreover have "\<not> 2 dvd n" "\<not> 3 dvd n" using assms(3) by presburger+
    ultimately have "\<not> 2 dvd d" "\<not> 3 dvd d" by (blast intro: dvd_trans)+
    then have "d mod 6 = 1 \<or> d mod 6 = 5" by presburger
    moreover from this d(1) have "5 \<le> d" by presburger
    ultimately show False using d trial_sound [OF assms(1), of d] \<open>d dvd n\<close> by auto
  qed
  moreover have "n < n * n" using assms(2) by simp
  ultimately show ?thesis
    using unsieved_is_prime [of n n] assms(2) by (auto simp: unsieved_def)
qed

lemma is_prime_4111: "is_prime 4111"
  by (rule is_prime_trial [where qs = "
    [822, 587, 373, 316, 241, 216, 178, 164, 141, 132, 117, 111, 100, 95, 87, 83, 77, 74, 69,
     67]"]) simp_all

lemma is_prime_16447: "is_prime 16447"
  by (rule is_prime_trial [where qs = "
    [3289, 2349, 1495, 1265, 967, 865, 715, 657, 567, 530, 469, 444, 401, 382, 349, 335, 310,
     299, 278, 269, 253, 245, 231, 225, 213, 208, 198, 193, 184, 180, 173, 169, 162, 159, 153,
     150, 145, 143, 138, 135, 131, 129]"]) simp_all

lemma is_prime_65789: "is_prime 65789"
  by (rule is_prime_trial [where qs = "
    [13157, 9398, 5980, 5060, 3869, 3462, 2860, 2631, 2268, 2122, 1879, 1778, 1604, 1529, 1399,
     1342, 1241, 1196, 1115, 1078, 1012, 981, 926, 901, 854, 832, 792, 773, 739, 722, 692, 678,
     651, 638, 614, 603, 582, 572, 552, 543, 526, 518, 502, 494, 480, 473, 460, 453, 441, 435,
     424, 419, 408, 403, 393, 389, 380, 375, 367, 363, 355, 351, 344, 340, 333, 330, 324, 320,
     314, 311, 305, 303, 297, 295, 289, 287, 282, 279, 275, 272, 268, 266, 262, 260]"]) simp_all

lemma is_prime_263167: "is_prime 263167"
  by (rule is_prime_trial [where qs = "
    [52633, 37595, 23924, 20243, 15480, 13850, 11442, 10526, 9074, 8489, 7519, 7112, 6418, 6120,
     5599, 5370, 4965, 4784, 4460, 4314, 4048, 3927, 3706, 3605, 3417, 3331, 3170, 3096, 2956,
     2891, 2770, 2713, 2605, 2555, 2459, 2414, 2328, 2288, 2211, 2174, 2105, 2072, 2008, 1978,
     1920, 1893, 1840, 1814, 1766, 1742, 1697, 1676, 1634, 1614, 1575, 1557, 1521, 1503, 1470,
     1453, 1422, 1407, 1377, 1363, 1335, 1322, 1296, 1283, 1259, 1247, 1224, 1212, 1190, 1180,
     1159, 1149, 1129, 1119, 1101, 1091, 1074, 1065, 1048, 1040, 1023, 1016, 1000, 993, 978,
     971, 956, 950, 936, 929, 916, 910, 898, 892, 880, 874, 862, 857, 846, 840, 830, 824, 814,
     809, 799, 795, 785, 780, 771, 767, 758, 754, 745, 741, 733, 728, 721, 717, 709, 705, 698,
     694, 687, 683, 676, 673, 666, 662, 656, 653, 646, 643, 637, 634, 628, 625, 619, 616, 610,
     607, 602, 599, 594, 591, 586, 583, 578, 575, 570, 568, 563, 561, 556, 554, 549, 547, 542,
     540, 535, 533, 529, 527, 523, 521, 517, 515]"]) simp_all

lemma is_prime_394759: "is_prime 394759"
  by (rule is_prime_trial [where qs = "
    [78951, 56394, 35887, 30366, 23221, 20776, 17163, 15790, 13612, 12734, 11278, 10669, 9628,
     9180, 8399, 8056, 7448, 7177, 6690, 6471, 6073, 5891, 5559, 5407, 5126, 4996, 4756, 4644,
     4435, 4338, 4155, 4069, 3908, 3832, 3689, 3621, 3493, 3432, 3317, 3262, 3158, 3108, 3013,
     2968, 2881, 2839, 2760, 2722, 2649, 2614, 2546, 2514, 2451, 2421, 2363, 2335, 2281, 2255,
     2205, 2180, 2133, 2111, 2066, 2045, 2003, 1983, 1944, 1925, 1888, 1870, 1836, 1819, 1786,
     1770, 1739, 1723, 1694, 1679, 1651, 1638, 1611, 1598, 1572, 1560, 1536, 1524, 1500, 1489,
     1467, 1456, 1435, 1425, 1404, 1394, 1375, 1365, 1347, 1338, 1320, 1311, 1294, 1285, 1269,
     1261, 1245, 1237, 1222, 1214, 1199, 1192, 1178, 1171, 1157, 1150, 1137, 1131, 1118, 1111,
     1099, 1093, 1081, 1075, 1064, 1058, 1047, 1041, 1030, 1025, 1014, 1009, 999, 994, 984, 979,
     969, 965, 955, 951, 942, 937, 928, 924, 915, 911, 903, 899, 891, 887, 879, 875, 867, 863,
     856, 852, 845, 841, 834, 831, 824, 820, 813, 810, 803, 800, 794, 791, 784, 781, 775, 772,
     766, 763, 757, 754, 749, 746, 740, 737, 732, 729, 724, 721, 716, 713, 708, 706, 701, 698,
     693, 691, 686, 684, 679, 677, 672, 670, 665, 663, 659, 656, 652, 650, 646, 643, 639, 637,
     633, 631]"]) simp_all

lemma is_prime_592139: "is_prime 592139"
  by (rule is_prime_trial [where qs = "
    [118427, 84591, 53830, 45549, 34831, 31165, 25745, 23685, 20418, 19101, 16918, 16003, 14442,
     13770, 12598, 12084, 11172, 10766, 10036, 9707, 9109, 8837, 8339, 8111, 7690, 7495, 7134,
     6966, 6653, 6507, 6233, 6104, 5862, 5748, 5534, 5432, 5240, 5149, 4975, 4893, 4737, 4662,
     4520, 4452, 4322, 4259, 4140, 4083, 3974, 3921, 3820, 3771, 3677, 3632, 3545, 3503, 3422,
     3383, 3308, 3271, 3200, 3166, 3100, 3068, 3005, 2975, 2916, 2888, 2833, 2806, 2754, 2728,
     2679, 2655, 2608, 2585, 2541, 2519, 2477, 2457, 2416, 2397, 2359, 2340, 2304, 2286, 2251,
     2234, 2201, 2185, 2153, 2137, 2107, 2092, 2063, 2048, 2020, 2007, 1980, 1967, 1941, 1928,
     1903, 1891, 1867, 1856, 1833, 1821, 1799, 1788, 1767, 1757, 1736, 1726, 1706, 1696, 1677,
     1667, 1649, 1640, 1622, 1613, 1596, 1587, 1570, 1562, 1546, 1538, 1522, 1514, 1499, 1491,
     1476, 1469, 1454, 1447, 1433, 1426, 1413, 1406, 1393, 1386, 1373, 1367, 1355, 1348, 1336,
     1330, 1318, 1312, 1301, 1295, 1284, 1278, 1267, 1262, 1251, 1246, 1236, 1231, 1220, 1215,
     1205, 1201, 1191, 1186, 1177, 1172, 1163, 1158, 1149, 1145, 1136, 1132, 1123, 1119, 1110,
     1106, 1098, 1094, 1086, 1082, 1074, 1070, 1063, 1059, 1051, 1048, 1040, 1037, 1029, 1026,
     1019, 1015, 1008, 1005, 998, 995, 988, 985, 978, 975, 969, 965, 959, 956, 950, 947, 941,
     938, 932, 929, 923, 920, 915, 912, 906, 904, 898, 895, 890, 887, 882, 879, 874, 872, 866,
     864, 859, 856, 851, 849, 844, 842, 837, 835, 830, 828, 823, 821, 816, 814, 810, 807, 803,
     801, 796, 794, 790, 788, 784, 782, 778, 776, 772, 770]"]) simp_all

lemma is_prime_888211: "is_prime 888211"
  by (rule is_prime_trial [where qs = "
    [177642, 126887, 80746, 68323, 52247, 46747, 38617, 35528, 30627, 28651, 25377, 24005,
     21663, 20656, 18898, 18126, 16758, 16149, 15054, 14560, 13664, 13256, 12510, 12167, 11535,
     11243, 10701, 10449, 9979, 9760, 9349, 9156, 8794, 8623, 8301, 8148, 7860, 7723, 7463,
     7340, 7105, 6993, 6780, 6678, 6483, 6390, 6211, 6125, 5961, 5882, 5730, 5657, 5516, 5449,
     5318, 5255, 5134, 5075, 4962, 4907, 4801, 4749, 4650, 4602, 4508, 4463, 4375, 4332, 4249,
     4209, 4131, 4093, 4019, 3983, 3912, 3878, 3812, 3779, 3716, 3685, 3625, 3595, 3538, 3510,
     3456, 3429, 3377, 3351, 3301, 3277, 3229, 3206, 3160, 3138, 3094, 3073, 3031, 3010, 2970,
     2950, 2912, 2893, 2855, 2837, 2801, 2784, 2749, 2732, 2699, 2683, 2651, 2635, 2604, 2589,
     2559, 2545, 2516, 2502, 2474, 2460, 2433, 2420, 2394, 2381, 2355, 2343, 2319, 2307, 2283,
     2271, 2248, 2237, 2214, 2203, 2182, 2171, 2150, 2140, 2119, 2109, 2089, 2080, 2060, 2051,
     2032, 2023, 2004, 1995, 1978, 1969, 1952, 1943, 1926, 1918, 1901, 1893, 1877, 1869, 1854,
     1846, 1831, 1823, 1808, 1801, 1787, 1779, 1765, 1758, 1745, 1738, 1724, 1718, 1704, 1698,
     1685, 1679, 1666, 1660, 1647, 1641, 1629, 1623, 1611, 1606, 1594, 1588, 1577, 1572, 1561,
     1555, 1544, 1539, 1528, 1523, 1513, 1507, 1497, 1492, 1482, 1477, 1468, 1463, 1453, 1448,
     1439, 1434, 1425, 1421, 1412, 1407, 1398, 1394, 1385, 1381, 1372, 1368, 1360, 1356, 1347,
     1343, 1335, 1331, 1323, 1319, 1311, 1308, 1300, 1296, 1289, 1285, 1278, 1274, 1267, 1263,
     1256, 1252, 1245, 1242, 1235, 1231, 1225, 1221, 1215, 1211, 1205, 1201, 1195, 1192, 1185,
     1182, 1176, 1173, 1167, 1164, 1158, 1155, 1149, 1146, 1140, 1137, 1131, 1128, 1122, 1120,
     1114, 1111, 1106, 1103, 1097, 1095, 1089, 1087, 1081, 1079, 1074, 1071, 1066, 1063, 1058,
     1056, 1051, 1048, 1043, 1041, 1036, 1034, 1029, 1026, 1022, 1019, 1015, 1012, 1008, 1005,
     1001, 999, 994, 992, 987, 985, 981, 979, 974, 972, 968, 966, 962, 960, 956, 954, 949, 947,
     943]"]) simp_all

subsection \<open>The queue\<close>

lemma not_is_primeI: "d dvd n \<Longrightarrow> 2 \<le> d \<Longrightarrow> d < n \<Longrightarrow> \<not> is_prime n"
  by (auto simp: is_prime_def)

text \<open>One prime of the first segment is appended when no prime lies between the candidate and it.\<close>

lemma push_first_segment:
  assumes bits: "\<And>x. x < N \<Longrightarrow> bits ! x \<longleftrightarrow> is_prime (x + 2)"
    and cand: "dbl_mul_trunc l g = cand" "cand \<le> p" and p: "is_prime p" "a + 2 \<le> p" "p < N + 2"
    and none: "list_all (\<lambda>y. \<not> is_prime y) [cand..<p]"
  shows "fold (collect_step 2 bits) [a..<N] \<lparr>lastStored = l, growthFactor = g, sharedQueue = q\<rparr> =
    fold (collect_step 2 bits) [p - 1..<N]
      \<lparr>lastStored = p, growthFactor = next_growth p, sharedQueue = q @ [p]\<rparr>"
proof -
  have p2: "2 + (p - 2) = p" "Suc (p - 2) = p - 1" using p(2) by linarith+
  have "bits ! (p - 2)" using bits [of "p - 2"] p p2 by (simp add: add.commute)
  moreover have "2 + x < cand" if "x < p - 2" "bits ! x" for x
  proof (rule ccontr)
    assume "\<not> 2 + x < cand"
    moreover have "is_prime (x + 2)" using bits [of x] that p by auto
    ultimately show False using none that(1) by (auto simp: list_all_iff add.commute)
  qed
  ultimately show ?thesis
    using collect_push [of a "p - 2" N bits "\<lparr>lastStored = l, growthFactor = g, sharedQueue = q\<rparr>" 2]
      cand p p2 by simp
qed

lemma composites:
  "\<not> is_prime 4106"
  "\<not> is_prime 4107"
  "\<not> is_prime 4108"
  "\<not> is_prime 4109"
  "\<not> is_prime 4110"
  "\<not> is_prime 16444"
  "\<not> is_prime 16445"
  "\<not> is_prime 16446"
  "\<not> is_prime 65788"
  "\<not> is_prime 263156"
  "\<not> is_prime 263157"
  "\<not> is_prime 263158"
  "\<not> is_prime 263159"
  "\<not> is_prime 263160"
  "\<not> is_prime 263161"
  "\<not> is_prime 263162"
  "\<not> is_prime 263163"
  "\<not> is_prime 263164"
  "\<not> is_prime 263165"
  "\<not> is_prime 263166"
  "\<not> is_prime 394750"
  "\<not> is_prime 394751"
  "\<not> is_prime 394752"
  "\<not> is_prime 394753"
  "\<not> is_prime 394754"
  "\<not> is_prime 394755"
  "\<not> is_prime 394756"
  "\<not> is_prime 394757"
  "\<not> is_prime 394758"
  "\<not> is_prime 592138"
  "\<not> is_prime 888208"
  "\<not> is_prime 888209"
  "\<not> is_prime 888210"
  by (rule not_is_primeI [of 2] not_is_primeI [of 3] not_is_primeI [of 5] not_is_primeI [of 7]
      not_is_primeI [of 11] not_is_primeI [of 13] not_is_primeI [of 37] not_is_primeI [of 97]; simp; fail)+

lemma candidates:
  "dbl_mul_trunc 4111 (next_growth 4111) = 16444"
  "dbl_mul_trunc 16447 (next_growth 16447) = 65788"
  "dbl_mul_trunc 65789 (next_growth 65789) = 263156"
  "dbl_mul_trunc 263167 (next_growth 263167) = 394750"
  "dbl_mul_trunc 394759 (next_growth 394759) = 592138"
  "dbl_mul_trunc 592139 (next_growth 592139) = 888208"
  "dbl_mul_trunc 888211 (next_growth 888211) = 1332316"
  by (simp_all add: next_growth_def dbl_eval)

lemma fold_first_segment:
  assumes bits: "\<And>x. x < N \<Longrightarrow> bits ! x \<longleftrightarrow> is_prime (x + 2)" and N: "N = 1000000"
  shows "fold (collect_step 2 bits) [0..<N] gen_init =
    \<lparr>lastStored = 888211, growthFactor = next_growth 888211,
     sharedQueue = [4111, 16447, 65789, 263167, 394759, 592139, 888211]\<rparr>"
proof -
  let ?scan = "\<lambda>a l q. fold (collect_step 2 bits) [a..<N]
    \<lparr>lastStored = l, growthFactor = next_growth l, sharedQueue = q\<rparr>"
  note push = push_first_segment [where q = "_", OF bits]
  have "fold (collect_step 2 bits) [0..<N] gen_init = ?scan (4111 - 1) 4111 ([] @ [4111])"
    unfolding gen_init_def
    by (rule push [where cand = 4106])
      (simp_all add: N dbl_mul_trunc_first is_prime_4111 composites)
  also have "\<dots> = ?scan (16447 - 1) 16447 (([] @ [4111]) @ [16447])"
    by (rule push [where cand = 16444])
      (simp_all add: N candidates is_prime_16447 composites)
  also have "\<dots> = ?scan (65789 - 1) 65789 ((([] @ [4111]) @ [16447]) @ [65789])"
    by (rule push [where cand = 65788])
      (simp_all add: N candidates is_prime_65789 composites)
  also have "\<dots> = ?scan (263167 - 1) 263167 (((([] @ [4111]) @ [16447]) @ [65789]) @ [263167])"
    by (rule push [where cand = 263156])
      (simp_all add: N candidates is_prime_263167 composites)
  also have "\<dots> = ?scan (394759 - 1) 394759 ((((([] @ [4111]) @ [16447]) @ [65789]) @ [263167]) @ [394759])"
    by (rule push [where cand = 394750])
      (simp_all add: N candidates is_prime_394759 composites)
  also have "\<dots> = ?scan (592139 - 1) 592139 (((((([] @ [4111]) @ [16447]) @ [65789]) @ [263167]) @ [394759]) @ [592139])"
    by (rule push [where cand = 592138])
      (simp_all add: N candidates is_prime_592139 composites)
  also have "\<dots> = ?scan (888211 - 1) 888211 ((((((([] @ [4111]) @ [16447]) @ [65789]) @ [263167]) @ [394759]) @ [592139]) @ [888211])"
    by (rule push [where cand = 888208])
      (simp_all add: N candidates is_prime_888211 composites)
  also have "\<dots> = \<lparr>lastStored = 888211, growthFactor = next_growth 888211,
      sharedQueue = [4111, 16447, 65789, 263167, 394759, 592139, 888211]\<rparr>"
  proof (subst collect_none)
    fix x
    assume "x < N"
    then show "2 + x < dbl_mul_trunc (lastStored \<lparr>lastStored = 888211, growthFactor = next_growth 888211,
          sharedQueue = ((((((([] @ [4111]) @ [16447]) @ [65789]) @ [263167]) @ [394759]) @ [592139]) @ [888211])\<rparr>)
        (growthFactor \<lparr>lastStored = 888211, growthFactor = next_growth 888211,
          sharedQueue = ((((((([] @ [4111]) @ [16447]) @ [65789]) @ [263167]) @ [394759]) @ [592139]) @ [888211])\<rparr>)"
      by (simp add: N candidates)
  qed simp
  finally show ?thesis .
qed

lemma queue_extends: "\<exists>rest. sharedQueue (collect_step start bits i st) = sharedQueue st @ rest"
  by (simp add: collect_step_def Let_def)

lemma queue_extends_fold:
  "\<exists>rest. sharedQueue (fold (collect_step start bits) is st) = sharedQueue st @ rest"
proof (induction "is" arbitrary: st)
  case (Cons i "is")
  then show ?case using queue_extends [of start bits i st] by (metis append.assoc fold_simps(2))
qed simp

lemma queue_extends_generate:
  "\<exists>rest. sharedQueue (generate seg maxLimit start st) = sharedQueue st @ rest"
proof (induction seg maxLimit start st rule: generate.induct)
  case (1 seg maxLimit start st)
  show ?case
  proof (cases "start < maxLimit \<and> 0 < seg")
    case True
    let ?stop = "min (start + seg) maxLimit"
    let ?st = "fold (collect_step start (sieve start ?stop 2 (replicate seg True)))
      [0..<?stop - start] st"
    from "1" [OF True refl refl] obtain rest where
      "sharedQueue (generate seg maxLimit ?stop ?st) = sharedQueue ?st @ rest" by blast
    moreover obtain rest' where "sharedQueue ?st = sharedQueue st @ rest'"
      using queue_extends_fold by blast
    ultimately show ?thesis
      using True by (simp add: generate.simps [of seg maxLimit start st] Let_def)
  next
    case False
    then have "generate seg maxLimit start st = st" by (subst generate.simps) auto
    then show ?thesis by simp
  qed
qed

text \<open>
  The queue that the program builds starts with seven primes, but its eighth size is 1332316,
  an even number: from the second segment on the generator of prime table sizes hands out
  composite ones.
\<close>

theorem production_queue_prefix:
  "\<exists>rest. initGenerator SEGMENT_SIZE DEFAULT_MAX_LIMIT =
     [4111, 16447, 65789, 263167, 394759, 592139, 888211, 1332316] @ rest \<and> \<not> is_prime 1332316"
proof -
  define N where "N = SEGMENT_SIZE"
  define L where "L = DEFAULT_MAX_LIMIT"
  have N: "N = 1000000" and L: "L = 1000000000"
    by (simp_all add: N_def L_def SEGMENT_SIZE_def DEFAULT_MAX_LIMIT_def)
  let ?bits = "sieve 2 (2 + N) 2 (replicate N True)"
  let ?scan = "\<lambda>a st. fold (collect_step (2 + N) (replicate N True)) [a..<N] st"
  let ?st1 = "\<lparr>lastStored = 888211, growthFactor = next_growth 888211,
     sharedQueue = [4111, 16447, 65789, 263167, 394759, 592139, 888211]\<rparr>"
  have "?bits ! x \<longleftrightarrow> is_prime (x + 2)" if "x < N" for x
    using that by (intro sieve_first_segment) (auto simp: unsieved_def)
  from fold_first_segment [OF this N]
  have fold1: "fold (collect_step 2 ?bits) [0..<N] gen_init = ?st1" .
  have c1: "2 < L \<and> 0 < N" "min (2 + N) L = 2 + N" "2 + N - 2 = N"
    by (simp_all add: N L)
  have seg1: "generate N L 2 gen_init = generate N L (2 + N) ?st1"
    by (subst generate.simps) (simp only: c1 if_True simp_thms Let_def fold1)
  have "2 + N + N < (2 + N) * (2 + N)" by (simp add: N)
  then have bits2: "sieve (2 + N) (2 + N + N) 2 (replicate N True) = replicate N True"
    by (rule sieve_later_segment)
  have c2: "2 + N < L \<and> 0 < N" "min (2 + N + N) L = 2 + N + N" "2 + N + N - (2 + N) = N"
    by (simp_all add: N L)
  have seg2: "generate N L (2 + N) ?st1 = generate N L (2 + N + N) (?scan 0 ?st1)"
    by (subst generate.simps) (simp only: c2 if_True simp_thms Let_def bits2)
  define st2 where "st2 = ?st1\<lparr>sharedQueue := sharedQueue ?st1 @ [2 + N + 332314],
    lastStored := 2 + N + 332314, growthFactor := next_growth (2 + N + 332314)\<rparr>"
  have scan: "?scan 0 ?st1 = ?scan (Suc 332314) st2"
    unfolding st2_def
  proof (rule collect_push)
    have "332314 < N" by (simp add: N)
    then show "replicate N True ! 332314" by (rule nth_replicate [THEN iffD2]) simp
  qed (simp_all add: N candidates)
  have q2: "sharedQueue st2 = [4111, 16447, 65789, 263167, 394759, 592139, 888211, 1332316]"
    by (simp add: st2_def N)
  obtain r1 where r1: "sharedQueue (?scan (Suc 332314) st2) = sharedQueue st2 @ r1"
    using queue_extends_fold by blast
  obtain r2 where
    "sharedQueue (generate N L (2 + N + N) (?scan 0 ?st1)) = sharedQueue (?scan 0 ?st1) @ r2"
    using queue_extends_generate by blast
  then have "initGenerator N L =
      [4111, 16447, 65789, 263167, 394759, 592139, 888211, 1332316] @ (r1 @ r2)"
    unfolding initGenerator_def seg1 seg2 scan r1 q2 append_assoc .
  moreover have "\<not> is_prime 1332316" by (rule not_is_primeI [of 2]) simp_all
  ultimately show ?thesis unfolding N_def L_def by blast
qed

end
