(* ===== verification/Hash.thy ===== *)
theory Hash
  imports Prelude
begin

unbundle bit_operations_syntax

section \<open>MurmurHash3 and \<open>hashFunc\<close> (src/src/hash)\<close>

text \<open>
  \<^verbatim>\<open>MurmurHash3_x64_128\<close>, the variant the cache calls, on 64-bit words with the wrap-around of
  \<^verbatim>\<open>uint64_t\<close>, and \<^verbatim>\<open>hashFunc\<close>, which hashes a C string with seed 0 and keeps the first half of
  the 128 bits. Blocks are read as the little-endian machines the project targets read them.
  The length is a natural number: keys are shorter than \<open>2 ^ 31\<close> bytes, where the \<^verbatim>\<open>int\<close>
  parameter of the source holds it exactly.
\<close>

definition rotl64 :: "u64 \<Rightarrow> nat \<Rightarrow> u64" where
  "rotl64 x r = push_bit r x OR drop_bit (64 - r) x"

definition fmix64 :: "u64 \<Rightarrow> u64" where
  "fmix64 k0 =
     (let k1 = k0 XOR drop_bit 33 k0;
          k2 = k1 * 0xff51afd7ed558ccd;
          k3 = k2 XOR drop_bit 33 k2;
          k4 = k3 * 0xc4ceb9fe1a85ec53
      in k4 XOR drop_bit 33 k4)"

definition byte_at :: "bytes \<Rightarrow> nat \<Rightarrow> u64" where
  "byte_at data i = of_char (data ! i)"

definition getblock64 :: "bytes \<Rightarrow> nat \<Rightarrow> u64" where
  "getblock64 data i =
     fold (\<lambda>j w. w OR push_bit (8 * j) (byte_at data (8 * i + j))) [0, 1, 2, 3, 4, 5, 6, 7] 0"

definition c1_x64 :: u64 where "c1_x64 = 0x87c37b91114253d5"

definition c2_x64 :: u64 where "c2_x64 = 0x4cf5ad432745937f"

definition mix_k1 :: "u64 \<Rightarrow> u64" where
  "mix_k1 k = rotl64 (k * c1_x64) 31 * c2_x64"

definition mix_k2 :: "u64 \<Rightarrow> u64" where
  "mix_k2 k = rotl64 (k * c2_x64) 33 * c1_x64"

definition body_step :: "bytes \<Rightarrow> nat \<Rightarrow> u64 \<times> u64 \<Rightarrow> u64 \<times> u64" where
  "body_step data i = (\<lambda>(h1, h2).
     let k1 = getblock64 data (i * 2 + 0);
         k2 = getblock64 data (i * 2 + 1);
         h1 = h1 XOR mix_k1 k1;
         h1 = rotl64 h1 27;
         h1 = h1 + h2;
         h1 = h1 * 5 + 0x52dce729;
         h2 = h2 XOR mix_k2 k2;
         h2 = rotl64 h2 31;
         h2 = h2 + h1;
         h2 = h2 * 5 + 0x38495ab5
     in (h1, h2))"

text \<open>
  The \<^verbatim>\<open>switch (len & 15)\<close> falls through its cases from the highest byte of the tail down:
  byte \<open>j\<close> is mixed in when the tail has more than \<open>j\<close> bytes, bytes 8 to 14 into \<open>k2\<close> and 0 to
  7 into \<open>k1\<close>; the mixing of \<open>k2\<close> into \<open>h2\<close> is reached from case 9 on, that of \<open>k1\<close> into \<open>h1\<close>
  from case 1 on.
\<close>

definition tail_word :: "bytes \<Rightarrow> nat \<Rightarrow> nat \<Rightarrow> nat \<Rightarrow> nat list \<Rightarrow> u64" where
  "tail_word data base r lo js =
     fold (\<lambda>j k. if j < r then k XOR push_bit (8 * (j - lo)) (byte_at data (base + j)) else k) js 0"

definition tail_step :: "bytes \<Rightarrow> nat \<Rightarrow> nat \<Rightarrow> u64 \<times> u64 \<Rightarrow> u64 \<times> u64" where
  "tail_step data base r = (\<lambda>(h1, h2).
     let k2 = tail_word data base r 8 [14, 13, 12, 11, 10, 9, 8];
         h2 = (if 9 \<le> r then h2 XOR mix_k2 k2 else h2);
         k1 = tail_word data base r 0 [7, 6, 5, 4, 3, 2, 1, 0];
         h1 = (if 1 \<le> r then h1 XOR mix_k1 k1 else h1)
     in (h1, h2))"

definition finalize_x64 :: "nat \<Rightarrow> u64 \<times> u64 \<Rightarrow> u64 \<times> u64" where
  "finalize_x64 len = (\<lambda>(h1, h2).
     let h1 = h1 XOR of_nat len;
         h2 = h2 XOR of_nat len;
         h1 = h1 + h2;
         h2 = h2 + h1;
         h1 = fmix64 h1;
         h2 = fmix64 h2;
         h1 = h1 + h2;
         h2 = h2 + h1
     in (h1, h2))"

definition MurmurHash3_x64_128 :: "bytes \<Rightarrow> nat \<Rightarrow> u32 \<Rightarrow> u64 \<times> u64" where
  "MurmurHash3_x64_128 key len seed =
     (let nblocks = len div 16;
          h = (ucast seed, ucast seed);
          h = fold (body_step key) [0..<nblocks] h;
          h = tail_step key (nblocks * 16) (len mod 16) h
      in finalize_x64 len h)"

definition hashFunc :: "bytes \<Rightarrow> u64" where
  "hashFunc key = (let len = length (cstr key) in fst (MurmurHash3_x64_128 (cstr key) len 0))"

subsection \<open>Evaluation\<close>

text \<open>The same finalisation in steps whose arguments are values, for evaluation in proofs.\<close>

definition add_pair :: "u64 \<times> u64 \<Rightarrow> u64 \<times> u64" where
  "add_pair = (\<lambda>(a, b). (a + b, b + (a + b)))"

definition fmix_pair :: "u64 \<times> u64 \<Rightarrow> u64 \<times> u64" where
  "fmix_pair = (\<lambda>(a, b). (fmix64 a, fmix64 b))"

definition xor_shift :: "u64 \<Rightarrow> u64" where
  "xor_shift k = k XOR drop_bit 33 k"

lemma fmix64_steps [code]:
  "fmix64 k = xor_shift (xor_shift (xor_shift k * 0xff51afd7ed558ccd) * 0xc4ceb9fe1a85ec53)"
  by (simp add: fmix64_def xor_shift_def Let_def)

lemma finalize_x64_steps [code]:
  "finalize_x64 len (h1, h2) = add_pair (fmix_pair (add_pair (h1 XOR of_nat len, h2 XOR of_nat len)))"
  by (simp add: finalize_x64_def add_pair_def fmix_pair_def Let_def)

end
