(* ===== verification/Hash_x86.thy ===== *)
theory Hash_x86
  imports Hash
begin

unbundle bit_operations_syntax

section \<open>The 32-bit variants of MurmurHash3 (src/src/hash/MurmurHash3.cpp)\<close>

text \<open>
  \<^verbatim>\<open>MurmurHash3_x86_32\<close> and \<^verbatim>\<open>MurmurHash3_x86_128\<close> on 32-bit words. Both loops run \<open>i\<close> from \<open>-nblocks\<close>
  up to \<open>-1\<close> with \<^verbatim>\<open>blocks\<close> pointing to the end of the blocks; block \<open>i\<close> from the end is block
  \<open>nblocks + i\<close> from the start, and the model counts from the start. The bytes of the tail are
  shifted as \<^verbatim>\<open>int\<close> and converted, which for a byte and a shift of at most 24 is the shift of the
  converted byte.
\<close>

subsection \<open>Rotations, blocks and the final mix\<close>

definition rotl32 :: "u32 \<Rightarrow> nat \<Rightarrow> u32" where
  "rotl32 x r = push_bit r x OR drop_bit (32 - r) x"

definition byte32_at :: "bytes \<Rightarrow> nat \<Rightarrow> u32" where
  "byte32_at data i = of_char (data ! i)"

definition getblock32 :: "bytes \<Rightarrow> nat \<Rightarrow> u32" where
  "getblock32 data i =
     fold (\<lambda>j w. w OR push_bit (8 * j) (byte32_at data (4 * i + j))) [0, 1, 2, 3] 0"

definition fmix32 :: "u32 \<Rightarrow> u32" where
  "fmix32 h0 =
     (let h1 = h0 XOR drop_bit 16 h0;
          h2 = h1 * 0x85ebca6b;
          h3 = h2 XOR drop_bit 13 h2;
          h4 = h3 * 0xc2b2ae35
      in h4 XOR drop_bit 16 h4)"

text \<open>Byte \<open>j\<close> of the tail goes into a word of bytes that starts at \<open>lo\<close>, when the tail has it.\<close>

definition tail_word32 :: "bytes \<Rightarrow> nat \<Rightarrow> nat \<Rightarrow> nat \<Rightarrow> nat list \<Rightarrow> u32" where
  "tail_word32 data base r lo js =
     fold (\<lambda>j k. if j < r then k XOR push_bit (8 * (j - lo)) (byte32_at data (base + j)) else k) js 0"

subsection \<open>\<^verbatim>\<open>MurmurHash3_x86_32\<close>\<close>

definition mix_32 :: "u32 \<Rightarrow> u32" where
  "mix_32 k = rotl32 (k * 0xcc9e2d51) 15 * 0x1b873593"

definition body_step_32 :: "bytes \<Rightarrow> nat \<Rightarrow> u32 \<Rightarrow> u32" where
  "body_step_32 data i h1 =
     (let k1 = getblock32 data i;
          h1 = h1 XOR mix_32 k1;
          h1 = rotl32 h1 13
      in h1 * 5 + 0xe6546b64)"

definition tail_step_32 :: "bytes \<Rightarrow> nat \<Rightarrow> nat \<Rightarrow> u32 \<Rightarrow> u32" where
  "tail_step_32 data base r h1 =
     (let k1 = tail_word32 data base r 0 [2, 1, 0]
      in if 1 \<le> r then h1 XOR mix_32 k1 else h1)"

definition MurmurHash3_x86_32 :: "bytes \<Rightarrow> nat \<Rightarrow> u32 \<Rightarrow> u32" where
  "MurmurHash3_x86_32 key len seed =
     (let nblocks = len div 4;
          h1 = fold (body_step_32 key) [0..<nblocks] seed;
          h1 = tail_step_32 key (nblocks * 4) (len mod 4) h1;
          h1 = h1 XOR of_nat len
      in fmix32 h1)"

subsection \<open>\<^verbatim>\<open>MurmurHash3_x86_128\<close>\<close>

definition c1_x86 :: u32 where "c1_x86 = 0x239b961b"

definition c2_x86 :: u32 where "c2_x86 = 0xab0e9789"

definition c3_x86 :: u32 where "c3_x86 = 0x38b34ae5"

definition c4_x86 :: u32 where "c4_x86 = 0xa1e38b93"

definition mix1_x86 :: "u32 \<Rightarrow> u32" where
  "mix1_x86 k = rotl32 (k * c1_x86) 15 * c2_x86"

definition mix2_x86 :: "u32 \<Rightarrow> u32" where
  "mix2_x86 k = rotl32 (k * c2_x86) 16 * c3_x86"

definition mix3_x86 :: "u32 \<Rightarrow> u32" where
  "mix3_x86 k = rotl32 (k * c3_x86) 17 * c4_x86"

definition mix4_x86 :: "u32 \<Rightarrow> u32" where
  "mix4_x86 k = rotl32 (k * c4_x86) 18 * c1_x86"

type_synonym lanes = "u32 \<times> u32 \<times> u32 \<times> u32"

definition body_step_x86 :: "bytes \<Rightarrow> nat \<Rightarrow> lanes \<Rightarrow> lanes" where
  "body_step_x86 data i = (\<lambda>(h1, h2, h3, h4).
     let k1 = getblock32 data (i * 4 + 0);
         k2 = getblock32 data (i * 4 + 1);
         k3 = getblock32 data (i * 4 + 2);
         k4 = getblock32 data (i * 4 + 3);
         h1 = h1 XOR mix1_x86 k1;
         h1 = rotl32 h1 19;
         h1 = h1 + h2;
         h1 = h1 * 5 + 0x561ccd1b;
         h2 = h2 XOR mix2_x86 k2;
         h2 = rotl32 h2 17;
         h2 = h2 + h3;
         h2 = h2 * 5 + 0x0bcaa747;
         h3 = h3 XOR mix3_x86 k3;
         h3 = rotl32 h3 15;
         h3 = h3 + h4;
         h3 = h3 * 5 + 0x96cd1c35;
         h4 = h4 XOR mix4_x86 k4;
         h4 = rotl32 h4 13;
         h4 = h4 + h1;
         h4 = h4 * 5 + 0x32ac3b17
     in (h1, h2, h3, h4))"

definition tail_step_x86 :: "bytes \<Rightarrow> nat \<Rightarrow> nat \<Rightarrow> lanes \<Rightarrow> lanes" where
  "tail_step_x86 data base r = (\<lambda>(h1, h2, h3, h4).
     let k4 = tail_word32 data base r 12 [14, 13, 12];
         h4 = (if 13 \<le> r then h4 XOR mix4_x86 k4 else h4);
         k3 = tail_word32 data base r 8 [11, 10, 9, 8];
         h3 = (if 9 \<le> r then h3 XOR mix3_x86 k3 else h3);
         k2 = tail_word32 data base r 4 [7, 6, 5, 4];
         h2 = (if 5 \<le> r then h2 XOR mix2_x86 k2 else h2);
         k1 = tail_word32 data base r 0 [3, 2, 1, 0];
         h1 = (if 1 \<le> r then h1 XOR mix1_x86 k1 else h1)
     in (h1, h2, h3, h4))"

definition spread_x86 :: "lanes \<Rightarrow> lanes" where
  "spread_x86 = (\<lambda>(h1, h2, h3, h4).
     let h1 = h1 + h2;
         h1 = h1 + h3;
         h1 = h1 + h4
     in (h1, h2 + h1, h3 + h1, h4 + h1))"

definition finalize_x86 :: "nat \<Rightarrow> lanes \<Rightarrow> lanes" where
  "finalize_x86 len = (\<lambda>(h1, h2, h3, h4).
     let (h1, h2, h3, h4) = spread_x86 (h1 XOR of_nat len, h2 XOR of_nat len, h3 XOR of_nat len, h4 XOR of_nat len)
     in spread_x86 (fmix32 h1, fmix32 h2, fmix32 h3, fmix32 h4))"

definition MurmurHash3_x86_128 :: "bytes \<Rightarrow> nat \<Rightarrow> u32 \<Rightarrow> lanes" where
  "MurmurHash3_x86_128 key len seed =
     (let nblocks = len div 16;
          h = fold (body_step_x86 key) [0..<nblocks] (seed, seed, seed, seed);
          h = tail_step_x86 key (nblocks * 16) (len mod 16) h
      in finalize_x86 len h)"

end
