(* ===== verification/Hash_Mix.thy ===== *)
theory Hash_Mix
  imports Hash_x86
begin

unbundle bit_operations_syntax

section \<open>Mixing steps lose nothing\<close>

text \<open>
  The facts on machine words behind the injectivity of MurmurHash3: rotations, multiplications by odd
  constants, shifts combined with \<^verbatim>\<open>^\<close> and additions of one lane to another can all be undone, a block
  read from memory determines its bytes, and so does a word of tail bytes. The locale \<open>block_hash\<close> is
  what the three variants share: a step that mixes a block into the state, that can be undone, and that
  keeps blocks apart.
\<close>

subsection \<open>Words\<close>

lemma mult_left_inverse_cancel:
  fixes a b c d :: "'a::len word"
  assumes "c * d = 1" and "a * c = b * c"
  shows "a = b"
proof -
  have "a * (c * d) = b * (c * d)" using assms(2) by (simp flip: mult.assoc)
  then show ?thesis using assms(1) by simp
qed

lemma drop_bit_fixpoint:
  fixes z :: "'a::len word"
  assumes "drop_bit s z = z" and "0 < s"
  shows "z = 0"
proof -
  have "drop_bit s (unat z) = unat z"
    using arg_cong [OF assms(1), of unat] by (simp only: unat_drop_bit_eq)
  then have "unat z div 2 ^ s = unat z"
    by (simp add: drop_bit_eq_div)
  moreover have "2 \<le> (2::nat) ^ s"
    using assms(2) by (cases s) simp_all
  ultimately have "unat z = 0"
    by (metis div_less_dividend le_less_trans less_le_not_le nat_neq_iff one_less_numeral_iff not_less semiring_norm(76) less_le_trans bot_nat_0.not_eq_extremum)
  then show ?thesis by (simp add: unat_eq_0)
qed

lemma xor_drop_bit_inj:
  fixes a b :: "'a::len word"
  assumes "a XOR drop_bit s a = b XOR drop_bit s b" and "0 < s"
  shows "a = b"
proof -
  have "drop_bit s (a XOR b) = a XOR b"
    using assms(1) by (simp add: drop_bit_xor) (metis xor.assoc xor.commute xor.left_commute xor_self_eq xor.right_neutral)
  then have "a XOR b = 0" using assms(2) by (rule drop_bit_fixpoint)
  then show ?thesis by (metis xor.assoc xor.left_neutral xor.right_neutral xor_self_eq)
qed

lemma xor_right_inj: "a XOR c = b XOR c \<longleftrightarrow> a = b" for a b c :: "'a::len word"
  by (metis xor.assoc xor.right_neutral xor_self_eq)

lemma xor_left_inj: "c XOR a = c XOR b \<longleftrightarrow> a = b" for a b c :: "'a::len word"
  by (metis xor.assoc xor.left_neutral xor_self_eq)

lemma shifts_word_rotl:
  fixes x :: "'a::len word"
  assumes "0 < r" and "r < LENGTH('a)"
  shows "push_bit r x OR drop_bit (LENGTH('a) - r) x = word_rotl r x"
proof (rule bit_word_eqI)
  fix n
  assume n: "n < LENGTH('a)"
  have "(n + LENGTH('a) - r) mod LENGTH('a) = (if r \<le> n then n - r else n + LENGTH('a) - r)"
    using assms n by (auto simp: mod_if)
  moreover have "bit x (LENGTH('a) - r + n) \<Longrightarrow> n < r"
    using bit_imp_le_length [of x "LENGTH('a) - r + n"] assms(2) by simp
  ultimately show "bit (push_bit r x OR drop_bit (LENGTH('a) - r) x) n = bit (word_rotl r x) n"
    using assms n by (auto simp: bit_word_rotl_iff bit_or_iff bit_push_bit_iff bit_drop_bit_eq add.commute)
qed

lemma rotl64_word_rotl: "0 < r \<Longrightarrow> r < 64 \<Longrightarrow> rotl64 x r = word_rotl r x"
  using shifts_word_rotl [of r x] by (simp add: rotl64_def)

lemma rotl32_word_rotl: "0 < r \<Longrightarrow> r < 32 \<Longrightarrow> rotl32 x r = word_rotl r x"
  using shifts_word_rotl [of r x] by (simp add: rotl32_def)

lemma word_rotl_inj: "word_rotl r x = word_rotl r y \<longleftrightarrow> x = y"
  by (metis word_rot_lr)

lemma rotl64_inj: "0 < r \<Longrightarrow> r < 64 \<Longrightarrow> rotl64 x r = rotl64 y r \<longleftrightarrow> x = y"
  by (simp add: rotl64_word_rotl word_rotl_inj)

lemma rotl32_inj: "0 < r \<Longrightarrow> r < 32 \<Longrightarrow> rotl32 x r = rotl32 y r \<longleftrightarrow> x = y"
  by (simp add: rotl32_word_rotl word_rotl_inj)

lemma fmix64_inj: "fmix64 a = fmix64 b \<longleftrightarrow> a = b"
proof
  assume "fmix64 a = fmix64 b"
  then have "xor_shift (xor_shift a * 0xff51afd7ed558ccd) * 0xc4ceb9fe1a85ec53 =
      xor_shift (xor_shift b * 0xff51afd7ed558ccd) * 0xc4ceb9fe1a85ec53"
    unfolding fmix64_steps xor_shift_def by (rule xor_drop_bit_inj) simp
  then have "xor_shift (xor_shift a * 0xff51afd7ed558ccd) = xor_shift (xor_shift b * 0xff51afd7ed558ccd)"
    by (rule mult_left_inverse_cancel [where d = "0x9cb4b2f8129337db", rotated]) simp
  then have "xor_shift a * 0xff51afd7ed558ccd = xor_shift b * 0xff51afd7ed558ccd"
    unfolding xor_shift_def by (rule xor_drop_bit_inj) simp
  then have "xor_shift a = xor_shift b"
    by (rule mult_left_inverse_cancel [where d = "0x4f74430c22a54005", rotated]) simp
  then show "a = b"
    unfolding xor_shift_def by (rule xor_drop_bit_inj) simp
qed simp

lemma fmix32_inj: "fmix32 a = fmix32 b \<longleftrightarrow> a = b"
proof
  let ?m = "\<lambda>a::u32. (a XOR drop_bit 16 a) * 0x85ebca6b"
  assume "fmix32 a = fmix32 b"
  then have "(?m a XOR drop_bit 13 (?m a)) * 0xc2b2ae35 = (?m b XOR drop_bit 13 (?m b)) * 0xc2b2ae35"
    unfolding fmix32_def Let_def by (rule xor_drop_bit_inj) simp
  then have "?m a XOR drop_bit 13 (?m a) = ?m b XOR drop_bit 13 (?m b)"
    by (rule mult_left_inverse_cancel [where d = "0x7ed1b41d", rotated]) simp
  then have "?m a = ?m b"
    by (rule xor_drop_bit_inj) simp
  then have "a XOR drop_bit 16 a = b XOR drop_bit 16 b"
    by (rule mult_left_inverse_cancel [where d = "0xa5cb9243", rotated]) simp
  then show "a = b"
    by (rule xor_drop_bit_inj) simp
qed simp

text \<open>Multiplication by an odd constant of the code can be undone: the inverse is exhibited.\<close>

lemma mult_c64_inj [simp]:
  "a * c1_x64 = b * c1_x64 \<longleftrightarrow> a = b" "a * c2_x64 = b * c2_x64 \<longleftrightarrow> a = b" "a * (5::u64) = b * 5 \<longleftrightarrow> a = b"
  using mult_left_inverse_cancel [of c1_x64 "0xa98409e882ce4d7d" a b]
    mult_left_inverse_cancel [of c2_x64 "0xa81e14edd9de2c7f" a b]
    mult_left_inverse_cancel [of "5::u64" "0xcccccccccccccccd" a b]
  by (auto simp: c1_x64_def c2_x64_def)

lemma mult_c32_inj [simp]:
  "a * c1_x86 = b * c1_x86 \<longleftrightarrow> a = b" "a * c2_x86 = b * c2_x86 \<longleftrightarrow> a = b"
  "a * c3_x86 = b * c3_x86 \<longleftrightarrow> a = b" "a * c4_x86 = b * c4_x86 \<longleftrightarrow> a = b"
  "a * 0xcc9e2d51 = b * (0xcc9e2d51::u32) \<longleftrightarrow> a = b" "a * 0x1b873593 = b * (0x1b873593::u32) \<longleftrightarrow> a = b"
  "a * 5 = b * (5::u32) \<longleftrightarrow> a = b"
  using mult_left_inverse_cancel [of c1_x86 "0x89c95413" a b] mult_left_inverse_cancel [of c2_x86 "0xdf130eb9" a b]
    mult_left_inverse_cancel [of c3_x86 "0x747862ed" a b] mult_left_inverse_cancel [of c4_x86 "0x58d64a9b" a b]
    mult_left_inverse_cancel [of "0xcc9e2d51::u32" "0xdee13bb1" a b]
    mult_left_inverse_cancel [of "0x1b873593::u32" "0x56ed309b" a b]
    mult_left_inverse_cancel [of "5::u32" "0xcccccccd" a b]
  by (auto simp: c1_x86_def c2_x86_def c3_x86_def c4_x86_def)

lemmas mix_inj_simps = rotl64_inj rotl32_inj xor_right_inj xor_left_inj

lemma mix_k_inj [simp]:
  "mix_k1 a = mix_k1 b \<longleftrightarrow> a = b" "mix_k2 a = mix_k2 b \<longleftrightarrow> a = b"
  by (simp_all add: mix_k1_def mix_k2_def mix_inj_simps)

lemma mix_x86_inj [simp]:
  "mix_32 c = mix_32 d \<longleftrightarrow> c = d" "mix1_x86 c = mix1_x86 d \<longleftrightarrow> c = d" "mix2_x86 c = mix2_x86 d \<longleftrightarrow> c = d"
  "mix3_x86 c = mix3_x86 d \<longleftrightarrow> c = d" "mix4_x86 c = mix4_x86 d \<longleftrightarrow> c = d"
  by (simp_all add: mix_32_def mix1_x86_def mix2_x86_def mix3_x86_def mix4_x86_def mix_inj_simps)

subsection \<open>Bytes of a word\<close>

lemma bit_of_char_word:
  "bit (of_char c :: 'a::len word) n \<longleftrightarrow> n < LENGTH('a) \<and> n < 8 \<and>
    [digit0 c, digit1 c, digit2 c, digit3 c, digit4 c, digit5 c, digit6 c, digit7 c] ! n"
  unfolding of_char_def bit_horner_sum_bit_word_iff by (simp only: min_less_iff_conj list.size) auto

lemma char_eq_bits:
  assumes "\<And>n. n < 8 \<Longrightarrow> bit (of_char c :: 'a::len word) n \<longleftrightarrow> bit (of_char d :: 'a word) n" and "8 \<le> LENGTH('a)"
  shows "c = d"
proof -
  have "[digit0 c, digit1 c, digit2 c, digit3 c, digit4 c, digit5 c, digit6 c, digit7 c] =
      [digit0 d, digit1 d, digit2 d, digit3 d, digit4 d, digit5 d, digit6 d, digit7 d]"
    using assms by (intro nth_equalityI) (simp_all add: bit_of_char_word)
  then show ?thesis
    by (cases c; cases d) simp
qed

text \<open>A byte that is shifted to its place meets the bits of no other place.\<close>

lemma byte_place:
  assumes "n < 8" and "8 * i + n < LENGTH('a)"
  shows "bit (push_bit (8 * j) (of_char c) :: 'a::len word) (8 * i + n) \<longleftrightarrow> j = i \<and> bit (of_char c :: 'a word) n"
proof (cases "j = i")
  case False
  then have "8 * i + n - 8 * j < 8 \<Longrightarrow> \<not> 8 * j \<le> 8 * i + n" using assms(1) by arith
  then show ?thesis using False by (auto simp: bit_push_bit_iff bit_of_char_word)
qed (use assms in \<open>simp add: bit_push_bit_iff bit_of_char_word\<close>)

lemma fold_or_bytes:
  assumes "n < 8" and "8 * i + n < LENGTH('a)"
  shows "bit (fold (\<lambda>j w. w OR push_bit (8 * j) (of_char (f j))) js (0 :: 'a::len word)) (8 * i + n) \<longleftrightarrow>
    i \<in> set js \<and> bit (of_char (f i) :: 'a word) n"
  using byte_place [OF assms] by (induction js rule: rev_induct) (auto simp: bit_or_iff)

lemma fold_xor_bytes:
  assumes "n < 8" and "8 * (i - lo) + n < LENGTH('a)" and "distinct js" and "\<forall>j\<in>set js. lo \<le> j" and "lo \<le> i"
  shows "bit (fold (\<lambda>j k. if j < r then k XOR push_bit (8 * (j - lo)) (of_char (f j)) else k) js (0 :: 'a::len word))
      (8 * (i - lo) + n) \<longleftrightarrow> i \<in> set js \<and> i < r \<and> bit (of_char (f i) :: 'a word) n"
  using assms(3,4)
proof (induction js rule: rev_induct)
  case (snoc j js)
  have "j - lo = i - lo \<longleftrightarrow> j = i" using snoc.prems(2) assms(5) by auto
  then show ?case
    using snoc byte_place [OF assms(1,2), of "j - lo" "f j"] by (auto simp: bit_xor_iff)
qed simp

lemma upto_8: "[0, 1, 2, 3, 4, 5, 6, 7] = [0..<8::nat]" and upto_4: "[0, 1, 2, 3] = [0..<4::nat]"
  by (simp_all add: upt_rec)

lemma getblock64_eq: "getblock64 d i = getblock64 d' i \<longleftrightarrow> (\<forall>j<8. d ! (8 * i + j) = d' ! (8 * i + j))"
proof (intro iffI allI impI)
  fix j :: nat
  assume eq: "getblock64 d i = getblock64 d' i" and j: "j < 8"
  have bits: "bit (getblock64 x i) (8 * j + n) = bit (of_char (x ! (8 * i + j)) :: u64) n" if "n < 8" for x n
    using that j by (simp only: getblock64_def byte_at_def) (subst fold_or_bytes, auto)
  show "d ! (8 * i + j) = d' ! (8 * i + j)"
    using bits [of _ d] bits [of _ d'] eq by (intro char_eq_bits [where 'a = 64]) simp_all
next
  assume "\<forall>j<8. d ! (8 * i + j) = d' ! (8 * i + j)"
  then show "getblock64 d i = getblock64 d' i"
    unfolding getblock64_def byte_at_def upto_8 by (intro fold_cong) simp_all
qed

lemma getblock32_eq: "getblock32 d i = getblock32 d' i \<longleftrightarrow> (\<forall>j<4. d ! (4 * i + j) = d' ! (4 * i + j))"
proof (intro iffI allI impI)
  fix j :: nat
  assume eq: "getblock32 d i = getblock32 d' i" and j: "j < 4"
  have bits: "bit (getblock32 x i) (8 * j + n) = bit (of_char (x ! (4 * i + j)) :: u32) n" if "n < 8" for x n
    using that j by (simp only: getblock32_def byte32_at_def) (subst fold_or_bytes, auto)
  show "d ! (4 * i + j) = d' ! (4 * i + j)"
    using bits [of _ d] bits [of _ d'] eq by (intro char_eq_bits [where 'a = 32]) simp_all
next
  assume "\<forall>j<4. d ! (4 * i + j) = d' ! (4 * i + j)"
  then show "getblock32 d i = getblock32 d' i"
    unfolding getblock32_def byte32_at_def upto_4 by (intro fold_cong) simp_all
qed

lemma tail_word_eq:
  assumes "distinct js" and "\<forall>j\<in>set js. lo \<le> j \<and> j < lo + 8"
  shows "tail_word d base r lo js = tail_word d' base r lo js \<longleftrightarrow>
    (\<forall>j\<in>set js. j < r \<longrightarrow> d ! (base + j) = d' ! (base + j))"
proof (intro iffI ballI impI)
  fix j
  assume eq: "tail_word d base r lo js = tail_word d' base r lo js" and j: "j \<in> set js" "j < r"
  have bits: "bit (tail_word x base r lo js) (8 * (j - lo) + n) = bit (of_char (x ! (base + j)) :: u64) n" if "n < 8" for x n
    using that j assms by (simp only: tail_word_def byte_at_def) (subst fold_xor_bytes, auto)
  show "d ! (base + j) = d' ! (base + j)"
    using bits [of _ d] bits [of _ d'] eq by (intro char_eq_bits [where 'a = 64]) simp_all
next
  assume "\<forall>j\<in>set js. j < r \<longrightarrow> d ! (base + j) = d' ! (base + j)"
  then show "tail_word d base r lo js = tail_word d' base r lo js"
    unfolding tail_word_def byte_at_def by (intro fold_cong) auto
qed

lemma tail_word32_eq:
  assumes "distinct js" and "\<forall>j\<in>set js. lo \<le> j \<and> j < lo + 4"
  shows "tail_word32 d base r lo js = tail_word32 d' base r lo js \<longleftrightarrow>
    (\<forall>j\<in>set js. j < r \<longrightarrow> d ! (base + j) = d' ! (base + j))"
proof (intro iffI ballI impI)
  fix j
  assume eq: "tail_word32 d base r lo js = tail_word32 d' base r lo js" and j: "j \<in> set js" "j < r"
  have bits: "bit (tail_word32 x base r lo js) (8 * (j - lo) + n) = bit (of_char (x ! (base + j)) :: u32) n" if "n < 8" for x n
    using that j assms by (simp only: tail_word32_def byte32_at_def) (subst fold_xor_bytes, auto)
  show "d ! (base + j) = d' ! (base + j)"
    using bits [of _ d] bits [of _ d'] eq by (intro char_eq_bits [where 'a = 32]) simp_all
next
  assume "\<forall>j\<in>set js. j < r \<longrightarrow> d ! (base + j) = d' ! (base + j)"
  then show "tail_word32 d base r lo js = tail_word32 d' base r lo js"
    unfolding tail_word32_def byte32_at_def by (intro fold_cong) auto
qed

end
