(* ===== verification/Hash_Props.thy ===== *)
theory Hash_Props
  imports Hash_Mix
begin

unbundle bit_operations_syntax

section \<open>Keys that MurmurHash3 keeps apart\<close>

text \<open>
  The interface of a hash function that runs over blocks, as the locale \<open>block_hash\<close>, its three
  instances in \<^verbatim>\<open>MurmurHash3.cpp\<close>, and what follows for each: two keys of one length that differ within
  one block, in particular any two short keys of one length, never have the same hash.
\<close>

subsection \<open>Hashing block by block\<close>

locale block_hash =
  fixes width :: nat
    and body :: "bytes \<Rightarrow> nat \<Rightarrow> 'h \<Rightarrow> 'h"
    and tail :: "bytes \<Rightarrow> nat \<Rightarrow> nat \<Rightarrow> 'h \<Rightarrow> 'h"
    and finish :: "nat \<Rightarrow> 'h \<Rightarrow> 'h"
  assumes width_pos: "0 < width"
    and body_state: "body d i h = body d i h' \<longleftrightarrow> h = h'"
    and body_block: "body d i h = body d' i h \<longleftrightarrow> (\<forall>j<width. d ! (width * i + j) = d' ! (width * i + j))"
    and tail_state: "tail d base r h = tail d base r h' \<longleftrightarrow> h = h'"
    and tail_bytes: "r < width \<Longrightarrow> tail d base r h = tail d' base r h \<longleftrightarrow> (\<forall>j<r. d ! (base + j) = d' ! (base + j))"
    and finish_state: "finish len h = finish len h' \<longleftrightarrow> h = h'"
begin

definition blocks_eq :: "bytes \<Rightarrow> bytes \<Rightarrow> nat \<Rightarrow> bool" where
  "blocks_eq d d' i \<longleftrightarrow> (\<forall>j<width. d ! (width * i + j) = d' ! (width * i + j))"

lemma body_cong: "blocks_eq d d' i \<Longrightarrow> body d i h = body d' i h"
  by (simp add: body_block blocks_eq_def)

lemma fold_one_block:
  assumes "\<forall>i<n. i \<noteq> b \<longrightarrow> blocks_eq d d' i"
  shows "fold (body d) [0..<n] h = fold (body d') [0..<n] h \<longleftrightarrow> (\<forall>i<n. blocks_eq d d' i)"
  using assms
proof (induction n)
  case (Suc n)
  then have IH: "fold (body d) [0..<n] h = fold (body d') [0..<n] h \<longleftrightarrow> (\<forall>i<n. blocks_eq d d' i)"
    by (simp add: less_Suc_eq)
  show ?case
  proof (cases "n = b")
    case True
    then have "\<forall>i<n. blocks_eq d d' i" using Suc.prems by auto
    then show ?thesis using IH by (simp add: body_block less_Suc_eq all_conj_distrib flip: blocks_eq_def)
  next
    case False
    then have "blocks_eq d d' n" using Suc.prems by simp
    then show ?thesis using IH by (auto simp: body_cong [of d d'] body_state less_Suc_eq)
  qed
qed simp

abbreviation hash :: "bytes \<Rightarrow> nat \<Rightarrow> 'h \<Rightarrow> 'h" where
  "hash d len h \<equiv> finish len (tail d (len div width * width) (len mod width) (fold (body d) [0..<len div width] h))"

lemma in_block:
  assumes "i < len div width" and "j < width"
  shows "width * i + j < len"
proof -
  have "width * i + j < width * Suc i" using assms(2) by simp
  also have "\<dots> \<le> width * (len div width)" using assms(1) by (intro mult_le_mono2) simp
  also have "\<dots> \<le> len" by simp
  finally show ?thesis .
qed

lemma in_tail: "j < len mod width \<Longrightarrow> len div width * width + j < len"
  by (metis add_less_cancel_left div_mult_mod_eq)

lemma all_bytes_split:
  "(\<forall>j<len. d ! j = d' ! j) \<longleftrightarrow> (\<forall>i<len div width. blocks_eq d d' i) \<and>
    (\<forall>j<len mod width. d ! (len div width * width + j) = d' ! (len div width * width + j))" (is "?L \<longleftrightarrow> ?B \<and> ?T")
proof
  assume ?L
  then show "?B \<and> ?T" by (simp add: blocks_eq_def in_block in_tail)
next
  assume *: "?B \<and> ?T"
  show ?L
  proof (intro allI impI)
    fix j
    assume "j < len"
    show "d ! j = d' ! j"
    proof (cases "j div width < len div width")
      case True
      then show ?thesis
        using * width_pos by (metis blocks_eq_def div_mult_mod_eq mod_less_divisor mult.commute)
    next
      case False
      then have "j div width = len div width" using \<open>j < len\<close> by (simp add: div_le_mono le_antisym)
      then have "j = len div width * width + j mod width" "j mod width < len mod width"
        using \<open>j < len\<close> by (metis div_mult_mod_eq, metis add_less_cancel_left div_mult_mod_eq)
      then show ?thesis using * by metis
    qed
  qed
qed

text \<open>Keys that agree outside one block have the same hash only when they are equal.\<close>

theorem one_block_inj:
  assumes "\<forall>j<len. j div width \<noteq> b \<longrightarrow> d ! j = d' ! j"
  shows "hash d len h = hash d' len h \<longleftrightarrow> (\<forall>j<len. d ! j = d' ! j)"
proof -
  let ?n = "len div width" and ?r = "len mod width"
  have r: "?r < width" using width_pos by simp
  have blocks: "\<forall>i<?n. i \<noteq> b \<longrightarrow> blocks_eq d d' i"
    using assms by (simp add: blocks_eq_def in_block)
  have folds: "fold (body d) [0..<?n] h = fold (body d') [0..<?n] h \<longleftrightarrow> (\<forall>i<?n. blocks_eq d d' i)"
    by (rule fold_one_block [OF blocks])
  show ?thesis
  proof (cases "b < ?n")
    case True
    have "\<forall>j<?r. d ! (?n * width + j) = d' ! (?n * width + j)"
      using assms True r by (simp add: in_tail)
    then have "tail d (?n * width) ?r g = tail d' (?n * width) ?r g" for g
      by (simp add: tail_bytes [OF r])
    then have "hash d len h = hash d' len h \<longleftrightarrow> fold (body d) [0..<?n] h = fold (body d') [0..<?n] h"
      by (simp add: finish_state tail_state)
    then show ?thesis
      using folds \<open>\<forall>j<?r. _\<close> unfolding all_bytes_split by simp
  next
    case False
    then have all: "\<forall>i<?n. blocks_eq d d' i" using blocks by auto
    then have "fold (body d) [0..<?n] h = fold (body d') [0..<?n] h" using folds by simp
    then show ?thesis
      using all unfolding all_bytes_split by (simp add: finish_state tail_bytes [OF r])
  qed
qed

end

subsection \<open>The three variants\<close>

text \<open>A lane of the state takes in a mixed block \<open>m\<close> and another lane \<open>g\<close>.\<close>

definition lane64 :: "u64 \<Rightarrow> nat \<Rightarrow> u64 \<Rightarrow> u64 \<Rightarrow> u64 \<Rightarrow> u64" where
  "lane64 m r g c h = (rotl64 (h XOR m) r + g) * 5 + c"

definition lane32 :: "u32 \<Rightarrow> nat \<Rightarrow> u32 \<Rightarrow> u32 \<Rightarrow> u32 \<Rightarrow> u32" where
  "lane32 m r g c h = (rotl32 (h XOR m) r + g) * 5 + c"

lemma lane64_inj:
  assumes "0 < r" and "r < 64"
  shows "lane64 m r g c h = lane64 m r g c h' \<longleftrightarrow> h = h'" "lane64 m r g c h = lane64 m' r g c h \<longleftrightarrow> m = m'"
  using assms by (simp_all add: lane64_def mix_inj_simps)

lemma lane32_inj:
  assumes "0 < r" and "r < 32"
  shows "lane32 m r g c h = lane32 m r g c h' \<longleftrightarrow> h = h'" "lane32 m r g c h = lane32 m' r g c h \<longleftrightarrow> m = m'"
  using assms by (simp_all add: lane32_def mix_inj_simps)

lemma body_step_lanes:
  "body_step d i (h1, h2) =
    (let a = lane64 (mix_k1 (getblock64 d (i * 2))) 27 h2 0x52dce729 h1
     in (a, lane64 (mix_k2 (getblock64 d (i * 2 + 1))) 31 a 0x38495ab5 h2))"
  by (simp add: body_step_def lane64_def Let_def)

lemma body_step_32_lane:
  "body_step_32 d i h = lane32 (mix_32 (getblock32 d i)) 13 0 0xe6546b64 h"
  by (simp add: body_step_32_def lane32_def Let_def)

lemma body_step_x86_lanes:
  "body_step_x86 d i (h1, h2, h3, h4) =
    (let a = lane32 (mix1_x86 (getblock32 d (i * 4))) 19 h2 0x561ccd1b h1;
         b = lane32 (mix2_x86 (getblock32 d (i * 4 + 1))) 17 h3 0x0bcaa747 h2;
         c = lane32 (mix3_x86 (getblock32 d (i * 4 + 2))) 15 h4 0x96cd1c35 h3
     in (a, b, c, lane32 (mix4_x86 (getblock32 d (i * 4 + 3))) 13 a 0x32ac3b17 h4))"
  by (simp add: body_step_x86_def lane32_def Let_def)

lemma body_x64_state: "body_step d i p = body_step d i q \<longleftrightarrow> p = q"
  by (cases p; cases q) (auto simp: body_step_lanes Let_def lane64_inj)

lemma body_32_state: "body_step_32 d i p = body_step_32 d i q \<longleftrightarrow> p = q"
  by (simp add: body_step_32_lane lane32_inj)

lemma body_x86_state: "body_step_x86 d i p = body_step_x86 d i q \<longleftrightarrow> p = q"
  by (cases p; cases q) (auto simp: body_step_x86_lanes Let_def lane32_inj)

lemma all_less_add: "(\<forall>j<m + n. P j) \<longleftrightarrow> (\<forall>j<m. P j) \<and> (\<forall>j<n. P (m + j))" for m n :: nat
  by (metis add_diff_inverse_nat add_less_cancel_left trans_less_add1)

lemma body_x64_words:
  "body_step d i p = body_step d' i p \<longleftrightarrow>
    getblock64 d (i * 2) = getblock64 d' (i * 2) \<and> getblock64 d (i * 2 + 1) = getblock64 d' (i * 2 + 1)"
  by (cases p) (simp add: body_step_lanes Let_def lane64_inj cong: conj_cong)

lemma body_x64_block:
  "body_step d i p = body_step d' i p \<longleftrightarrow> (\<forall>j<16. d ! (16 * i + j) = d' ! (16 * i + j))"
  using all_less_add [of 8 8 "\<lambda>j. d ! (16 * i + j) = d' ! (16 * i + j)"]
  by (simp add: body_x64_words getblock64_eq ac_simps)

lemma body_32_block:
  "body_step_32 d i p = body_step_32 d' i p \<longleftrightarrow> (\<forall>j<4. d ! (4 * i + j) = d' ! (4 * i + j))"
  by (simp add: body_step_32_lane lane32_inj getblock32_eq)

lemma body_x86_words:
  "body_step_x86 d i p = body_step_x86 d' i p \<longleftrightarrow>
    getblock32 d (i * 4) = getblock32 d' (i * 4) \<and> getblock32 d (i * 4 + 1) = getblock32 d' (i * 4 + 1) \<and>
    getblock32 d (i * 4 + 2) = getblock32 d' (i * 4 + 2) \<and> getblock32 d (i * 4 + 3) = getblock32 d' (i * 4 + 3)"
  by (cases p) (simp add: body_step_x86_lanes Let_def lane32_inj cong: conj_cong)

lemma body_x86_block:
  "body_step_x86 d i p = body_step_x86 d' i p \<longleftrightarrow> (\<forall>j<16. d ! (16 * i + j) = d' ! (16 * i + j))"
  using all_less_add [of 4 12 "\<lambda>j. d ! (16 * i + j) = d' ! (16 * i + j)"]
    all_less_add [of 4 8 "\<lambda>j. d ! (16 * i + (4 + j)) = d' ! (16 * i + (4 + j))"]
    all_less_add [of 4 4 "\<lambda>j. d ! (16 * i + (8 + j)) = d' ! (16 * i + (8 + j))"]
  by (simp add: body_x86_words getblock32_eq ac_simps)

text \<open>The tail mixes its bytes into the lanes, each byte once.\<close>

lemma tail_x64_state: "tail_step d base r p = tail_step d base r q \<longleftrightarrow> p = q"
  by (cases p; cases q) (simp add: tail_step_def Let_def xor_right_inj)

lemma tail_32_state: "tail_step_32 d base r p = tail_step_32 d base r q \<longleftrightarrow> p = q"
  by (simp add: tail_step_32_def Let_def xor_right_inj)

lemma tail_x86_state: "tail_step_x86 d base r p = tail_step_x86 d base r q \<longleftrightarrow> p = q"
  by (cases p; cases q) (simp add: tail_step_x86_def Let_def xor_right_inj)

text \<open>A lane of the tail is mixed in from its first byte \<open>lo\<close> on, so exactly when it has bytes.\<close>

lemma tail_lane64:
  fixes h :: u64
  assumes "distinct js" and "\<forall>j\<in>set js. lo \<le> j \<and> j < lo + 8" and "\<And>k k'. mix k = mix k' \<longleftrightarrow> k = k'"
  shows "(if Suc lo \<le> r then h XOR mix (tail_word d base r lo js) else h) =
      (if Suc lo \<le> r then h XOR mix (tail_word d' base r lo js) else h) \<longleftrightarrow>
    (\<forall>j\<in>set js. j < r \<longrightarrow> d ! (base + j) = d' ! (base + j))"
  using assms(2) by (auto simp: xor_left_inj assms(3) tail_word_eq [OF assms(1,2)])

lemma tail_lane32:
  fixes h :: u32
  assumes "distinct js" and "\<forall>j\<in>set js. lo \<le> j \<and> j < lo + 4" and "\<And>k k'. mix k = mix k' \<longleftrightarrow> k = k'"
  shows "(if Suc lo \<le> r then h XOR mix (tail_word32 d base r lo js) else h) =
      (if Suc lo \<le> r then h XOR mix (tail_word32 d' base r lo js) else h) \<longleftrightarrow>
    (\<forall>j\<in>set js. j < r \<longrightarrow> d ! (base + j) = d' ! (base + j))"
  using assms(2) by (auto simp: xor_left_inj assms(3) tail_word32_eq [OF assms(1,2)])

lemma nat_lit: "Suc 0 = 1" "Suc 4 = 5" "Suc 8 = 9" "Suc 12 = 13"
  by simp_all

lemma all_tail_bytes:
  fixes n r :: nat
  assumes "set js = {..<n}" and "r \<le> n"
  shows "(\<forall>j\<in>set js. j < r \<longrightarrow> P j) \<longleftrightarrow> (\<forall>j<r. P j)"
proof (intro iffI allI ballI impI)
  fix j
  assume "\<forall>j\<in>set js. j < r \<longrightarrow> P j" and "j < r"
  moreover have "j \<in> set js" using assms \<open>j < r\<close> by simp
  ultimately show "P j" by blast
qed simp

lemma tail_32_bytes:
  assumes "r < 4"
  shows "tail_step_32 d base r p = tail_step_32 d' base r p \<longleftrightarrow> (\<forall>j<r. d ! (base + j) = d' ! (base + j))"
proof -
  let ?P = "\<lambda>j. d ! (base + j) = d' ! (base + j)" and ?js = "[2, 1, 0] :: nat list"
  have "tail_step_32 d base r p = tail_step_32 d' base r p \<longleftrightarrow> (\<forall>j\<in>set ?js. j < r \<longrightarrow> ?P j)"
    unfolding tail_step_32_def Let_def One_nat_def by (rule tail_lane32) auto
  also have "\<dots> \<longleftrightarrow> (\<forall>j<r. ?P j)"
    using assms by (intro all_tail_bytes [of _ 3]) auto
  finally show ?thesis .
qed

lemma tail_x64_bytes:
  assumes "r < 16"
  shows "tail_step d base r p = tail_step d' base r p \<longleftrightarrow> (\<forall>j<r. d ! (base + j) = d' ! (base + j))"
proof -
  obtain h1 h2 where p: "p = (h1, h2)" by (cases p)
  let ?P = "\<lambda>j. d ! (base + j) = d' ! (base + j)" and ?hi = "[14, 13, 12, 11, 10, 9, 8] :: nat list"
    and ?lo = "[7, 6, 5, 4, 3, 2, 1, 0] :: nat list"
  have "tail_step d base r p = tail_step d' base r p \<longleftrightarrow> (\<forall>j\<in>set ?lo. j < r \<longrightarrow> ?P j) \<and> (\<forall>j\<in>set ?hi. j < r \<longrightarrow> ?P j)"
    unfolding p tail_step_def Let_def split_conv prod.inject
    by (intro arg_cong2 [where f = "(\<and>)"] tail_lane64 [where lo = 0, unfolded nat_lit]
        tail_lane64 [where lo = 8, unfolded nat_lit]) auto
  also have "\<dots> \<longleftrightarrow> (\<forall>j\<in>set (?lo @ ?hi). j < r \<longrightarrow> ?P j)"
    by (simp only: set_append ball_Un)
  also have "\<dots> \<longleftrightarrow> (\<forall>j<r. ?P j)"
    using assms by (intro all_tail_bytes [of _ 15]) (auto simp: lessThan_nat_numeral)
  finally show ?thesis .
qed

lemma tail_x86_bytes:
  assumes "r < 16"
  shows "tail_step_x86 d base r p = tail_step_x86 d' base r p \<longleftrightarrow> (\<forall>j<r. d ! (base + j) = d' ! (base + j))"
proof -
  obtain h1 h2 h3 h4 where p: "p = (h1, h2, h3, h4)" by (cases p)
  let ?P = "\<lambda>j. d ! (base + j) = d' ! (base + j)" and ?a = "[3, 2, 1, 0] :: nat list" and ?b = "[7, 6, 5, 4] :: nat list"
    and ?c = "[11, 10, 9, 8] :: nat list" and ?e = "[14, 13, 12] :: nat list"
  have "tail_step_x86 d base r p = tail_step_x86 d' base r p \<longleftrightarrow> (\<forall>j\<in>set ?a. j < r \<longrightarrow> ?P j) \<and>
      (\<forall>j\<in>set ?b. j < r \<longrightarrow> ?P j) \<and> (\<forall>j\<in>set ?c. j < r \<longrightarrow> ?P j) \<and> (\<forall>j\<in>set ?e. j < r \<longrightarrow> ?P j)"
    unfolding p tail_step_x86_def Let_def split_conv prod.inject
    by (intro arg_cong2 [where f = "(\<and>)"] tail_lane32 [where lo = 0, unfolded nat_lit]
        tail_lane32 [where lo = 4, unfolded nat_lit] tail_lane32 [where lo = 8, unfolded nat_lit]
        tail_lane32 [where lo = 12, unfolded nat_lit]) auto
  also have "\<dots> \<longleftrightarrow> (\<forall>j\<in>set (?a @ ?b @ ?c @ ?e). j < r \<longrightarrow> ?P j)"
    by (simp only: set_append ball_Un)
  also have "\<dots> \<longleftrightarrow> (\<forall>j<r. ?P j)"
    using assms by (intro all_tail_bytes [of _ 15]) (auto simp: lessThan_nat_numeral)
  finally show ?thesis .
qed

text \<open>The final mix can be undone.\<close>

lemma add_pair_inj: "add_pair p = add_pair q \<longleftrightarrow> p = q"
  by (cases p; cases q) (simp only: add_pair_def split_conv prod.inject, metis add_left_cancel add_right_cancel)

lemma fmix_pair_inj: "fmix_pair p = fmix_pair q \<longleftrightarrow> p = q"
  by (cases p; cases q) (simp add: fmix_pair_def fmix64_inj)

lemma finalize_x64_inj: "finalize_x64 len p = finalize_x64 len q \<longleftrightarrow> p = q"
  by (cases p; cases q) (simp add: finalize_x64_steps add_pair_inj fmix_pair_inj xor_right_inj)

lemma spread_x86_inj: "spread_x86 p = spread_x86 q \<longleftrightarrow> p = q"
proof
  obtain a b c e where p: "p = (a, b, c, e)" by (cases p)
  obtain a' b' c' e' where q: "q = (a', b', c', e')" by (cases q)
  assume "spread_x86 p = spread_x86 q"
  then have "a + b + c + e = a' + b' + c' + e'" "b + (a + b + c + e) = b' + (a' + b' + c' + e')"
    "c + (a + b + c + e) = c' + (a' + b' + c' + e')" "e + (a + b + c + e) = e' + (a' + b' + c' + e')"
    unfolding p q spread_x86_def Let_def split_conv prod.inject by iprover+
  then show "p = q" unfolding p q by (metis add_right_cancel)
qed simp

lemma finalize_x86_inj: "finalize_x86 len p = finalize_x86 len q \<longleftrightarrow> p = q"
proof
  assume eq: "finalize_x86 len p = finalize_x86 len q"
  let ?x = "\<lambda>(a, b, c, e). (a XOR of_nat len, b XOR of_nat len, c XOR of_nat len, e XOR of_nat len) :: lanes"
  have "spread_x86 (?x p) = spread_x86 (?x q)"
    using eq by (cases p; cases q; cases "spread_x86 (?x p)"; cases "spread_x86 (?x q)")
      (simp add: finalize_x86_def spread_x86_inj fmix32_inj)
  then show "p = q"
    by (cases p; cases q) (simp add: spread_x86_inj xor_right_inj)
qed simp

interpretation x64: block_hash 16 body_step tail_step finalize_x64
  by unfold_locales (simp_all add: body_x64_state body_x64_block tail_x64_state tail_x64_bytes finalize_x64_inj)

interpretation x86: block_hash 16 body_step_x86 tail_step_x86 finalize_x86
  by unfold_locales (simp_all add: body_x86_state body_x86_block tail_x86_state tail_x86_bytes finalize_x86_inj)

interpretation x32: block_hash 4 body_step_32 tail_step_32 "\<lambda>len h. fmix32 (h XOR of_nat len)"
  by unfold_locales
    (simp_all add: body_32_state body_32_block tail_32_state tail_32_bytes fmix32_inj xor_right_inj)

subsection \<open>Different keys, different hashes\<close>

lemma MurmurHash3_x64_128_hash:
  "MurmurHash3_x64_128 key len seed = x64.hash key len (ucast seed, ucast seed)"
  by (simp add: MurmurHash3_x64_128_def Let_def)

text \<open>
  C34: Two keys of one length that differ only within one block of 16 bytes (the last, incomplete block
  counts as one) have different 128-bit hashes, for every seed; so have, in particular, any two different
  keys of one length up to 16.
\<close>

theorem murmur_separates_block:
  assumes "length key = length key'" and "\<forall>j<length key. j div 16 \<noteq> b \<longrightarrow> key ! j = key' ! j"
  shows "MurmurHash3_x64_128 key (length key) seed = MurmurHash3_x64_128 key' (length key') seed \<longleftrightarrow> key = key'"
  using x64.one_block_inj [OF assms(2), of "(ucast seed, ucast seed)"] assms(1)
  by (auto simp: MurmurHash3_x64_128_hash intro: nth_equalityI)

lemma agree_first_block:
  assumes "take 16 a = take 16 b" and "n \<le> 32"
  shows "\<forall>j<n. j div 16 \<noteq> 1 \<longrightarrow> a ! j = b ! j"
proof (intro allI impI)
  fix j
  assume "j < n" and "j div 16 \<noteq> 1"
  then have "j < 16" using assms(2) by arith
  then show "a ! j = b ! j" using nth_take [of j 16 a] nth_take [of j 16 b] assms(1) by simp
qed

theorem murmur_separates_block_witness:
  "MurmurHash3_x64_128 ''session:0000001/profile'' 23 7 \<noteq> MurmurHash3_x64_128 ''session:0000001/prefs..'' 23 7"
proof -
  let ?a = "''session:0000001/profile''" and ?b = "''session:0000001/prefs..''"
  have len: "length ?a = 23" "length ?b = 23" by simp_all
  have "take 16 ?a = take 16 ?b" by simp
  then have "\<forall>j<23. j div 16 \<noteq> 1 \<longrightarrow> ?a ! j = ?b ! j" by (rule agree_first_block) simp
  moreover have "?a \<noteq> ?b" by simp
  ultimately show ?thesis
    using murmur_separates_block [of ?a ?b 1 7, unfolded len] by blast
qed

lemma murmur_x86_128_separates_block:
  assumes "length key = length key'" and "\<forall>j<length key. j div 16 \<noteq> b \<longrightarrow> key ! j = key' ! j"
  shows "MurmurHash3_x86_128 key (length key) seed = MurmurHash3_x86_128 key' (length key') seed \<longleftrightarrow> key = key'"
  using x86.one_block_inj [OF assms(2), of "(seed, seed, seed, seed)"] assms(1)
  by (auto simp: MurmurHash3_x86_128_def Let_def intro: nth_equalityI)

lemma murmur_x86_32_separates_block:
  assumes "length key = length key'" and "\<forall>j<length key. j div 4 \<noteq> b \<longrightarrow> key ! j = key' ! j"
  shows "MurmurHash3_x86_32 key (length key) seed = MurmurHash3_x86_32 key' (length key') seed \<longleftrightarrow> key = key'"
  using x32.one_block_inj [OF assms(2), of seed] assms(1)
  by (auto simp: MurmurHash3_x86_32_def Let_def intro: nth_equalityI)

end
