(* ===== verification/Pool.thy ===== *)
theory Pool
  imports Prelude Primegen
begin

section \<open>The entry pool (class \<open>MemoryPool\<close> of src/src/kvs/kvs.hpp)\<close>

text \<open>
  The pool is an array of entries with an intrusive free list: \<open>freeListHead\<close> is the first free
  index, \<open>e_nextFree\<close> the next one, 0 the end (index 0 is never handed out). Keys are owned by
  their entry and never leave it, so they are modelled by their contents; values do leave the pool
  (\<^verbatim>\<open>KeyValueStore::get\<close> returns the pointer), so they are addresses in the heap of buffers.
  Any access outside the array and any \<^verbatim>\<open>delete[]\<close> of a freed buffer is \<open>UB\<close>. The atomic free list
  head is read and written by one thread, the request handler.
\<close>

record entry =
  e_key :: "bytes option"
  e_value :: "addr option"
  e_vSize :: nat
  e_compressed :: bool
  e_nextFree :: nat

definition entry0 :: entry where
  "entry0 = \<lparr>e_key = None, e_value = None, e_vSize = 0, e_compressed = False, e_nextFree = 0\<rparr>"

record pool_t =
  pool :: "entry list"
  capacity :: nat
  freeListHead :: nat
  pool_primes :: "nat list"
  heap :: cheap

text \<open>The linking loop of the constructor and of \<open>expandPool\<close>: \<^verbatim>\<open>for (i = from; i < to; ++i)\<close>.\<close>

definition link_free :: "nat \<Rightarrow> nat \<Rightarrow> entry list \<Rightarrow> entry list" where
  "link_free i0 i1 es = fold (\<lambda>i es. es[i := (es ! i)\<lparr>e_nextFree := i + 1\<rparr>]) [i0..<i1] es"

text \<open>
  With an initial size of 0 the constructor writes \<^verbatim>\<open>pool[capacity - 1]\<close> outside the array.
\<close>

definition MemoryPool :: "nat list \<Rightarrow> nat \<Rightarrow> pool_t cpp" where
  "MemoryPool primes initialSize =
     (if initialSize = 0 then UB
      else let es = link_free 1 (initialSize - 1) (replicate initialSize entry0);
               es = es[initialSize - 1 := (es ! (initialSize - 1))\<lparr>e_nextFree := 0\<rparr>]
           in Val \<lparr>pool = es, capacity = initialSize, freeListHead = 1, pool_primes = primes,
                   heap = empty_heap\<rparr>)"

text \<open>
  \<^verbatim>\<open>expandPool\<close> copies \<open>capacity\<close> entries into an array of \<open>newSize\<close>, which is undefined when the
  array is smaller, links the new entries and makes them the whole free list.
\<close>

definition expandPool :: "nat \<Rightarrow> pool_t \<Rightarrow> unit cpp \<times> pool_t" where
  "expandPool newSize p =
     (if newSize = 0 \<or> newSize < capacity p then (UB, p)
      else let es = pool p @ replicate (newSize - capacity p) entry0;
               es = link_free (capacity p) (newSize - 1) es;
               es = es[newSize - 1 := (es ! (newSize - 1))\<lparr>e_nextFree := 0\<rparr>]
           in (Val (), p\<lparr>pool := es, freeListHead := capacity p, capacity := newSize\<rparr>))"

definition take_free :: "pool_t \<Rightarrow> nat cpp \<times> pool_t" where
  "take_free p =
     (let i = freeListHead p
      in if i < capacity p then (Val i, p\<lparr>freeListHead := e_nextFree (pool p ! i)\<rparr>) else (UB, p))"

definition allocate :: "pool_t \<Rightarrow> nat cpp \<times> pool_t" where
  "allocate p =
     (if freeListHead p = 0 then
        (case PopNext (pool_primes p) of
           (Val newCapacity, primes) \<Rightarrow>
             (case expandPool newCapacity (p\<lparr>pool_primes := primes\<rparr>) of
                (Val _, p') \<Rightarrow> take_free p'
              | (_, p') \<Rightarrow> (UB, p'))
         | (Exn m, primes) \<Rightarrow> (Exn m, p)
         | (_, primes) \<Rightarrow> (UB, p))
      else take_free p)"

definition deallocate :: "nat \<Rightarrow> pool_t \<Rightarrow> unit cpp \<times> pool_t" where
  "deallocate i p =
     (if i < capacity p then
        (case delete_buf (e_value (pool p ! i)) (heap p) of
           None \<Rightarrow> (UB, p)
         | Some h \<Rightarrow>
             (Val (), p\<lparr>pool := (pool p)[i := \<lparr>e_key = None, e_value = None, e_vSize = 0,
                          e_compressed = False, e_nextFree = freeListHead p\<rparr>],
                        freeListHead := i, heap := h\<rparr>))
      else (UB, p))"

text \<open>
  The part of \<^verbatim>\<open>KeyValueStore::insertEntry\<close> that fills the allocated entry: the key, a new buffer
  for the value and its size; the flag \<open>compressed\<close> is only ever set, never reset.
\<close>

definition write_entry :: "nat \<Rightarrow> bytes \<Rightarrow> bytes \<Rightarrow> bool \<Rightarrow> pool_t \<Rightarrow> pool_t" where
  "write_entry i key buf cmp p =
     (let (a, h) = new_buf buf (heap p); e = pool p ! i
      in p\<lparr>pool := (pool p)[i := e\<lparr>e_key := Some key, e_value := Some a, e_vSize := length buf,
                                e_compressed := (if cmp then True else e_compressed e)\<rparr>],
           heap := h\<rparr>)"

definition pool_get :: "pool_t \<Rightarrow> nat \<Rightarrow> entry option" where
  "pool_get p i = (if i < capacity p then Some (pool p ! i) else None)"

subsection \<open>The free list\<close>

text \<open>\<open>chain es h xs\<close>: following \<open>e_nextFree\<close> from \<open>h\<close> visits the indices \<open>xs\<close> and ends at 0.\<close>

fun chain :: "entry list \<Rightarrow> nat \<Rightarrow> nat list \<Rightarrow> bool" where
  "chain es h [] \<longleftrightarrow> h = 0"
| "chain es h (x # xs) \<longleftrightarrow> h = x \<and> 0 < x \<and> x < length es \<and> chain es (e_nextFree (es ! x)) xs"

lemma chain_unique: "chain es h xs \<Longrightarrow> chain es h ys \<Longrightarrow> xs = ys"
  by (induction xs arbitrary: h ys) (case_tac ys; auto)+

lemma chain_cong:
  "chain es h xs \<Longrightarrow> length es \<le> length es' \<Longrightarrow>
   (\<And>x. x \<in> set xs \<Longrightarrow> e_nextFree (es' ! x) = e_nextFree (es ! x)) \<Longrightarrow> chain es' h xs"
  by (induction xs arbitrary: h) auto

lemma chain_range: "chain es h xs \<Longrightarrow> x \<in> set xs \<Longrightarrow> 0 < x \<and> x < length es"
  by (induction xs arbitrary: h) auto

lemma chain_head: "chain es h xs \<Longrightarrow> h \<noteq> 0 \<Longrightarrow> xs \<noteq> [] \<and> hd xs = h \<and> h < length es"
  by (cases xs) auto

lemma chain_upt:
  assumes "0 < a" "a < b" "b \<le> length es" "e_nextFree (es ! (b - 1)) = 0"
    and "\<And>i. a \<le> i \<Longrightarrow> i < b - 1 \<Longrightarrow> e_nextFree (es ! i) = Suc i"
  shows "chain es a [a..<b]"
  using assms(1,2,5)
proof (induction "b - a" arbitrary: a)
  case (Suc n)
  show ?case
  proof (cases "Suc a = b")
    case True
    with Suc.prems assms(3,4) show ?thesis by (auto simp: upt_conv_Cons)
  next
    case False
    with Suc have "chain es (Suc a) [Suc a..<b]" by auto
    with False Suc.prems assms(3) show ?thesis by (auto simp: upt_conv_Cons)
  qed
qed simp

lemma link_free_Suc:
  "a \<le> b \<Longrightarrow> link_free a (Suc b) es =
     (link_free a b es)[b := (link_free a b es ! b)\<lparr>e_nextFree := Suc b\<rparr>]"
  by (simp add: link_free_def)

lemma link_free_empty [simp]: "b \<le> a \<Longrightarrow> link_free a b es = es"
  by (simp add: link_free_def)

lemma length_link_free [simp]: "length (link_free a b es) = length es"
proof (induction b)
  case (Suc b)
  then show ?case by (cases "a \<le> b") (simp_all add: link_free_Suc)
qed simp

lemma nth_link_free:
  "b \<le> length es \<Longrightarrow> i < length es \<Longrightarrow>
   link_free a b es ! i = (if a \<le> i \<and> i < b then (es ! i)\<lparr>e_nextFree := Suc i\<rparr> else es ! i)"
proof (induction b)
  case (Suc b)
  then show ?case
    by (cases "a \<le> b") (auto simp: link_free_Suc nth_list_update less_Suc_eq)
qed simp

subsection \<open>Invariant and contents\<close>

text \<open>
  What a pool stores: for every index in use the key, whether the value is compressed, and the
  bytes of its buffer. \<open>pool_inv p free\<close> says that the arrays have the sizes they claim, that the
  free list is \<open>free\<close>, without repetition and of unused entries only, and that the value pointers
  of the used entries are distinct, allocated and of the recorded size.
\<close>

type_synonym stored = "bytes \<times> bool \<times> bytes"

definition entry_contents :: "cheap \<Rightarrow> entry \<Rightarrow> stored option" where
  "entry_contents h e = (case (e_key e, e_value e) of
       (Some k, Some a) \<Rightarrow> (case mem h a of Some bs \<Rightarrow> Some (k, e_compressed e, bs) | None \<Rightarrow> None)
     | _ \<Rightarrow> None)"

definition contents :: "pool_t \<Rightarrow> nat \<rightharpoonup> stored" where
  "contents p i = (if i < capacity p then entry_contents (heap p) (pool p ! i) else None)"

definition entry_ok :: "cheap \<Rightarrow> entry \<Rightarrow> bool" where
  "entry_ok h e \<longleftrightarrow> (case e_key e of
       None \<Rightarrow> e_value e = None \<and> \<not> e_compressed e
     | Some _ \<Rightarrow> (case e_value e of
           None \<Rightarrow> False
         | Some a \<Rightarrow> (case mem h a of None \<Rightarrow> False | Some bs \<Rightarrow> e_vSize e = length bs)))"

definition pool_inv :: "pool_t \<Rightarrow> nat list \<Rightarrow> bool" where
  "pool_inv p free \<longleftrightarrow>
     length (pool p) = capacity p \<and> 0 < capacity p \<and> heap_inv (heap p) \<and>
     (\<forall>i<capacity p. entry_ok (heap p) (pool p ! i)) \<and>
     (\<forall>i<capacity p. \<forall>j<capacity p. e_value (pool p ! i) \<noteq> None \<longrightarrow>
        e_value (pool p ! i) = e_value (pool p ! j) \<longrightarrow> i = j) \<and>
     chain (pool p) (freeListHead p) free \<and> distinct free \<and>
     (\<forall>x\<in>set free. e_key (pool p ! x) = None) \<and> e_key (pool p ! 0) = None"

lemma pool_invD:
  assumes "pool_inv p free"
  shows "length (pool p) = capacity p" "0 < capacity p" "heap_inv (heap p)"
    "\<And>i. i < capacity p \<Longrightarrow> entry_ok (heap p) (pool p ! i)"
    "chain (pool p) (freeListHead p) free" "distinct free"
    "\<And>x. x \<in> set free \<Longrightarrow> e_key (pool p ! x) = None" "e_key (pool p ! 0) = None"
  using assms by (auto simp: pool_inv_def)

lemma pool_inv_value_inj:
  "pool_inv p free \<Longrightarrow> i < capacity p \<Longrightarrow> j < capacity p \<Longrightarrow> e_value (pool p ! i) = Some a \<Longrightarrow>
   e_value (pool p ! j) = Some a \<Longrightarrow> i = j"
  unfolding pool_inv_def by (metis option.distinct(1))

lemma entry_ok_contents:
  "entry_ok h e \<Longrightarrow> (entry_contents h e = None) = (e_key e = None)"
  by (auto simp: entry_ok_def entry_contents_def split: option.splits)

lemma entry_ok_used:
  assumes "entry_ok h e" "e_key e = Some k"
  obtains a bs where "e_value e = Some a" "mem h a = Some bs" "e_vSize e = length bs"
    "entry_contents h e = Some (k, e_compressed e, bs)"
  using assms by (auto simp: entry_ok_def entry_contents_def split: option.splits)

lemma contents_key:
  "pool_inv p free \<Longrightarrow> i < capacity p \<Longrightarrow> e_key (pool p ! i) = map_option fst (contents p i)"
  using entry_ok_contents [of "heap p" "pool p ! i"] pool_invD(4) [of p free i]
  by (auto simp: contents_def entry_contents_def entry_ok_def split: option.splits)

lemma free_range:
  "pool_inv p free \<Longrightarrow> x \<in> set free \<Longrightarrow> 0 < x \<and> x < capacity p \<and> contents p x = None"
  using chain_range [of "pool p" "freeListHead p" free x] contents_key [of p free x]
  by (auto simp: pool_inv_def)

lemma contents_range: "contents p i = Some c \<Longrightarrow> i < capacity p"
  by (auto simp: contents_def split: if_splits)

lemma contents_pos: "pool_inv p free \<Longrightarrow> contents p i = Some c \<Longrightarrow> 0 < i"
  using contents_key [of p free 0] pool_invD(2,8) [of p free] by (cases i) auto

subsection \<open>Laws of the operations\<close>

lemma allocate_pop:
  assumes "pool_inv p (x # xs)"
  defines "p' \<equiv> p\<lparr>freeListHead := e_nextFree (pool p ! x)\<rparr>"
  shows "allocate p = (Val x, p')" "pool_inv p' xs" "contents p' = contents p" "capacity p' = capacity p"
  using assms by (auto simp: allocate_def take_free_def pool_inv_def contents_def p'_def)

lemma delete_buf_frame:
  "mem h a \<noteq> None \<Longrightarrow> e_value e \<noteq> Some a \<Longrightarrow> h' = h\<lparr>mem := (mem h)(a := None)\<rparr> \<Longrightarrow>
   entry_ok h' e = entry_ok h e \<and> entry_contents h' e = entry_contents h e"
  by (auto simp: entry_ok_def entry_contents_def split: option.splits)

lemma deallocate_used:
  assumes inv: "pool_inv p free" and used: "contents p i = Some c"
  obtains p' where "deallocate i p = (Val (), p')" "pool_inv p' (i # free)"
    "contents p' = (contents p)(i := None)" "capacity p' = capacity p" "pool_primes p' = pool_primes p"
proof -
  have i: "i < capacity p" "0 < i" using used inv by (auto intro: contents_range contents_pos)
  then obtain k where k: "e_key (pool p ! i) = Some k"
    using contents_key [OF inv i(1)] used by auto
  obtain a bs where a: "e_value (pool p ! i) = Some a" "mem (heap p) a = Some bs"
    using entry_ok_used [OF pool_invD(4) [OF inv i(1)] k] by blast
  define h' where "h' = (heap p)\<lparr>mem := (mem (heap p))(a := None)\<rparr>"
  define p' where "p' = p\<lparr>pool := (pool p)[i := \<lparr>e_key = None, e_value = None, e_vSize = 0,
    e_compressed = False, e_nextFree = freeListHead p\<rparr>], freeListHead := i, heap := h'\<rparr>"
  have dealloc: "deallocate i p = (Val (), p')"
    using i a by (simp add: deallocate_def delete_buf_def p'_def h'_def)
  have other: "entry_ok h' (pool p ! j) = entry_ok (heap p) (pool p ! j) \<and>
      entry_contents h' (pool p ! j) = entry_contents (heap p) (pool p ! j)"
    if "j < capacity p" "j \<noteq> i" for j
    using that a pool_inv_value_inj [OF inv _ i(1), of j a]
    by (intro delete_buf_frame [of _ a]) (auto simp: h'_def)
  have i_free: "i \<notin> set free" using pool_invD(7) [OF inv] k by auto
  have ch: "chain (pool p') i (i # free)"
    using pool_invD(1,5) [OF inv] i i_free
    by (auto simp: p'_def nth_list_update intro!: chain_cong [of "pool p"])
  have "pool_inv p' (i # free)"
    unfolding pool_inv_def
  proof (intro conjI allI impI)
    show "heap_inv (heap p')" using pool_invD(3) [OF inv] by (auto simp: p'_def h'_def heap_inv_def)
    show "entry_ok (heap p') (pool p' ! j)" if "j < capacity p'" for j
      using that i pool_invD(1,4) [OF inv] other
      by (cases "j = i") (auto simp: p'_def entry_ok_def [of _ "\<lparr>e_key = None, e_value = _,
        e_vSize = _, e_compressed = _, e_nextFree = _\<rparr>"])
    show "j = l" if "j < capacity p'" "l < capacity p'" "e_value (pool p' ! j) \<noteq> None"
      "e_value (pool p' ! j) = e_value (pool p' ! l)" for j l
      using that i(1) pool_invD(1) [OF inv] pool_inv_value_inj [OF inv, of j l]
      by (auto simp: p'_def nth_list_update split: if_splits)
  qed (use ch i i_free pool_invD [OF inv] in \<open>auto simp: p'_def nth_list_update\<close>)
  moreover have "contents p' = (contents p)(i := None)"
    using i pool_invD(1) [OF inv] other
    by (auto simp: contents_def p'_def fun_eq_iff nth_list_update entry_contents_def)
  ultimately show ?thesis using that dealloc by (simp add: p'_def)
qed

lemma write_entry_fresh:
  assumes inv: "pool_inv p free" and i: "0 < i" "i < capacity p" "i \<notin> set free"
    and unused: "contents p i = None" and p'_def: "p' = write_entry i k buf cmp p"
  shows "pool_inv p' free" "contents p' = (contents p)(i \<mapsto> (k, cmp, buf))" "capacity p' = capacity p"
    "pool_primes p' = pool_primes p"
proof -
  let ?a = "next_addr (heap p)"
  let ?h = "snd (new_buf buf (heap p))"
  let ?e = "(pool p ! i)\<lparr>e_key := Some k, e_value := Some ?a, e_vSize := length buf,
    e_compressed := (if cmp then True else e_compressed (pool p ! i))\<rparr>"
  have p': "p' = p\<lparr>pool := (pool p)[i := ?e], heap := ?h\<rparr>"
    by (simp add: p'_def write_entry_def new_buf_def)
  have fresh: "mem (heap p) ?a = None" using pool_invD(3) [OF inv] by (rule new_buf_fresh)
  have not_cmp: "\<not> e_compressed (pool p ! i)"
    using pool_invD(4) [OF inv i(2)] contents_key [OF inv i(2)] unused by (simp add: entry_ok_def)
  have fresh_value: "e_value (pool p ! j) \<noteq> Some ?a" if "j < capacity p" for j
    using pool_invD(4) [OF inv that] fresh by (auto simp: entry_ok_def split: option.splits)
  have other: "entry_ok ?h (pool p ! j) = entry_ok (heap p) (pool p ! j) \<and>
      entry_contents ?h (pool p ! j) = entry_contents (heap p) (pool p ! j)" if "j < capacity p" for j
    using fresh_value [OF that]
    by (auto simp: entry_ok_def entry_contents_def heap_simps split: option.splits)
  have new: "entry_ok ?h ?e" "entry_contents ?h ?e = Some (k, cmp, buf)"
    using not_cmp by (auto simp: entry_ok_def entry_contents_def heap_simps)
  show "pool_inv p' free"
    unfolding pool_inv_def
  proof (intro conjI allI impI)
    show "heap_inv (heap p')" using pool_invD(3) [OF inv] by (simp add: p' heap_inv_new_buf)
    show "entry_ok (heap p') (pool p' ! j)" if "j < capacity p'" for j
      using that i pool_invD(1,4) [OF inv] other new by (cases "j = i") (auto simp: p')
    show "j = l" if "j < capacity p'" "l < capacity p'" "e_value (pool p' ! j) \<noteq> None"
      "e_value (pool p' ! j) = e_value (pool p' ! l)" for j l
      using that i(2) pool_invD(1) [OF inv] pool_inv_value_inj [OF inv, of j l] fresh_value
      by (auto simp: p' nth_list_update split: if_splits)
    show "chain (pool p') (freeListHead p') free"
      using pool_invD(1,5) [OF inv] i(2,3)
      by (auto simp: p' nth_list_update intro!: chain_cong [of "pool p"])
  qed (use i pool_invD [OF inv] in \<open>auto simp: p' nth_list_update\<close>)
  show "contents p' = (contents p)(i \<mapsto> (k, cmp, buf))"
    using i pool_invD(1) [OF inv] other new
    by (auto simp: contents_def p' fun_eq_iff nth_list_update)
qed (simp_all add: p'_def write_entry_def new_buf_def Let_def)

lemma entry0_ok [simp]: "entry_ok h entry0" "entry_contents h entry0 = None"
    "entry_ok h (entry0\<lparr>e_nextFree := n\<rparr>)" "entry_contents h (entry0\<lparr>e_nextFree := n\<rparr>) = None"
    "e_value entry0 = None" "e_key entry0 = None"
  by (simp_all add: entry0_def entry_ok_def entry_contents_def)

lemma expandPool_grows:
  assumes inv: "pool_inv p free" and grow: "capacity p < newSize"
  obtains p' where "expandPool newSize p = (Val (), p')" "pool_inv p' [capacity p..<newSize]"
    "contents p' = contents p" "capacity p' = newSize" "pool_primes p' = pool_primes p"
proof -
  let ?es0 = "pool p @ replicate (newSize - capacity p) entry0"
  let ?es1 = "link_free (capacity p) (newSize - 1) ?es0"
  define es where "es = ?es1[newSize - 1 := (?es1 ! (newSize - 1))\<lparr>e_nextFree := 0\<rparr>]"
  define p' where "p' = p\<lparr>pool := es, freeListHead := capacity p, capacity := newSize\<rparr>"
  have len0: "length ?es0 = newSize" using pool_invD(1) [OF inv] grow by simp
  then have len: "length es = newSize" by (simp add: es_def)
  have exp: "expandPool newSize p = (Val (), p')"
    using grow by (simp add: expandPool_def p'_def es_def Let_def)
  have nth: "es ! i = (if i < capacity p then pool p ! i
      else entry0\<lparr>e_nextFree := (if i < newSize - 1 then Suc i else 0)\<rparr>)" if "i < newSize" for i
    using that grow len0 pool_invD(1) [OF inv]
    by (auto simp: es_def nth_list_update nth_link_free nth_append)
  have "pool_inv p' [capacity p..<newSize]"
    unfolding pool_inv_def
  proof (intro conjI allI impI)
    show "chain (pool p') (freeListHead p') [capacity p..<newSize]"
      using pool_invD(1,2) [OF inv] grow len nth by (auto simp: p'_def intro!: chain_upt)
    show "j = l" if "j < capacity p'" "l < capacity p'" "e_value (pool p' ! j) \<noteq> None"
      "e_value (pool p' ! j) = e_value (pool p' ! l)" for j l
      using that nth [of j] nth [of l] pool_inv_value_inj [OF inv, of j l]
      by (auto simp: p'_def split: if_splits)
  qed (use grow len nth pool_invD [OF inv] in \<open>auto simp: p'_def\<close>)
  moreover have "contents p' = contents p"
    using nth grow by (auto simp: contents_def p'_def fun_eq_iff)
  ultimately show ?thesis using that exp by (simp add: p'_def)
qed

lemma MemoryPool_ok:
  assumes n: "2 \<le> n"
  obtains p where "MemoryPool primes n = Val p" "pool_inv p [1..<n]" "contents p = Map.empty"
    "capacity p = n" "pool_primes p = primes"
proof -
  let ?es1 = "link_free 1 (n - 1) (replicate n entry0)"
  define es where "es = ?es1[n - 1 := (?es1 ! (n - 1))\<lparr>e_nextFree := 0\<rparr>]"
  define p where "p = \<lparr>pool = es, capacity = n, freeListHead = 1, pool_primes = primes,
    heap = empty_heap\<rparr>"
  have len: "length es = n" by (simp add: es_def)
  have mk: "MemoryPool primes n = Val p"
    using n by (simp add: MemoryPool_def p_def es_def Let_def)
  have nth: "es ! i = entry0\<lparr>e_nextFree := (if 1 \<le> i \<and> i < n - 1 then Suc i else 0)\<rparr>" if "i < n" for i
    using that n by (auto simp: es_def nth_list_update nth_link_free entry0_def)
  have "pool_inv p [1..<n]"
    unfolding pool_inv_def
  proof (intro conjI allI impI)
    show "chain (pool p) (freeListHead p) [1..<n]"
      using n len nth by (auto simp: p_def intro!: chain_upt)
  qed (use n len nth in \<open>auto simp: p_def\<close>)
  moreover have "contents p = Map.empty"
    using nth by (auto simp: contents_def p_def fun_eq_iff)
  ultimately show ?thesis using that mk by (simp add: p_def)
qed

subsection \<open>The allocator contract the store relies on\<close>

text \<open>
  \<open>invar p free\<close> is the allocator's invariant with its free list, \<open>view\<close> what it stores, \<open>size_of\<close>
  the bound of its indices. The store inserts a new entry with \<open>alloc\<close> and \<open>fill\<close>, and overwrites
  one with \<open>dealloc\<close>, \<open>alloc\<close> and \<open>fill\<close>.
\<close>

locale slot_allocator =
  fixes invar :: "'p \<Rightarrow> nat list \<Rightarrow> bool"
    and view :: "'p \<Rightarrow> nat \<rightharpoonup> stored"
    and size_of :: "'p \<Rightarrow> nat"
    and alloc :: "'p \<Rightarrow> nat cpp \<times> 'p"
    and dealloc :: "nat \<Rightarrow> 'p \<Rightarrow> unit cpp \<times> 'p"
    and fill :: "nat \<Rightarrow> bytes \<Rightarrow> bytes \<Rightarrow> bool \<Rightarrow> 'p \<Rightarrow> 'p"
  assumes free_distinct: "invar p free \<Longrightarrow> distinct free"
    and free_unused: "invar p free \<Longrightarrow> x \<in> set free \<Longrightarrow> view p x = None \<and> 0 < x \<and> x < size_of p"
    and alloc_law: "invar p (x # xs) \<Longrightarrow>
      \<exists>p'. alloc p = (Val x, p') \<and> invar p' xs \<and> view p' = view p \<and> size_of p' = size_of p"
    and dealloc_law: "invar p free \<Longrightarrow> view p i = Some old \<Longrightarrow>
      \<exists>p'. dealloc i p = (Val (), p') \<and> invar p' (i # free) \<and> view p' = (view p)(i := None) \<and>
        size_of p' = size_of p"
    and fill_law: "invar p free \<Longrightarrow> 0 < i \<Longrightarrow> i < size_of p \<Longrightarrow> i \<notin> set free \<Longrightarrow> view p i = None \<Longrightarrow>
      invar (fill i k b c p) free \<and> view (fill i k b c p) = (view p)(i \<mapsto> (k, c, b)) \<and>
        size_of (fill i k b c p) = size_of p"
begin

lemma insert_new:
  assumes "invar p (x # xs)"
  shows "\<exists>p'. alloc p = (Val x, p') \<and> invar (fill x k b c p') xs \<and>
    view (fill x k b c p') = (view p)(x \<mapsto> (k, c, b)) \<and> size_of (fill x k b c p') = size_of p"
proof -
  obtain p' where p': "alloc p = (Val x, p')" "invar p' xs" "view p' = view p" "size_of p' = size_of p"
    using alloc_law [OF assms] by blast
  have "x \<notin> set xs" using free_distinct [OF assms] by simp
  moreover have "view p x = None \<and> 0 < x \<and> x < size_of p" using free_unused [OF assms] by simp
  ultimately show ?thesis using fill_law [OF p'(2), of x k b c] p' by simp
qed

text \<open>The index just released is the next one handed out, so an overwrite stays in place.\<close>

lemma overwrite:
  assumes "invar p free" "view p i = Some c0"
  shows "\<exists>p1 p2. dealloc i p = (Val (), p1) \<and> alloc p1 = (Val i, p2) \<and> invar (fill i k b c p2) free \<and>
    view (fill i k b c p2) = (view p)(i \<mapsto> (k, c, b)) \<and> size_of (fill i k b c p2) = size_of p"
proof -
  obtain p1 where p1: "dealloc i p = (Val (), p1)" "invar p1 (i # free)"
    "view p1 = (view p)(i := None)" "size_of p1 = size_of p"
    using dealloc_law [OF assms] by blast
  show ?thesis using insert_new [OF p1(2), of k b c] p1 by auto
qed

end

interpretation entry_pool: slot_allocator pool_inv contents capacity allocate deallocate write_entry
proof
  fix p x xs
  assume inv: "pool_inv p (x # xs)"
  show "\<exists>p'. allocate p = (Val x, p') \<and> pool_inv p' xs \<and> contents p' = contents p \<and>
      capacity p' = capacity p"
    using allocate_pop [OF inv] by blast
next
  fix p free i c
  assume "pool_inv p free" "contents p i = Some c"
  then show "\<exists>p'. deallocate i p = (Val (), p') \<and> pool_inv p' (i # free) \<and>
      contents p' = (contents p)(i := None) \<and> capacity p' = capacity p"
    by (rule deallocate_used) blast
qed (auto dest: pool_invD(6) free_range write_entry_fresh)

subsection \<open>Properties\<close>

text \<open>
  Overwriting in the pool is in place and safe: for an entry in use, \<open>deallocate\<close> followed by
  \<open>allocate\<close> returns the same index without undefined behaviour, and after it is filled again the
  invariant holds with the same free list and only that entry's contents have changed.
\<close>

theorem overwrite_in_place:
  assumes "pool_inv p free" and "contents p i = Some old"
  shows "\<exists>p1 p2. deallocate i p = (Val (), p1) \<and> allocate p1 = (Val i, p2) \<and>
    pool_inv (write_entry i k buf c p2) free \<and>
    contents (write_entry i k buf c p2) = (contents p)(i \<mapsto> (k, c, buf))"
  using entry_pool.overwrite [OF assms, of k buf c] by blast

definition pool_example :: pool_t where
  "pool_example = (case MemoryPool [] 3 of Val p \<Rightarrow> write_entry 1 ''k'' ''v'' False (snd (allocate p)))"

lemma pool_example_ok: "pool_inv pool_example [2]" "contents pool_example 1 = Some (''k'', False, ''v'')"
proof -
  obtain p where p: "MemoryPool [] 3 = Val p" "pool_inv p [1..<3]" "contents p = Map.empty"
    using MemoryPool_ok [of 3 "[]"] by auto
  have "[1..<3] = [1, 2 :: nat]" by (simp add: upt_rec)
  with p entry_pool.insert_new [of p 1 "[2]" "''k''" "''v''" False]
  show "pool_inv pool_example [2]" "contents pool_example 1 = Some (''k'', False, ''v'')"
    by (auto simp: pool_example_def)
qed

theorem overwrite_in_place_witness:
  "\<exists>p1 p2. deallocate 1 pool_example = (Val (), p1) \<and> allocate p1 = (Val 1, p2) \<and>
    pool_inv (write_entry 1 ''k'' ''w'' False p2) [2] \<and>
    contents (write_entry 1 ''k'' ''w'' False p2) = (contents pool_example)(1 \<mapsto> (''k'', False, ''w''))"
  using overwrite_in_place [OF pool_example_ok] by blast

text \<open>
  \<^verbatim>\<open>expandPool\<close> keeps every stored entry and makes exactly the new indices the free list: the
  indices that were free before are lost, they are neither used nor free afterwards.
\<close>

theorem expandPool_drops_free_list:
  assumes "pool_inv p free" and "capacity p < newSize" and "x \<in> set free"
  shows "\<exists>p'. expandPool newSize p = (Val (), p') \<and> contents p' = contents p \<and>
    pool_inv p' [capacity p..<newSize] \<and> x < capacity p' \<and> contents p' x = None \<and>
    x \<notin> set [capacity p..<newSize]"
  using expandPool_grows [OF assms(1,2)] free_range [OF assms(1,3)] assms(2)
  by (metis atLeastLessThan_iff le_less_trans less_irrefl set_upt order_less_trans)

theorem expandPool_drops_free_list_witness:
  "\<exists>p'. expandPool 5 pool_example = (Val (), p') \<and> contents p' = contents pool_example \<and>
    pool_inv p' [3..<5] \<and> 2 < capacity p' \<and> contents p' 2 = None \<and> 2 \<notin> set [3..<5 :: nat]"
proof -
  have cap: "capacity pool_example = 3" by code_simp
  show ?thesis
    using expandPool_drops_free_list [OF pool_example_ok(1), of 5 2] by (simp add: cap)
qed

end
