(* ===== verification/Compressor.thy ===== *)
theory Compressor
  imports Prelude
begin

section \<open>Value compression (src/src/compressor)\<close>

text \<open>
  \<^verbatim>\<open>GzipCompressor::Compress\<close> and \<^verbatim>\<open>Decompress\<close> drive zlib through its streaming interface into a
  buffer that they double as it fills. zlib is not part of the sources: it is the argument \<open>z\<close> of
  the definitions, a record of its four calls, and \<open>zlib_contract\<close> states what its manual promises.
  The loops are partial functions whose \<open>None\<close> becomes \<open>Hang\<close>, a call that never returns. A write that would pass the
  end of the output buffer is \<open>UB\<close>.
\<close>

definition CHUNK_SIZE :: nat where "CHUNK_SIZE = 16384"
definition INVALID_INPUT :: int where "INVALID_INPUT = -999"
definition OPERATION_SUCCESS :: int where "OPERATION_SUCCESS = 0"

abbreviation Z_OK :: int where "Z_OK \<equiv> 0"
abbreviation Z_STREAM_END :: int where "Z_STREAM_END \<equiv> 1"
abbreviation Z_STREAM_ERROR :: int where "Z_STREAM_ERROR \<equiv> -2"
abbreviation Z_DATA_ERROR :: int where "Z_DATA_ERROR \<equiv> -3"
abbreviation Z_BUF_ERROR :: int where "Z_BUF_ERROR \<equiv> -5"

text \<open>
  The two initialisation calls give a return code and a stream; \<open>z_deflate\<close> (always called with
  \<^verbatim>\<open>Z_FINISH\<close>) and \<open>z_inflate\<close> take the stream, the input not yet consumed and the output space and
  give the return code, the bytes written, the input left and the stream.
\<close>

record 'z zlib =
  z_deflateInit2 :: "int \<times> 'z"
  z_deflate :: "'z \<Rightarrow> bytes \<Rightarrow> nat \<Rightarrow> int \<times> bytes \<times> bytes \<times> 'z"
  z_inflateInit2 :: "int \<times> 'z"
  z_inflate :: "'z \<Rightarrow> bytes \<Rightarrow> nat \<Rightarrow> int \<times> bytes \<times> bytes \<times> 'z"

record CompressResult =
  c_data :: "bytes option"
  c_size :: nat
  c_operationResult :: int

record DecompressResult =
  d_data :: "bytes option"
  d_operationResult :: int

text \<open>The size of the output buffer after the growth test at the head of both loops.\<close>

definition grow_buffer :: "nat \<Rightarrow> nat \<Rightarrow> nat" where
  "grow_buffer total_size buffer_size =
     (if buffer_size < total_size + CHUNK_SIZE then buffer_size * 2 else buffer_size)"

partial_function (option) deflate_loop ::
  "'z zlib \<Rightarrow> 'z \<Rightarrow> bytes \<Rightarrow> nat \<Rightarrow> bytes \<Rightarrow> (int \<times> bytes) cpp option" where
  "deflate_loop z strm inp buffer_size output =
     (let buffer_size = grow_buffer (length output) buffer_size;
          (operationResult, written, inp, strm) = z_deflate z strm inp CHUNK_SIZE
      in if buffer_size < length output + length written then Some UB
         else if length written = CHUNK_SIZE
         then deflate_loop z strm inp buffer_size (output @ written)
         else Some (Val (operationResult, output @ written)))"

definition Compress :: "'z zlib \<Rightarrow> bytes option \<Rightarrow> CompressResult cpp" where
  "Compress z input = (case input of
       None \<Rightarrow> Val \<lparr>c_data = None, c_size = 0, c_operationResult = INVALID_INPUT\<rparr>
     | Some s \<Rightarrow>
         if cstr s = [] then Val \<lparr>c_data = None, c_size = 0, c_operationResult = INVALID_INPUT\<rparr>
         else let input_length = length (cstr s); (operationResult, strm) = z_deflateInit2 z
           in if operationResult \<noteq> Z_OK
              then Val \<lparr>c_data = None, c_size = 0, c_operationResult = operationResult\<rparr>
              else (case deflate_loop z strm (take (input_length mod 2 ^ 32) (cstr s)) CHUNK_SIZE [] of
                  None \<Rightarrow> Hang
                | Some (Val (operationResult, output)) \<Rightarrow>
                    Val (if operationResult \<noteq> Z_STREAM_END
                      then \<lparr>c_data = None, c_size = 0, c_operationResult = operationResult\<rparr>
                      else \<lparr>c_data = Some output, c_size = length output,
                            c_operationResult = OPERATION_SUCCESS\<rparr>)
                | Some (Exn m) \<Rightarrow> Exn m
                | Some UB \<Rightarrow> UB
                | Some Hang \<Rightarrow> Hang))"

partial_function (option) inflate_loop ::
  "'z zlib \<Rightarrow> 'z \<Rightarrow> bytes \<Rightarrow> nat \<Rightarrow> bytes \<Rightarrow> (int \<times> bytes) cpp option" where
  "inflate_loop z strm inp buffer_size output =
     (let buffer_size = grow_buffer (length output) buffer_size;
          (operationResult, written, inp, strm) = z_inflate z strm inp CHUNK_SIZE
      in if buffer_size < length output + length written then Some UB
         else if operationResult = Z_STREAM_ERROR \<or> operationResult = Z_DATA_ERROR
         then Some (Val (operationResult, []))
         else if operationResult \<noteq> Z_STREAM_END
         then inflate_loop z strm inp buffer_size (output @ written)
         else Some (Val (operationResult, output @ written)))"

definition Decompress :: "'z zlib \<Rightarrow> bytes option \<Rightarrow> nat \<Rightarrow> DecompressResult cpp" where
  "Decompress z input input_size = (case input of
       None \<Rightarrow> Val \<lparr>d_data = None, d_operationResult = INVALID_INPUT\<rparr>
     | Some s \<Rightarrow>
         if input_size = 0 then Val \<lparr>d_data = None, d_operationResult = INVALID_INPUT\<rparr>
         else let (operationResult, strm) = z_inflateInit2 z
           in if operationResult \<noteq> Z_OK
              then Val \<lparr>d_data = None, d_operationResult = operationResult\<rparr>
              else (case inflate_loop z strm (take (input_size mod 2 ^ 32) s) CHUNK_SIZE [] of
                  None \<Rightarrow> Hang
                | Some (Val (operationResult, output)) \<Rightarrow>
                    Val (if operationResult \<noteq> Z_STREAM_END
                      then \<lparr>d_data = None, d_operationResult = operationResult\<rparr>
                      else \<lparr>d_data = Some (output @ [NUL]), d_operationResult = OPERATION_SUCCESS\<rparr>)
                | Some (Exn m) \<Rightarrow> Exn m
                | Some UB \<Rightarrow> UB
                | Some Hang \<Rightarrow> Hang))"

subsection \<open>What zlib promises\<close>

text \<open>
  \<open>dout strm inp\<close> is the output a deflate stream has still to write when it finishes its input,
  \<open>iout strm inp\<close> that of an inflate stream on a complete and valid compressed input (\<open>ivalid\<close>).
  A call writes the next bytes as far as the space goes; \<open>Z_STREAM_END\<close> is returned at the latest by
  the call that has space left over, and never before all output is written. Compressing and
  decompressing gives back the input, and a compressed stream is never empty and no longer than a
  bound that zlib's \<^verbatim>\<open>deflateBound\<close> stays below.
\<close>

definition zlib_contract ::
  "'z zlib \<Rightarrow> ('z \<Rightarrow> bytes \<Rightarrow> bytes) \<Rightarrow> ('z \<Rightarrow> bytes \<Rightarrow> bytes) \<Rightarrow> ('z \<Rightarrow> bytes \<Rightarrow> bool) \<Rightarrow> bool" where
  "zlib_contract z dout iout ivalid \<longleftrightarrow>
     fst (z_deflateInit2 z) = Z_OK \<and> fst (z_inflateInit2 z) = Z_OK \<and>
     (\<forall>strm inp n rc w inp' strm'. z_deflate z strm inp n = (rc, w, inp', strm') \<longrightarrow>
        w = take n (dout strm inp) \<and> dout strm' inp' = drop n (dout strm inp) \<and>
        (length (dout strm inp) < n \<longrightarrow> rc = Z_STREAM_END)) \<and>
     (\<forall>strm inp n rc w inp' strm'. ivalid strm inp \<longrightarrow> z_inflate z strm inp n = (rc, w, inp', strm') \<longrightarrow>
        ivalid strm' inp' \<and> w = take n (iout strm inp) \<and> iout strm' inp' = drop n (iout strm inp) \<and>
        (rc = Z_OK \<or> rc = Z_STREAM_END) \<and> (length (iout strm inp) < n \<longrightarrow> rc = Z_STREAM_END) \<and>
        (rc = Z_STREAM_END \<longrightarrow> length (iout strm inp) \<le> n)) \<and>
     (\<forall>s. ivalid (snd (z_inflateInit2 z)) (dout (snd (z_deflateInit2 z)) s) \<and>
        iout (snd (z_inflateInit2 z)) (dout (snd (z_deflateInit2 z)) s) = s) \<and>
     (\<forall>s. dout (snd (z_deflateInit2 z)) s \<noteq> [] \<and>
        length (dout (snd (z_deflateInit2 z)) s) \<le> 2 * length s + 64)"

text \<open>A byte-for-byte stand-in for zlib that satisfies the contract, with a one-byte header.\<close>

definition store_zlib :: "bool zlib" where
  "store_zlib =
     \<lparr>z_deflateInit2 = (Z_OK, True),
      z_deflate = (\<lambda>hdr inp n. let out = (if hdr then CHR ''z'' # inp else inp)
        in (if length out < n then Z_STREAM_END else Z_OK, take n out, drop n out, False)),
      z_inflateInit2 = (Z_OK, True),
      z_inflate = (\<lambda>hdr inp n. let out = (if hdr then tl inp else inp)
        in (if length out < n then Z_STREAM_END else Z_OK, take n out, drop n out, False))\<rparr>"

lemma store_zlib_contract:
  "zlib_contract store_zlib (\<lambda>hdr inp. if hdr then CHR ''z'' # inp else inp)
     (\<lambda>hdr inp. if hdr then tl inp else inp) (\<lambda>hdr inp. True)"
  by (auto simp: zlib_contract_def store_zlib_def Let_def)

subsection \<open>The buffers never overflow\<close>

lemma grow_buffer_fits:
  "total_size \<le> buffer_size \<Longrightarrow> CHUNK_SIZE \<le> buffer_size \<Longrightarrow>
   total_size + CHUNK_SIZE \<le> grow_buffer total_size buffer_size \<and>
   CHUNK_SIZE \<le> grow_buffer total_size buffer_size"
  by (auto simp: grow_buffer_def)

text \<open>All that is needed of zlib is that a call writes no more than the space it was given.\<close>

definition bounded_output :: "('z \<Rightarrow> bytes \<Rightarrow> nat \<Rightarrow> int \<times> bytes \<times> bytes \<times> 'z) \<Rightarrow> bool" where
  "bounded_output f \<longleftrightarrow> (\<forall>strm inp n. length (fst (snd (f strm inp n))) \<le> n)"

lemma bounded_outputD: "bounded_output f \<Longrightarrow> f strm inp n = (rc, w, r) \<Longrightarrow> length w \<le> n"
  unfolding bounded_output_def by (metis fst_conv snd_conv)

lemma deflate_loop_safe:
  assumes "deflate_loop z strm inp bs out = Some r" "bounded_output (z_deflate z)"
    "CHUNK_SIZE \<le> bs" "length out \<le> bs"
  shows "r \<noteq> UB"
proof -
  have "bounded_output (z_deflate z) \<longrightarrow> CHUNK_SIZE \<le> bs \<longrightarrow> length out \<le> bs \<longrightarrow> r \<noteq> UB"
  proof (rule deflate_loop.raw_induct [OF _ assms(1), where P = "\<lambda>z strm inp bs out r.
      bounded_output (z_deflate z) \<longrightarrow> CHUNK_SIZE \<le> bs \<longrightarrow> length out \<le> bs \<longrightarrow> r \<noteq> UB"])
    fix f and z :: "'a zlib" and strm inp bs out and r :: "(int \<times> bytes) cpp"
    assume IH: "\<And>z :: 'a zlib. \<And>strm inp bs out r. f z strm inp bs out = Some r \<Longrightarrow>
        bounded_output (z_deflate z) \<longrightarrow> CHUNK_SIZE \<le> bs \<longrightarrow> length out \<le> bs \<longrightarrow> r \<noteq> UB"
      and step: "(let bs = grow_buffer (length out) bs; (rc, w, inp, strm) = z_deflate z strm inp CHUNK_SIZE
        in if bs < length out + length w then Some UB
           else if length w = CHUNK_SIZE then f z strm inp bs (out @ w)
           else Some (Val (rc, out @ w))) = Some r"
    show "bounded_output (z_deflate z) \<longrightarrow> CHUNK_SIZE \<le> bs \<longrightarrow> length out \<le> bs \<longrightarrow> r \<noteq> UB"
    proof (intro impI)
      assume b: "bounded_output (z_deflate z)" and bs: "CHUNK_SIZE \<le> bs" "length out \<le> bs"
      obtain rc w inp' strm' where d: "z_deflate z strm inp CHUNK_SIZE = (rc, w, inp', strm')"
        by (metis prod_cases4)
      show "r \<noteq> UB"
        using step d IH [of z strm' inp' "grow_buffer (length out) bs" "out @ w" r] b
          bounded_outputD [OF b d] grow_buffer_fits [OF bs(2,1)]
        by (auto simp: Let_def split: if_splits)
    qed
  qed
  with assms(2-4) show ?thesis by blast
qed

lemma inflate_loop_safe:
  assumes "inflate_loop z strm inp bs out = Some r" "bounded_output (z_inflate z)"
    "CHUNK_SIZE \<le> bs" "length out \<le> bs"
  shows "r \<noteq> UB"
proof -
  have "bounded_output (z_inflate z) \<longrightarrow> CHUNK_SIZE \<le> bs \<longrightarrow> length out \<le> bs \<longrightarrow> r \<noteq> UB"
  proof (rule inflate_loop.raw_induct [OF _ assms(1), where P = "\<lambda>z strm inp bs out r.
      bounded_output (z_inflate z) \<longrightarrow> CHUNK_SIZE \<le> bs \<longrightarrow> length out \<le> bs \<longrightarrow> r \<noteq> UB"])
    fix f and z :: "'a zlib" and strm inp bs out and r :: "(int \<times> bytes) cpp"
    assume IH: "\<And>z :: 'a zlib. \<And>strm inp bs out r. f z strm inp bs out = Some r \<Longrightarrow>
        bounded_output (z_inflate z) \<longrightarrow> CHUNK_SIZE \<le> bs \<longrightarrow> length out \<le> bs \<longrightarrow> r \<noteq> UB"
      and step: "(let bs = grow_buffer (length out) bs; (rc, w, inp, strm) = z_inflate z strm inp CHUNK_SIZE
        in if bs < length out + length w then Some UB
           else if rc = Z_STREAM_ERROR \<or> rc = Z_DATA_ERROR then Some (Val (rc, []))
           else if rc \<noteq> Z_STREAM_END then f z strm inp bs (out @ w)
           else Some (Val (rc, out @ w))) = Some r"
    show "bounded_output (z_inflate z) \<longrightarrow> CHUNK_SIZE \<le> bs \<longrightarrow> length out \<le> bs \<longrightarrow> r \<noteq> UB"
    proof (intro impI)
      assume b: "bounded_output (z_inflate z)" and bs: "CHUNK_SIZE \<le> bs" "length out \<le> bs"
      obtain rc w inp' strm' where d: "z_inflate z strm inp CHUNK_SIZE = (rc, w, inp', strm')"
        by (metis prod_cases4)
      show "r \<noteq> UB"
        using step d IH [of z strm' inp' "grow_buffer (length out) bs" "out @ w" r] b
          bounded_outputD [OF b d] grow_buffer_fits [OF bs(2,1)]
        by (auto simp: Let_def split: if_splits)
    qed
  qed
  with assms(2-4) show ?thesis by blast
qed

subsection \<open>Both loops finish with the whole output\<close>

lemma deflate_loop_total:
  assumes z: "zlib_contract z dout iout ivalid" and "CHUNK_SIZE \<le> bs" "length out \<le> bs"
  shows "deflate_loop z strm inp bs out = Some (Val (Z_STREAM_END, out @ dout strm inp))"
  using assms(2,3)
proof (induction "length (dout strm inp)" arbitrary: strm inp bs out rule: less_induct)
  case less
  obtain rc w inp' strm' where d: "z_deflate z strm inp CHUNK_SIZE = (rc, w, inp', strm')"
    by (metis prod_cases4)
  with z have w: "w = take CHUNK_SIZE (dout strm inp)" "dout strm' inp' = drop CHUNK_SIZE (dout strm inp)"
    "length (dout strm inp) < CHUNK_SIZE \<Longrightarrow> rc = Z_STREAM_END"
    unfolding zlib_contract_def by blast+
  note fits = grow_buffer_fits [OF less.prems(2,1)]
  show ?case
  proof (cases "length (dout strm inp) < CHUNK_SIZE")
    case True
    with d w fits show ?thesis by (subst deflate_loop.simps) (auto simp: Let_def)
  next
    case False
    have "0 < CHUNK_SIZE" by (simp add: CHUNK_SIZE_def)
    with False w(2) have "length (dout strm' inp') < length (dout strm inp)" by auto
    from less.hyps [OF this, of "grow_buffer (length out) bs" "out @ w"]
    have "deflate_loop z strm' inp' (grow_buffer (length out) bs) (out @ w) =
        Some (Val (Z_STREAM_END, out @ dout strm inp))"
      using fits w(1,2) False by simp
    with d w(1) False fits show ?thesis by (subst deflate_loop.simps) (simp add: Let_def)
  qed
qed

lemma inflate_loop_total:
  assumes z: "zlib_contract z dout iout ivalid" and "CHUNK_SIZE \<le> bs" "length out \<le> bs"
    and "ivalid strm inp"
  shows "inflate_loop z strm inp bs out = Some (Val (Z_STREAM_END, out @ iout strm inp))"
  using assms(2-4)
proof (induction "length (iout strm inp)" arbitrary: strm inp bs out rule: less_induct)
  case less
  obtain rc w inp' strm' where d: "z_inflate z strm inp CHUNK_SIZE = (rc, w, inp', strm')"
    by (metis prod_cases4)
  from z have "ivalid strm inp \<longrightarrow> z_inflate z strm inp CHUNK_SIZE = (rc, w, inp', strm') \<longrightarrow>
      ivalid strm' inp' \<and> w = take CHUNK_SIZE (iout strm inp) \<and>
      iout strm' inp' = drop CHUNK_SIZE (iout strm inp) \<and> (rc = Z_OK \<or> rc = Z_STREAM_END) \<and>
      (length (iout strm inp) < CHUNK_SIZE \<longrightarrow> rc = Z_STREAM_END) \<and>
      (rc = Z_STREAM_END \<longrightarrow> length (iout strm inp) \<le> CHUNK_SIZE)"
    unfolding zlib_contract_def by blast
  with d less.prems(3) have w: "ivalid strm' inp'" "w = take CHUNK_SIZE (iout strm inp)"
    "iout strm' inp' = drop CHUNK_SIZE (iout strm inp)" "rc = Z_OK \<or> rc = Z_STREAM_END"
    "length (iout strm inp) < CHUNK_SIZE \<Longrightarrow> rc = Z_STREAM_END"
    "rc = Z_STREAM_END \<Longrightarrow> length (iout strm inp) \<le> CHUNK_SIZE" by simp_all
  note fits = grow_buffer_fits [OF less.prems(2,1)]
  have "length w \<le> CHUNK_SIZE" using w(2) by simp
  then have len: "\<not> grow_buffer (length out) bs < length out + length w" using fits by linarith
  show ?case
  proof (cases "rc = Z_STREAM_END")
    case True
    with d w len show ?thesis by (subst inflate_loop.simps) (simp add: Let_def)
  next
    case False
    have "0 < CHUNK_SIZE" by (simp add: CHUNK_SIZE_def)
    moreover have "CHUNK_SIZE \<le> length (iout strm inp)" using False w(5) not_less by blast
    ultimately have "length (iout strm' inp') < length (iout strm inp)" using w(3) by simp
    from less.hyps [OF this, of "grow_buffer (length out) bs" "out @ w"]
    have "inflate_loop z strm' inp' (grow_buffer (length out) bs) (out @ w) =
        Some (Val (Z_STREAM_END, out @ iout strm inp))"
      using fits len w(1,2,3) by (simp add: not_less)
    with d w(4) False len show ?thesis by (subst inflate_loop.simps) (simp add: Let_def)
  qed
qed

lemma Compress_returns:
  assumes z: "zlib_contract z dout iout ivalid" and s: "cstr s \<noteq> []"
  shows "Compress z (Some s) =
    (let out = dout (snd (z_deflateInit2 z)) (take (length (cstr s) mod 2 ^ 32) (cstr s))
     in Val \<lparr>c_data = Some out, c_size = length out, c_operationResult = OPERATION_SUCCESS\<rparr>)"
proof -
  from z have "fst (z_deflateInit2 z) = Z_OK" by (simp add: zlib_contract_def)
  then obtain strm where i: "z_deflateInit2 z = (Z_OK, strm)" by (cases "z_deflateInit2 z") auto
  with s show ?thesis
    using deflate_loop_total [OF z, of CHUNK_SIZE "[]" strm]
    by (simp add: Compress_def Let_def)
qed

lemma Decompress_Compress:
  assumes z: "zlib_contract z dout iout ivalid" and s: "is_cstr s" "s \<noteq> []" "length s < 2 ^ 30"
  obtains buf where "Compress z (Some s) =
      Val \<lparr>c_data = Some buf, c_size = length buf, c_operationResult = OPERATION_SUCCESS\<rparr>"
    "Decompress z (Some buf) (length buf) =
      Val \<lparr>d_data = Some (s @ [NUL]), d_operationResult = OPERATION_SUCCESS\<rparr>"
proof -
  let ?buf = "dout (snd (z_deflateInit2 z)) s"
  from z have "fst (z_inflateInit2 z) = Z_OK" by (simp add: zlib_contract_def)
  then obtain istrm where i: "z_inflateInit2 z = (Z_OK, istrm)" by (cases "z_inflateInit2 z") auto
  from z have rt: "ivalid (snd (z_inflateInit2 z)) ?buf" "iout (snd (z_inflateInit2 z)) ?buf = s"
    and buf: "?buf \<noteq> []" "length ?buf \<le> 2 * length s + 64"
    unfolding zlib_contract_def by blast+
  have "length ?buf < 2 ^ 32" using buf(2) s(3) by simp
  then have m: "length ?buf mod 2 ^ 32 = length ?buf" by (rule mod_less)
  have m': "length s mod 2 ^ 32 = length s" using s(3) by (intro mod_less) simp
  have "Compress z (Some s) =
      Val \<lparr>c_data = Some ?buf, c_size = length ?buf, c_operationResult = OPERATION_SUCCESS\<rparr>"
    using Compress_returns [OF z, of s] s by (simp add: Let_def m' del: power_numeral)
  moreover have "Decompress z (Some ?buf) (length ?buf) =
      Val \<lparr>d_data = Some (s @ [NUL]), d_operationResult = OPERATION_SUCCESS\<rparr>"
    using inflate_loop_total [OF z, of CHUNK_SIZE "[]" istrm ?buf] rt buf(1)
    by (simp add: Decompress_def i m del: power_numeral)
  ultimately show ?thesis by (rule that)
qed

subsection \<open>Truncated input\<close>

text \<open>
  A stream that keeps asking for input it will not get: every call returns \<open>Z_BUF_ERROR\<close> without
  progress, as \<^verbatim>\<open>inflate\<close> does once a truncated stream has been consumed.
\<close>

definition starved :: "'z zlib \<Rightarrow> 'z \<Rightarrow> bool" where
  "starved z strm \<longleftrightarrow> (\<forall>n. z_inflate z strm [] n = (Z_BUF_ERROR, [], [], strm))"

lemma inflate_loop_starved:
  assumes "starved z strm" "CHUNK_SIZE \<le> bs" "length out \<le> bs"
  shows "inflate_loop z strm [] bs out = None"
proof (rule ccontr)
  assume "inflate_loop z strm [] bs out \<noteq> None"
  then obtain r where r: "inflate_loop z strm [] bs out = Some r" by blast
  have "\<not> (starved z strm \<and> ([] :: bytes) = [] \<and> CHUNK_SIZE \<le> bs \<and> length out \<le> bs)"
  proof (rule inflate_loop.raw_induct [OF _ r, where P = "\<lambda>z strm inp bs out r.
      \<not> (starved z strm \<and> inp = [] \<and> CHUNK_SIZE \<le> bs \<and> length out \<le> bs)"])
    fix f and z :: "'a zlib" and strm inp bs out and r :: "(int \<times> bytes) cpp"
    assume IH: "\<And>z :: 'a zlib. \<And>strm inp bs out r. f z strm inp bs out = Some r \<Longrightarrow>
        \<not> (starved z strm \<and> inp = [] \<and> CHUNK_SIZE \<le> bs \<and> length out \<le> bs)"
      and step: "(let bs = grow_buffer (length out) bs; (rc, w, inp, strm) = z_inflate z strm inp CHUNK_SIZE
        in if bs < length out + length w then Some UB
           else if rc = Z_STREAM_ERROR \<or> rc = Z_DATA_ERROR then Some (Val (rc, []))
           else if rc \<noteq> Z_STREAM_END then f z strm inp bs (out @ w)
           else Some (Val (rc, out @ w))) = Some r"
    show "\<not> (starved z strm \<and> inp = [] \<and> CHUNK_SIZE \<le> bs \<and> length out \<le> bs)"
      using step IH [of z strm "[]" "grow_buffer (length out) bs" out r]
        grow_buffer_fits [of "length out" bs]
      by (auto simp: starved_def Let_def split: if_splits)
  qed
  with assms show False by simp
qed

lemma Decompress_starved:
  assumes "z_inflateInit2 z = (Z_OK, strm)" and "s \<noteq> []" and "length s < 2 ^ 32"
    and "z_inflate z strm s CHUNK_SIZE = (Z_OK, w, [], strm')" and "length w \<le> CHUNK_SIZE"
    and "starved z strm'"
  shows "Decompress z (Some s) (length s) = Hang"
proof -
  have m: "length s mod 2 ^ 32 = length s" using assms(3) by (rule mod_less)
  have g: "grow_buffer 0 CHUNK_SIZE = CHUNK_SIZE" by (simp add: grow_buffer_def)
  have "inflate_loop z strm s CHUNK_SIZE [] = inflate_loop z strm' [] CHUNK_SIZE w"
    using assms(4,5) by (subst inflate_loop.simps) (simp add: g)
  also have "\<dots> = None" using assms(5,6) by (intro inflate_loop_starved) simp_all
  finally show ?thesis using assms(1,2) by (simp add: Decompress_def m del: power_numeral)
qed

text \<open>A zlib whose inflate takes in all its input at once and then waits for more.\<close>

definition waiting_zlib :: "bool zlib" where
  "waiting_zlib = store_zlib\<lparr>z_inflate := (\<lambda>hdr inp n.
     (if inp = [] then Z_BUF_ERROR else Z_OK, [], [], hdr))\<rparr>"

subsection \<open>Properties\<close>

text \<open>
  C35: Round trip: for every non-empty string below 1 GiB, \<open>Compress\<close> returns successfully a buffer
  with its size, and \<open>Decompress\<close> of that buffer returns, successfully, a fresh buffer with the
  string and its terminating NUL. Both loops end, whatever chunks zlib produces.
\<close>

theorem compress_decompress_roundtrip:
  assumes "zlib_contract z dout iout ivalid" and "is_cstr s" and "s \<noteq> []" and "length s < 2 ^ 30"
  shows "\<exists>buf. Compress z (Some (s @ [NUL])) =
      Val \<lparr>c_data = Some buf, c_size = length buf, c_operationResult = OPERATION_SUCCESS\<rparr> \<and>
    Decompress z (Some buf) (length buf) =
      Val \<lparr>d_data = Some (s @ [NUL]), d_operationResult = OPERATION_SUCCESS\<rparr>"
proof -
  have "Compress z (Some (s @ [NUL])) = Compress z (Some s)"
    using assms(2) by (cases "z_deflateInit2 z") (simp add: Compress_def)
  then show ?thesis using Decompress_Compress [OF assms] by metis
qed

theorem compress_decompress_roundtrip_witness:
  "\<exists>buf. Compress store_zlib (Some (''value'' @ [NUL])) =
      Val \<lparr>c_data = Some buf, c_size = length buf, c_operationResult = OPERATION_SUCCESS\<rparr> \<and>
    Decompress store_zlib (Some buf) (length buf) =
      Val \<lparr>d_data = Some (''value'' @ [NUL]), d_operationResult = OPERATION_SUCCESS\<rparr>"
  by (rule compress_decompress_roundtrip [OF store_zlib_contract]) simp_all

text \<open>
  C36: Memory safety: as long as zlib writes no more than the space it is given, neither function
  ever writes past the end of the buffer it grows, on any input, even one that is no valid stream.
\<close>

theorem compressor_buffers_safe:
  assumes "bounded_output (z_deflate z)" and "bounded_output (z_inflate z)"
  shows "Compress z s \<noteq> UB \<and> Decompress z t n \<noteq> UB"
  using assms
  by (auto simp: Compress_def Decompress_def Let_def split: option.splits cpp.splits prod.splits
      dest!: deflate_loop_safe inflate_loop_safe)

theorem compressor_buffers_safe_witness:
  "Compress store_zlib (Some ''abc'') \<noteq> UB \<and> Decompress store_zlib (Some ''no stream'') 9 \<noteq> UB"
  by (rule compressor_buffers_safe) (auto simp: bounded_output_def store_zlib_def Let_def)

text \<open>
  A truncated stream hangs the caller: when inflate has taken in all the input and from then on
  reports \<open>Z_BUF_ERROR\<close>, which zlib documents as not fatal, the loop of \<open>Decompress\<close> never ends.
\<close>

theorem decompress_truncated_hangs:
  assumes "z_inflateInit2 z = (Z_OK, strm)" and "s \<noteq> []" and "length s < 2 ^ 32"
    and "z_inflate z strm s CHUNK_SIZE = (Z_OK, w, [], strm')" and "length w \<le> CHUNK_SIZE"
    and "starved z strm'"
  shows "Decompress z (Some s) (length s) = Hang"
  using assms by (rule Decompress_starved)

theorem decompress_truncated_hangs_witness:
  "Decompress waiting_zlib (Some ''abc'') (length ''abc'') = Hang"
  by (rule decompress_truncated_hangs [of _ True _ "[]" True])
    (simp_all add: waiting_zlib_def store_zlib_def starved_def)

end
