(* ===== verification/Kvs.thy ===== *)
theory Kvs
  imports Pool Hash Compressor
begin

section \<open>The key value store (class \<open>KeyValueStore\<close> of src/src/kvs)\<close>

text \<open>
  A hash table of buckets with four slots each; a slot holds the index of an entry of the pool, or
  0. A key is looked for in the slots of five buckets found by quadratic probing. Keys and values
  are the strings the \<^verbatim>\<open>char*\<close> arguments point to, without their NUL. A store is used by one thread.
  The counters are natural numbers: they count operations and cannot reach \<open>2 ^ 64\<close>. The field
  \<open>cerr\<close> records the entry indices of the messages \<^verbatim>\<open>Could not migrate entry\<close> that \<^verbatim>\<open>migrateEntry\<close>
  prints.
\<close>

definition BUCKET_SIZE :: nat where "BUCKET_SIZE = 4"
definition MIN_SIZE_TO_COMPRESS :: nat where "MIN_SIZE_TO_COMPRESS = 30"
definition MAX_READ_WRITE_ATTEMPTS :: nat where "MAX_READ_WRITE_ATTEMPTS = 5"
definition RESIZE_THRESHOLD_PERCENTAGE :: nat where "RESIZE_THRESHOLD_PERCENTAGE = 70"

record KeyValueStoreSettings =
  initialSize :: nat
  set_compressionEnabled :: bool
  set_usePrimeNumbers :: bool

definition default_settings :: KeyValueStoreSettings where
  "default_settings = \<lparr>initialSize = 2053, set_compressionEnabled = True, set_usePrimeNumbers = True\<rparr>"

type_synonym buckets = "nat list list"

record kvs =
  table :: buckets
  tableSize :: nat
  numEntries :: nat
  numCollisions :: nat
  numResizes :: nat
  entryPool :: pool_t
  isResizing :: bool
  usePrimeNumbers :: bool
  primegen :: "nat list"
  compressionEnabled :: bool
  cerr :: "nat list"

definition initializeTable :: "nat \<Rightarrow> buckets" where
  "initializeTable n = replicate n (replicate BUCKET_SIZE 0)"

text \<open>
  The constructor; \<open>primes\<close> is the queue that \<^verbatim>\<open>Primegen::initGenerator\<close> has built, of which the
  store and its pool take a copy each.
\<close>

definition KeyValueStore :: "nat list \<Rightarrow> KeyValueStoreSettings \<Rightarrow> kvs cpp" where
  "KeyValueStore primes st = (case MemoryPool primes (initialSize st) of
       Val p \<Rightarrow> Val \<lparr>table = initializeTable (initialSize st), tableSize = initialSize st,
         numEntries = 0, numCollisions = 0, numResizes = 0, entryPool = p, isResizing = False,
         usePrimeNumbers = set_usePrimeNumbers st, primegen = primes,
         compressionEnabled = set_compressionEnabled st, cerr = []\<rparr>
     | Exn m \<Rightarrow> Exn m
     | UB \<Rightarrow> UB
     | Hang \<Rightarrow> Hang)"

text \<open>A modulus of 0 leaves an index outside the empty table, where the access is undefined.\<close>

definition calcIndex :: "u64 \<Rightarrow> nat \<Rightarrow> nat \<Rightarrow> nat" where
  "calcIndex h attempt n = nat (uint (h + of_nat (attempt * attempt)) mod int n)"

definition slot_at :: "buckets \<Rightarrow> nat \<Rightarrow> nat \<Rightarrow> nat option" where
  "slot_at t idx i = (if idx < length t \<and> i < length (t ! idx) then Some (t ! idx ! i) else None)"

definition write_slot :: "buckets \<Rightarrow> nat \<Rightarrow> nat \<Rightarrow> nat \<Rightarrow> buckets" where
  "write_slot t idx i x = t[idx := (t ! idx)[i := x]]"

subsection \<open>Searching a key (the loops of \<open>get\<close> and \<open>del\<close>)\<close>

text \<open>
  \<^verbatim>\<open>get\<close> and \<^verbatim>\<open>del\<close> run the same two loops up to the entry whose key compares equal: the slots of a
  bucket, then the attempts. The result is the index of that entry.
\<close>

fun find_in_bucket :: "kvs \<Rightarrow> bytes \<Rightarrow> nat \<Rightarrow> nat list \<Rightarrow> nat option cpp" where
  "find_in_bucket s key idx [] = Val None"
| "find_in_bucket s key idx (i # is) = (case slot_at (table s) idx i of
       None \<Rightarrow> UB
     | Some entryIdx \<Rightarrow>
         if entryIdx = 0 then find_in_bucket s key idx is
         else (case pool_get (entryPool s) entryIdx of
             None \<Rightarrow> UB
           | Some e \<Rightarrow> (case e_key e of
                 None \<Rightarrow> find_in_bucket s key idx is
               | Some k \<Rightarrow> if k = key then Val (Some entryIdx) else find_in_bucket s key idx is)))"

fun find_entry :: "kvs \<Rightarrow> bytes \<Rightarrow> u64 \<Rightarrow> nat list \<Rightarrow> nat option cpp" where
  "find_entry s key h [] = Val None"
| "find_entry s key h (attempt # as) =
     (case find_in_bucket s key (calcIndex h attempt (tableSize s)) [0..<BUCKET_SIZE] of
       Val None \<Rightarrow> find_entry s key h as
     | r \<Rightarrow> r)"

text \<open>
  \<^verbatim>\<open>decompressEntry\<close> leaves its result in a new buffer, which the store never frees.
\<close>

definition decompressEntry :: "'z zlib \<Rightarrow> entry \<Rightarrow> kvs \<Rightarrow> addr option cpp \<times> kvs" where
  "decompressEntry z e s =
     (case e_value e of
        None \<Rightarrow> (Val None, s)
      | Some a \<Rightarrow> (case mem (heap (entryPool s)) a of
          None \<Rightarrow> (UB, s)
        | Some buf \<Rightarrow>
            and_then (Decompress z (Some buf) (e_vSize e), s) (\<lambda>d s.
              if d_operationResult d = 0 then (case d_data d of
                  None \<Rightarrow> (Val None, s)
                | Some out \<Rightarrow> (let (a', h) = new_buf out (heap (entryPool s))
                    in (Val (Some a'), s\<lparr>entryPool := (entryPool s)\<lparr>heap := h\<rparr>\<rparr>)))
              else (Val None, s)) id))"

definition kvs_get :: "'z zlib \<Rightarrow> bytes \<Rightarrow> u64 \<Rightarrow> kvs \<Rightarrow> addr option cpp \<times> kvs" where
  "kvs_get z key h s =
     and_then (find_entry s key h [0..<MAX_READ_WRITE_ATTEMPTS], s) (\<lambda>r s. case r of
         None \<Rightarrow> (Val None, s)
       | Some i \<Rightarrow> (case pool_get (entryPool s) i of
             None \<Rightarrow> (UB, s)
           | Some e \<Rightarrow> if e_compressed e then decompressEntry z e s else (Val (e_value e), s))) id"

definition kvs_del :: "bytes \<Rightarrow> u64 \<Rightarrow> kvs \<Rightarrow> bool cpp \<times> kvs" where
  "kvs_del key h s =
     and_then (find_entry s key h [0..<MAX_READ_WRITE_ATTEMPTS], s) (\<lambda>r s. case r of
         None \<Rightarrow> (Val False, s)
       | Some i \<Rightarrow> and_then (deallocate i (entryPool s)) (\<lambda>_ p. (Val True, s\<lparr>entryPool := p\<rparr>))
           (\<lambda>p. s\<lparr>entryPool := p\<rparr>)) id"

subsection \<open>Inserting\<close>

text \<open>
  What \<^verbatim>\<open>insertEntry\<close> stores for a value: the compressed buffer when compression is on, the value is
  large enough and zlib succeeds, otherwise the value with its NUL.
\<close>

definition encode_value :: "'z zlib \<Rightarrow> bool \<Rightarrow> bytes \<Rightarrow> (bool \<times> bytes) cpp" where
  "encode_value z enabled val =
     (if enabled \<and> MIN_SIZE_TO_COMPRESS \<le> length val + 1 then
        (case Compress z (Some (val @ [NUL])) of
           Val r \<Rightarrow> (case (c_operationResult r = 0, c_data r) of
               (True, Some buf) \<Rightarrow> Val (True, take (c_size r) buf)
             | _ \<Rightarrow> Val (False, val @ [NUL]))
         | Exn m \<Rightarrow> Exn m
         | UB \<Rightarrow> UB
         | Hang \<Rightarrow> Hang)
      else Val (False, val @ [NUL]))"

definition insertEntry :: "'z zlib \<Rightarrow> bytes \<Rightarrow> bytes \<Rightarrow> kvs \<Rightarrow> nat cpp \<times> kvs" where
  "insertEntry z key val s =
     and_then (allocate (entryPool s)) (\<lambda>i p.
       and_then (encode_value z (compressionEnabled s) val, s\<lparr>entryPool := p\<rparr>) (\<lambda>(c, buf) s.
         (Val i, s\<lparr>entryPool := write_entry i key buf c (entryPool s), numEntries := numEntries s + 1\<rparr>))
         id)
       (\<lambda>p. s\<lparr>entryPool := p\<rparr>)"

text \<open>
  The slot loop of \<^verbatim>\<open>set\<close>: an unused slot, the slot of a freed entry or the slot of the same key
  takes the new entry; \<open>Val False\<close> is falling out of the loop.
\<close>

definition fill_slot :: "'z zlib \<Rightarrow> bytes \<Rightarrow> bytes \<Rightarrow> nat \<Rightarrow> nat \<Rightarrow> kvs \<Rightarrow> bool cpp \<times> kvs" where
  "fill_slot z key val idx i s =
     and_then (insertEntry z key val s) (\<lambda>x s. (Val True, s\<lparr>table := write_slot (table s) idx i x\<rparr>)) id"

fun set_in_bucket :: "'z zlib \<Rightarrow> bytes \<Rightarrow> bytes \<Rightarrow> nat \<Rightarrow> nat list \<Rightarrow> kvs \<Rightarrow> bool cpp \<times> kvs" where
  "set_in_bucket z key val idx [] s = (Val False, s)"
| "set_in_bucket z key val idx (i # is) s = (case slot_at (table s) idx i of
       None \<Rightarrow> (UB, s)
     | Some entryIdx \<Rightarrow>
         if entryIdx = 0 then fill_slot z key val idx i s
         else (case pool_get (entryPool s) entryIdx of
             None \<Rightarrow> (UB, s)
           | Some e \<Rightarrow> (case e_key e of
                 None \<Rightarrow> fill_slot z key val idx i s
               | Some k \<Rightarrow>
                   if k = key
                   then and_then (deallocate entryIdx (entryPool s))
                          (\<lambda>_ p. fill_slot z key val idx i (s\<lparr>entryPool := p\<rparr>))
                          (\<lambda>p. s\<lparr>entryPool := p\<rparr>)
                   else set_in_bucket z key val idx is s)))"

fun set_attempts :: "'z zlib \<Rightarrow> bytes \<Rightarrow> bytes \<Rightarrow> u64 \<Rightarrow> nat list \<Rightarrow> kvs \<Rightarrow> bool cpp \<times> kvs" where
  "set_attempts z key val h [] s = (Val False, s)"
| "set_attempts z key val h (attempt # as) s =
     and_then (set_in_bucket z key val (calcIndex h attempt (tableSize s)) [0..<BUCKET_SIZE] s)
       (\<lambda>stored s. if stored then (Val True, s)
          else set_attempts z key val h as (s\<lparr>numCollisions := numCollisions s + 1\<rparr>)) id"

subsection \<open>Growing\<close>

text \<open>The search of \<^verbatim>\<open>migrateEntry\<close> for an unused slot of the new table.\<close>

fun first_unused :: "buckets \<Rightarrow> nat \<Rightarrow> nat list \<Rightarrow> (nat \<times> nat) option cpp" where
  "first_unused t idx [] = Val None"
| "first_unused t idx (k # ks) = (case slot_at t idx k of
       None \<Rightarrow> UB
     | Some x \<Rightarrow> if x = 0 then Val (Some (idx, k)) else first_unused t idx ks)"

fun find_unused :: "buckets \<Rightarrow> nat \<Rightarrow> u64 \<Rightarrow> nat list \<Rightarrow> (nat \<times> nat) option cpp" where
  "find_unused t n h [] = Val None"
| "find_unused t n h (attempt # as) =
     (case first_unused t (calcIndex h attempt n) [0..<BUCKET_SIZE] of
        Val None \<Rightarrow> find_unused t n h as
      | r \<Rightarrow> r)"

type_synonym migration = "buckets \<times> nat list"

definition migrateEntry :: "pool_t \<Rightarrow> nat \<Rightarrow> nat \<Rightarrow> migration \<Rightarrow> unit cpp \<times> migration" where
  "migrateEntry p newTableSize entryIdx m = (case m of (newTable, log) \<Rightarrow>
     (case pool_get p entryIdx of
        None \<Rightarrow> (UB, m)
      | Some e \<Rightarrow> (case e_key e of
            None \<Rightarrow> (Val (), m)
          | Some key \<Rightarrow>
              and_then (find_unused newTable newTableSize (hashFunc key) [0..<MAX_READ_WRITE_ATTEMPTS], m)
                (\<lambda>r m. case r of
                    Some (idx, k) \<Rightarrow> (Val (), (write_slot newTable idx k entryIdx, log))
                  | None \<Rightarrow> (Val (), (newTable, log @ [entryIdx]))) id)))"

fun migrate_all :: "pool_t \<Rightarrow> nat \<Rightarrow> nat list \<Rightarrow> migration \<Rightarrow> unit cpp \<times> migration" where
  "migrate_all p n [] m = (Val (), m)"
| "migrate_all p n (entryIdx # xs) m =
     (if entryIdx = 0 then migrate_all p n xs m
      else and_then (migrateEntry p n entryIdx m) (\<lambda>_ m. migrate_all p n xs m) id)"

text \<open>
  The slots are visited bucket by bucket. When the generator has no size left, \<^verbatim>\<open>PopNext\<close> throws and
  \<open>isResizing\<close> stays set.
\<close>

definition resize :: "kvs \<Rightarrow> unit cpp \<times> kvs" where
  "resize s =
     (let s = s\<lparr>isResizing := True\<rparr>
      in and_then
           (if usePrimeNumbers s
            then (case PopNext (primegen s) of (r, q) \<Rightarrow> (r, s\<lparr>primegen := q\<rparr>))
            else (Val (tableSize s * 2), s))
           (\<lambda>newTableSize s.
              and_then (expandPool newTableSize (entryPool s))
                (\<lambda>_ p. and_then (migrate_all p newTableSize (concat (table s))
                          (initializeTable newTableSize, cerr s))
                   (\<lambda>_ (newTable, log). (Val (), s\<lparr>entryPool := p, table := newTable,
                      tableSize := newTableSize, isResizing := False,
                      numResizes := numResizes s + 1, cerr := log\<rparr>))
                   (\<lambda>_. s\<lparr>entryPool := p\<rparr>))
                (\<lambda>p. s\<lparr>entryPool := p\<rparr>)) id)"

definition kvs_set :: "'z zlib \<Rightarrow> bytes \<Rightarrow> bytes \<Rightarrow> u64 \<Rightarrow> kvs \<Rightarrow> bool cpp \<times> kvs" where
  "kvs_set z key val h s =
     and_then
       (if tableSize s * RESIZE_THRESHOLD_PERCENTAGE div 100 \<le> numEntries s \<and> \<not> isResizing s
        then resize s else (Val (), s))
       (\<lambda>_ s. set_attempts z key val h [0..<MAX_READ_WRITE_ATTEMPTS] s) id"

text \<open>The overloads without a hash, as the unit tests call them.\<close>

definition kvs_set_key :: "'z zlib \<Rightarrow> bytes \<Rightarrow> bytes \<Rightarrow> kvs \<Rightarrow> bool cpp \<times> kvs" where
  "kvs_set_key z key val s = kvs_set z key val (hashFunc key) s"

definition kvs_get_key :: "'z zlib \<Rightarrow> bytes \<Rightarrow> kvs \<Rightarrow> addr option cpp \<times> kvs" where
  "kvs_get_key z key s = kvs_get z key (hashFunc key) s"

definition kvs_del_key :: "bytes \<Rightarrow> kvs \<Rightarrow> bool cpp \<times> kvs" where
  "kvs_del_key key s = kvs_del key (hashFunc key) s"

text \<open>\<open>~KeyValueStore\<close>: \<^verbatim>\<open>cleanTable\<close> deallocates the entry of every slot in use.\<close>

fun clean_slots :: "nat list \<Rightarrow> pool_t \<Rightarrow> unit cpp \<times> pool_t" where
  "clean_slots [] p = (Val (), p)"
| "clean_slots (x # xs) p =
     (if x = 0 then clean_slots xs p
      else and_then (deallocate x p) (\<lambda>_ p. clean_slots xs p) id)"

definition cleanTable :: "kvs \<Rightarrow> unit cpp \<times> pool_t" where
  "cleanTable s = clean_slots (concat (table s)) (entryPool s)"

end
