(* ===== verification/Kvs_Probe.thy ===== *)
theory Kvs_Probe
  imports Kvs
begin

section \<open>The loops of the store as searches along a probe sequence\<close>

text \<open>
  Every operation of the store walks the same places: the slots of the buckets of attempts 0 to 4.
  \<open>positions n h\<close> lists them in order. The lemmas show that under the invariant the loops of the
  code are \<open>find\<close> along this list, with no undefined behaviour, and give the invariant of the store.
\<close>

definition positions_from :: "nat \<Rightarrow> u64 \<Rightarrow> nat list \<Rightarrow> (nat \<times> nat) list" where
  "positions_from n h as = concat (map (\<lambda>a. map (Pair (calcIndex h a n)) [0..<BUCKET_SIZE]) as)"

definition positions :: "nat \<Rightarrow> u64 \<Rightarrow> (nat \<times> nat) list" where
  "positions n h = positions_from n h [0..<MAX_READ_WRITE_ATTEMPTS]"

definition slot :: "buckets \<Rightarrow> nat \<times> nat \<Rightarrow> nat" where
  "slot t p = t ! fst p ! snd p"

definition key_of :: "pool_t \<Rightarrow> nat \<Rightarrow> bytes option" where
  "key_of p i = map_option fst (contents p i)"

text \<open>Shape of a bucket array: \<open>n\<close> buckets of four slots that hold indices below \<open>n\<close>.\<close>

definition table_ok :: "buckets \<Rightarrow> nat \<Rightarrow> bool" where
  "table_ok t n \<longleftrightarrow> length t = n \<and> (\<forall>b\<in>set t. length b = BUCKET_SIZE \<and> (\<forall>x\<in>set b. x < n))"

definition in_table :: "nat \<Rightarrow> nat \<times> nat \<Rightarrow> bool" where
  "in_table n p \<longleftrightarrow> fst p < n \<and> snd p < BUCKET_SIZE"

subsection \<open>Bucket arrays\<close>

lemma calcIndex_less [simp]: "0 < n \<Longrightarrow> calcIndex h a n < n"
  by (simp add: calcIndex_def nat_less_iff)

lemma in_table_positions_from: "0 < n \<Longrightarrow> p \<in> set (positions_from n h as) \<Longrightarrow> in_table n p"
  by (auto simp: positions_from_def in_table_def)

lemma in_table_positions: "0 < n \<Longrightarrow> p \<in> set (positions n h) \<Longrightarrow> in_table n p"
  unfolding positions_def by (rule in_table_positions_from)

lemma positions_from_Cons:
  "positions_from n h (a # as) = map (Pair (calcIndex h a n)) [0..<BUCKET_SIZE] @ positions_from n h as"
  by (simp add: positions_from_def)

lemma slot_at_ok: "table_ok t n \<Longrightarrow> in_table n (idx, j) \<Longrightarrow> slot_at t idx j = Some (slot t (idx, j))"
  by (auto simp: table_ok_def in_table_def slot_at_def slot_def)

lemma slot_less: "table_ok t n \<Longrightarrow> in_table n p \<Longrightarrow> slot t p < n"
  unfolding table_ok_def in_table_def slot_def by (metis nth_mem)

lemma slot_write:
  "table_ok t n \<Longrightarrow> in_table n p \<Longrightarrow> in_table n q \<Longrightarrow>
   slot (write_slot t (fst p) (snd p) x) q = (if q = p then x else slot t q)"
  by (cases p; cases q) (auto simp: table_ok_def in_table_def slot_def write_slot_def nth_list_update)

lemma table_ok_write: "table_ok t n \<Longrightarrow> in_table n p \<Longrightarrow> x < n \<Longrightarrow> table_ok (write_slot t (fst p) (snd p) x) n"
  unfolding table_ok_def in_table_def write_slot_def
  by (auto dest!: in_set_conv_nth [THEN iffD1] simp: nth_list_update split: if_splits)
    (metis nth_mem)+

lemma table_ok_initial: "0 < n \<Longrightarrow> table_ok (initializeTable n) n"
  by (auto simp: table_ok_def initializeTable_def)

lemma slot_initial: "in_table n p \<Longrightarrow> slot (initializeTable n) p = 0"
  by (simp add: in_table_def initializeTable_def slot_def)

lemma table_slots: "table_ok t n \<Longrightarrow> set (concat t) = slot t ` {p. in_table n p}"
proof (intro equalityI subsetI)
  fix x assume t: "table_ok t n" and "x \<in> set (concat t)"
  then obtain b where b: "b \<in> set t" "x \<in> set b" by auto
  then obtain i j where i: "i < length t" "t ! i = b" and j: "j < length b" "b ! j = x"
    by (metis in_set_conv_nth)
  have "in_table n (i, j)" "slot t (i, j) = x"
    using t b(1) i j by (auto simp: in_table_def table_ok_def slot_def)
  then show "x \<in> slot t ` {p. in_table n p}" by force
next
  fix x assume t: "table_ok t n" and "x \<in> slot t ` {p. in_table n p}"
  then obtain i j where ij: "i < n" "j < BUCKET_SIZE" "x = t ! i ! j" by (auto simp: in_table_def slot_def)
  then have i: "i < length t" using t by (simp add: table_ok_def)
  then have "t ! i \<in> set t" by simp
  moreover have "length (t ! i) = BUCKET_SIZE" using t i nth_mem by (auto simp: table_ok_def)
  then have "x \<in> set (t ! i)" using ij by simp
  ultimately show "x \<in> set (concat t)" by auto
qed

lemma slot_in_concat: "table_ok t n \<Longrightarrow> in_table n p \<Longrightarrow> slot t p \<in> set (concat t)"
  using table_slots by blast

subsection \<open>Entries\<close>

lemma pool_get_ok:
  "pool_inv p free \<Longrightarrow> i < capacity p \<Longrightarrow> \<exists>e. pool_get p i = Some e \<and> e_key e = key_of p i"
  by (simp add: pool_get_def key_of_def contents_key)

lemma key_of_0: "pool_inv p free \<Longrightarrow> key_of p 0 = None"
  by (metis contents_pos key_of_def less_irrefl map_option_is_None not_None_eq)

lemma key_of_None: "key_of p i = None \<longleftrightarrow> contents p i = None"
  by (simp add: key_of_def)

lemma key_of_SomeD: "key_of p i = Some k \<Longrightarrow> \<exists>c b. contents p i = Some (k, c, b)"
  by (auto simp: key_of_def)

lemma pool_get_contents:
  assumes "pool_inv p free" "contents p i = Some (k, c, b)"
  obtains e a where "pool_get p i = Some e" "e_compressed e = c" "e_value e = Some a"
    "mem (heap p) a = Some b" "e_vSize e = length b"
proof -
  have i: "i < capacity p" using assms(2) by (rule contents_range)
  then have "e_key (pool p ! i) = Some k" using contents_key [OF assms(1)] assms(2) by simp
  from entry_ok_used [OF pool_invD(4) [OF assms(1) i] this] that i assms(2) show ?thesis
    by (auto simp: contents_def pool_get_def)
qed

subsection \<open>The search loops\<close>

definition shape :: "kvs \<Rightarrow> nat list \<Rightarrow> bool" where
  "shape s free \<longleftrightarrow> pool_inv (entryPool s) free \<and> table_ok (table s) (tableSize s) \<and>
     capacity (entryPool s) = tableSize s"

lemma shapeD:
  assumes "shape s free"
  shows "pool_inv (entryPool s) free" "table_ok (table s) (tableSize s)"
    "capacity (entryPool s) = tableSize s" "0 < tableSize s"
  using assms pool_invD(2) [of "entryPool s" free] by (auto simp: shape_def)

lemma find_in_bucket_eq:
  assumes "shape s free" "idx < tableSize s" "\<forall>i\<in>set is. i < BUCKET_SIZE"
  shows "find_in_bucket s key idx is =
    Val (map_option (slot (table s)) (find (\<lambda>p. key_of (entryPool s) (slot (table s) p) = Some key)
      (map (Pair idx) is)))"
  using assms(3)
proof (induction "is")
  case (Cons i "is")
  note sh = shapeD [OF assms(1)]
  have in_t: "in_table (tableSize s) (idx, i)" using Cons.prems assms(2) by (simp add: in_table_def)
  obtain e where e: "pool_get (entryPool s) (slot (table s) (idx, i)) = Some e"
    "e_key e = key_of (entryPool s) (slot (table s) (idx, i))"
    using pool_get_ok [OF sh(1)] slot_less [OF sh(2) in_t] sh(3) by auto
  show ?case
    using Cons slot_at_ok [OF sh(2) in_t] e key_of_0 [OF sh(1)] by (auto split: option.splits)
qed simp

lemma find_entry_eq:
  assumes "shape s free"
  shows "find_entry s key h as =
    Val (map_option (slot (table s)) (find (\<lambda>p. key_of (entryPool s) (slot (table s) p) = Some key)
      (positions_from (tableSize s) h as)))"
proof (induction as)
  case (Cons a as)
  have "find_in_bucket s key (calcIndex h a (tableSize s)) [0..<BUCKET_SIZE] =
    Val (map_option (slot (table s)) (find (\<lambda>p. key_of (entryPool s) (slot (table s) p) = Some key)
      (map (Pair (calcIndex h a (tableSize s))) [0..<BUCKET_SIZE])))"
    using shapeD(4) [OF assms] by (intro find_in_bucket_eq [OF assms]) auto
  then show ?case using Cons by (auto simp: positions_from_Cons find_append split: option.splits)
qed (simp add: positions_from_def)

lemma first_unused_eq:
  assumes "table_ok t n" "idx < n" "\<forall>i\<in>set ks. i < BUCKET_SIZE"
  shows "first_unused t idx ks = Val (find (\<lambda>p. slot t p = 0) (map (Pair idx) ks))"
  using assms(3)
proof (induction ks)
  case (Cons k ks)
  have "in_table n (idx, k)" using Cons.prems assms(2) by (simp add: in_table_def)
  with Cons show ?case using slot_at_ok [OF assms(1)] by simp
qed simp

lemma find_unused_eq:
  assumes "table_ok t n" "0 < n"
  shows "find_unused t n h as = Val (find (\<lambda>p. slot t p = 0) (positions_from n h as))"
proof (induction as)
  case (Cons a as)
  have "first_unused t (calcIndex h a n) [0..<BUCKET_SIZE] =
      Val (find (\<lambda>p. slot t p = 0) (map (Pair (calcIndex h a n)) [0..<BUCKET_SIZE]))"
    using assms by (intro first_unused_eq [OF assms(1)]) auto
  then show ?case using Cons by (auto simp: positions_from_Cons find_append split: option.splits)
qed (simp add: positions_from_def)

text \<open>What \<^verbatim>\<open>set\<close> does at the slot where its search stops.\<close>

definition store_at :: "'z zlib \<Rightarrow> bytes \<Rightarrow> bytes \<Rightarrow> nat \<times> nat \<Rightarrow> kvs \<Rightarrow> bool cpp \<times> kvs" where
  "store_at z key val p s =
     (if key_of (entryPool s) (slot (table s) p) = None then fill_slot z key val (fst p) (snd p) s
      else and_then (deallocate (slot (table s) p) (entryPool s))
             (\<lambda>_ q. fill_slot z key val (fst p) (snd p) (s\<lparr>entryPool := q\<rparr>))
             (\<lambda>q. s\<lparr>entryPool := q\<rparr>))"

definition settable :: "kvs \<Rightarrow> bytes \<Rightarrow> nat \<times> nat \<Rightarrow> bool" where
  "settable s key p \<longleftrightarrow> key_of (entryPool s) (slot (table s) p) \<in> {None, Some key}"

lemma set_in_bucket_eq:
  assumes "shape s free" "idx < tableSize s" "\<forall>i\<in>set is. i < BUCKET_SIZE"
  shows "set_in_bucket z key val idx is s =
    (case find (settable s key) (map (Pair idx) is) of
       None \<Rightarrow> (Val False, s) | Some p \<Rightarrow> store_at z key val p s)"
  using assms(3)
proof (induction "is")
  case (Cons i "is")
  note sh = shapeD [OF assms(1)]
  have in_t: "in_table (tableSize s) (idx, i)" using Cons.prems assms(2) by (simp add: in_table_def)
  obtain e where e: "pool_get (entryPool s) (slot (table s) (idx, i)) = Some e"
    "e_key e = key_of (entryPool s) (slot (table s) (idx, i))"
    using pool_get_ok [OF sh(1)] slot_less [OF sh(2) in_t] sh(3) by auto
  have IH: "set_in_bucket z key val idx is s = (case find (settable s key) (map (Pair idx) is) of
      None \<Rightarrow> (Val False, s) | Some p \<Rightarrow> store_at z key val p s)"
    using Cons by simp
  have st: "settable s key (idx, i) \<longleftrightarrow>
      key_of (entryPool s) (slot (table s) (idx, i)) = None \<or>
      key_of (entryPool s) (slot (table s) (idx, i)) = Some key"
    by (auto simp: settable_def)
  have at: "store_at z key val (idx, i) s =
     (if key_of (entryPool s) (slot (table s) (idx, i)) = None then fill_slot z key val idx i s
      else and_then (deallocate (slot (table s) (idx, i)) (entryPool s))
             (\<lambda>_ q. fill_slot z key val idx i (s\<lparr>entryPool := q\<rparr>)) (\<lambda>q. s\<lparr>entryPool := q\<rparr>))"
    by (simp add: store_at_def)
  show ?case
    using slot_at_ok [OF sh(2) in_t] e key_of_0 [OF sh(1)]
    by (cases "e_key e") (auto simp: IH st at)
qed simp

lemma fill_slot_bool: "fill_slot z key val idx i s = (Val b, s') \<Longrightarrow> b"
  by (auto simp: fill_slot_def and_then_def split: prod.splits cpp.splits)

lemma store_at_bool: "store_at z key val p s = (Val b, s') \<Longrightarrow> b"
  by (auto simp: store_at_def and_then_def dest: fill_slot_bool split: prod.splits cpp.splits if_splits)

lemma store_at_fst: "and_then (store_at z key val p s) (\<lambda>b s. if b then (Val True, s) else f s) id =
    store_at z key val p s"
proof -
  obtain r s' where r: "store_at z key val p s = (r, s')" by fastforce
  then show ?thesis using store_at_bool [of z key val p s] by (cases r) auto
qed

lemma set_attempts_eq:
  assumes "shape s free"
  shows "\<exists>c. set_attempts z key val h as s =
    (case find (settable s key) (positions_from (tableSize s) h as) of
       None \<Rightarrow> (Val False, s\<lparr>numCollisions := c\<rparr>)
     | Some p \<Rightarrow> store_at z key val p (s\<lparr>numCollisions := c\<rparr>))"
  using assms
proof (induction as arbitrary: s)
  case Nil
  then show ?case by (intro exI [of _ "numCollisions s"]) (simp add: positions_from_def)
next
  case (Cons a as)
  let ?s' = "s\<lparr>numCollisions := numCollisions s + 1\<rparr>"
  have bucket: "set_in_bucket z key val (calcIndex h a (tableSize s)) [0..<BUCKET_SIZE] s =
    (case find (settable s key) (map (Pair (calcIndex h a (tableSize s))) [0..<BUCKET_SIZE]) of
       None \<Rightarrow> (Val False, s) | Some p \<Rightarrow> store_at z key val p s)"
    using shapeD(4) [OF Cons.prems] by (intro set_in_bucket_eq [OF Cons.prems]) auto
  have "shape ?s' free" using Cons.prems by (simp add: shape_def)
  note IH = Cons.IH [OF this]
  have upd: "?s'\<lparr>numCollisions := c\<rparr> = s\<lparr>numCollisions := c\<rparr>" for c by simp
  have same: "settable ?s' key = settable s key" "tableSize ?s' = tableSize s"
    by (simp_all add: settable_def fun_eq_iff)
  from IH obtain c where c: "set_attempts z key val h as ?s' =
    (case find (settable s key) (positions_from (tableSize s) h as) of
       None \<Rightarrow> (Val False, s\<lparr>numCollisions := c\<rparr>)
     | Some p \<Rightarrow> store_at z key val p (s\<lparr>numCollisions := c\<rparr>))"
    unfolding upd same by blast
  show ?case
  proof (cases "find (settable s key) (map (Pair (calcIndex h a (tableSize s))) [0..<BUCKET_SIZE])")
    case None
    then show ?thesis
      using c bucket same by (intro exI [of _ c]) (simp add: positions_from_Cons find_append)
  next
    case (Some p)
    then show ?thesis
      using bucket
      by (intro exI [of _ "numCollisions s"]) (simp add: positions_from_Cons find_append store_at_fst)
  qed
qed

end
