(* ===== verification/Kvs_Inv.thy ===== *)
theory Kvs_Inv
  imports Kvs_Probe
begin

section \<open>Invariant of the store and the effect of its operations\<close>

text \<open>
  The invariant of a store in operation, what a lookup sees, and the effect of each operation:
  \<^verbatim>\<open>get\<close>, \<^verbatim>\<open>del\<close> and the insertion of \<^verbatim>\<open>set\<close> here, growing in the theory after this one.
\<close>

subsection \<open>Encoded values\<close>

definition zlib_ok :: "'z zlib \<Rightarrow> bool" where
  "zlib_ok z \<longleftrightarrow> (\<exists>dout iout ivalid. zlib_contract z dout iout ivalid)"

definition decodes :: "'z zlib \<Rightarrow> bool \<Rightarrow> bytes \<Rightarrow> bytes \<Rightarrow> bool" where
  "decodes z c b v \<longleftrightarrow> is_cstr v \<and>
     (if c then Decompress z (Some b) (length b) =
        Val \<lparr>d_data = Some (v @ [NUL]), d_operationResult = OPERATION_SUCCESS\<rparr>
      else b = v @ [NUL])"

definition value_of :: "'z zlib \<Rightarrow> bool \<Rightarrow> bytes \<Rightarrow> bytes option" where
  "value_of z c b =
     (if c then (case Decompress z (Some b) (length b) of
          Val d \<Rightarrow> if d_operationResult d = 0 then map_option cstr (d_data d) else None
        | _ \<Rightarrow> None)
      else Some (cstr b))"

text \<open>The strings the cache can hold: no NUL and below 1 GiB.\<close>

definition storable :: "bytes \<Rightarrow> bool" where
  "storable v \<longleftrightarrow> is_cstr v \<and> length v < 2 ^ 30"

lemma decodes_value_of: "decodes z c b v \<Longrightarrow> value_of z c b = Some v"
  by (cases c) (simp_all add: decodes_def value_of_def OPERATION_SUCCESS_def)

lemma encode_value_ok:
  assumes z: "zlib_ok z" and v: "storable v"
  obtains c b where "encode_value z enabled v = Val (c, b)" "decodes z c b v"
proof (cases "enabled \<and> MIN_SIZE_TO_COMPRESS \<le> length v + 1")
  case True
  then have ne: "v \<noteq> []" by (auto simp: MIN_SIZE_TO_COMPRESS_def)
  obtain dout iout ivalid where zc: "zlib_contract z dout iout ivalid" using z by (auto simp: zlib_ok_def)
  have "Compress z (Some (v @ [NUL])) = Compress z (Some v)"
    using v by (cases "z_deflateInit2 z") (simp add: Compress_def storable_def)
  moreover obtain buf where "Compress z (Some v) =
      Val \<lparr>c_data = Some buf, c_size = length buf, c_operationResult = OPERATION_SUCCESS\<rparr>"
    "Decompress z (Some buf) (length buf) =
      Val \<lparr>d_data = Some (v @ [NUL]), d_operationResult = OPERATION_SUCCESS\<rparr>"
    using Decompress_Compress [OF zc _ ne] v by (auto simp: storable_def)
  ultimately show ?thesis
    using True v that [of True buf] by (simp add: encode_value_def decodes_def storable_def OPERATION_SUCCESS_def)
next
  case False
  then show ?thesis using v that [of False "v @ [NUL]"]
    by (auto simp: encode_value_def decodes_def storable_def)
qed

subsection \<open>The invariant\<close>

definition values_ok :: "'z zlib \<Rightarrow> (nat \<rightharpoonup> stored) \<Rightarrow> bool" where
  "values_ok z C \<longleftrightarrow> (\<forall>i k c b. C i = Some (k, c, b) \<longrightarrow> is_cstr k \<and> (\<exists>v. decodes z c b v))"

definition threshold :: "nat \<Rightarrow> nat" where
  "threshold n = n * RESIZE_THRESHOLD_PERCENTAGE div 100"

definition kvs_ok :: "'z zlib \<Rightarrow> kvs \<Rightarrow> nat list \<Rightarrow> bool" where
  "kvs_ok z s free \<longleftrightarrow> shape s free \<and> values_ok z (contents (entryPool s)) \<and> \<not> isResizing s \<and>
     (usePrimeNumbers s \<longrightarrow> sorted_wrt (<) (tableSize s # primegen s))"

text \<open>
  Free entries and the entries still to be inserted before the next growth always balance: the pool
  cannot run out before the table grows.
\<close>

definition kvs_inv :: "'z zlib \<Rightarrow> kvs \<Rightarrow> bool" where
  "kvs_inv z s \<longleftrightarrow> (\<exists>free. kvs_ok z s free \<and> threshold (tableSize s) \<le> length free + numEntries s)"

text \<open>What a search for a key hits, and the value it finds.\<close>

definition hit :: "kvs \<Rightarrow> bytes \<Rightarrow> nat \<times> nat \<Rightarrow> bool" where
  "hit s key p \<longleftrightarrow> key_of (entryPool s) (slot (table s) p) = Some key"

definition lookup_idx :: "kvs \<Rightarrow> bytes \<Rightarrow> nat option" where
  "lookup_idx s key =
     map_option (slot (table s)) (find (hit s key) (positions (tableSize s) (hashFunc key)))"

definition lookup :: "'z zlib \<Rightarrow> kvs \<Rightarrow> bytes \<rightharpoonup> bytes" where
  "lookup z s key = (case lookup_idx s key of
       None \<Rightarrow> None
     | Some i \<Rightarrow> (case contents (entryPool s) i of None \<Rightarrow> None | Some (k, c, b) \<Rightarrow> value_of z c b))"

definition read_str :: "kvs \<Rightarrow> addr option \<Rightarrow> bytes option" where
  "read_str s r = (case r of None \<Rightarrow> None | Some a \<Rightarrow> map_option cstr (mem (heap (entryPool s)) a))"

lemma kvs_okD:
  assumes "kvs_ok z s free"
  shows "shape s free" "values_ok z (contents (entryPool s))" "\<not> isResizing s"
    "usePrimeNumbers s \<Longrightarrow> sorted_wrt (<) (tableSize s # primegen s)"
  using assms by (auto simp: kvs_ok_def)

lemma lookup_idx_SomeD:
  "lookup_idx s key = Some i \<Longrightarrow> key_of (entryPool s) i = Some key"
  by (auto simp: lookup_idx_def hit_def dest!: find_SomeD)

lemma lookup_idx_SomeE:
  assumes "lookup_idx s key = Some i"
  obtains p where "p \<in> set (positions (tableSize s) (hashFunc key))" "slot (table s) p = i"
    "find (hit s key) (positions (tableSize s) (hashFunc key)) = Some p"
  using assms by (auto simp: lookup_idx_def dest: find_SomeD)

lemma find_entry_lookup:
  "shape s free \<Longrightarrow> find_entry s key (hashFunc key) [0..<MAX_READ_WRITE_ATTEMPTS] = Val (lookup_idx s key)"
  by (simp add: find_entry_eq lookup_idx_def positions_def hit_def [abs_def])

lemma lookup_idx_None_iff:
  "lookup_idx s key = None \<longleftrightarrow>
   (\<forall>p\<in>set (positions (tableSize s) (hashFunc key)). key_of (entryPool s) (slot (table s) p) \<noteq> Some key)"
  by (auto simp: lookup_idx_def find_None_iff hit_def)

lemma lookup_None_iff:
  assumes "kvs_ok z s free"
  shows "lookup z s key = None \<longleftrightarrow> lookup_idx s key = None"
proof (cases "lookup_idx s key")
  case (Some i)
  then obtain c b where "contents (entryPool s) i = Some (key, c, b)"
    using key_of_SomeD lookup_idx_SomeD by metis
  then show ?thesis using kvs_okD(2) [OF assms] decodes_value_of Some
    by (fastforce simp: lookup_def values_ok_def)
qed (simp add: lookup_def)

subsection \<open>\<open>get\<close>\<close>

text \<open>A new buffer that no entry points to changes nothing of the store.\<close>

lemma pool_inv_new_buf:
  assumes inv: "pool_inv p free" and p'_def: "p' = p\<lparr>heap := snd (new_buf bs (heap p))\<rparr>"
  shows "pool_inv p' free" "contents p' = contents p"
proof -
  let ?a = "next_addr (heap p)"
  have fresh: "mem (heap p) ?a = None" using pool_invD(3) [OF inv] by (rule new_buf_fresh)
  have "e_value (pool p ! j) \<noteq> Some ?a" if "j < capacity p" for j
    using pool_invD(4) [OF inv that] fresh by (auto simp: entry_ok_def split: option.splits)
  then have other: "entry_ok (heap p') (pool p ! j) = entry_ok (heap p) (pool p ! j) \<and>
      entry_contents (heap p') (pool p ! j) = entry_contents (heap p) (pool p ! j)" if "j < capacity p" for j
    using that by (auto simp: p'_def entry_ok_def entry_contents_def heap_simps split: option.splits)
  show "pool_inv p' free"
    using inv other heap_inv_new_buf [OF pool_invD(3) [OF inv], of bs]
    unfolding pool_inv_def p'_def by (simp, blast)
  show "contents p' = contents p" using other by (auto simp: contents_def p'_def fun_eq_iff)
qed

text \<open>
  \<^verbatim>\<open>get\<close> returns a pointer to the value that the lookup finds; all it may change is the heap, by the
  buffer of a decompressed value.
\<close>

lemma kvs_get_ok:
  assumes ok: "kvs_ok z s free"
  obtains r p' where "kvs_get z key (hashFunc key) s = (Val r, s\<lparr>entryPool := p'\<rparr>)"
    "read_str (s\<lparr>entryPool := p'\<rparr>) r = lookup z s key"
    "pool_inv p' free" "contents p' = contents (entryPool s)" "capacity p' = capacity (entryPool s)"
    "case r of None \<Rightarrow> lookup z s key = None | Some a \<Rightarrow> \<exists>b. mem (heap p') a = Some b \<and> lookup z s key = Some (cstr b)"
proof -
  note sh = shapeD [OF kvs_okD(1) [OF ok]]
  note found = find_entry_lookup [OF kvs_okD(1) [OF ok], of key]
  show thesis
  proof (cases "lookup_idx s key")
    case None
    then show thesis
      using that [of None "entryPool s"] sh found
      by (simp add: kvs_get_def lookup_def read_str_def)
  next
    case (Some i)
    then obtain c b where C: "contents (entryPool s) i = Some (key, c, b)"
      using key_of_SomeD lookup_idx_SomeD by metis
    then obtain v where v: "decodes z c b v" using kvs_okD(2) [OF ok] unfolding values_ok_def by blast
    obtain e a where e: "pool_get (entryPool s) i = Some e" "e_compressed e = c" "e_value e = Some a"
      "mem (heap (entryPool s)) a = Some b" "e_vSize e = length b"
      by (rule pool_get_contents [OF sh(1) C])
    have lk: "lookup z s key = Some v" using Some C decodes_value_of [OF v] by (simp add: lookup_def)
    show thesis
    proof (cases c)
      case False
      then show thesis
        using that [of "Some a" "entryPool s"] sh found Some e lk v
        by (simp add: kvs_get_def read_str_def decodes_def)
    next
      case True
      let ?p = "(entryPool s)\<lparr>heap := snd (new_buf (v @ [NUL]) (heap (entryPool s)))\<rparr>"
      have "kvs_get z key (hashFunc key) s = (Val (Some (next_addr (heap (entryPool s)))), s\<lparr>entryPool := ?p\<rparr>)"
        using True Some found e v
        by (simp add: kvs_get_def decompressEntry_def decodes_def OPERATION_SUCCESS_def new_buf_def)
      then show thesis
        using that pool_inv_new_buf [OF sh(1), of ?p "v @ [NUL]"] lk v
        by (simp add: read_str_def heap_simps decodes_def)
    qed
  qed
qed

subsection \<open>\<open>del\<close>\<close>

lemma kvs_del_absent:
  "kvs_ok z s free \<Longrightarrow> lookup_idx s key = None \<Longrightarrow> kvs_del key (hashFunc key) s = (Val False, s)"
  using find_entry_lookup [OF kvs_okD(1), of z s free key] by (simp add: kvs_del_def)

lemma kvs_del_present:
  assumes ok: "kvs_ok z s free" and i: "lookup_idx s key = Some i"
  obtains p' where "kvs_del key (hashFunc key) s = (Val True, s\<lparr>entryPool := p'\<rparr>)"
    "kvs_ok z (s\<lparr>entryPool := p'\<rparr>) (i # free)" "contents p' = (contents (entryPool s))(i := None)"
proof -
  note sh = shapeD [OF kvs_okD(1) [OF ok]]
  obtain c b where C: "contents (entryPool s) i = Some (key, c, b)"
    using i key_of_SomeD lookup_idx_SomeD by metis
  obtain p' where p': "deallocate i (entryPool s) = (Val (), p')" "pool_inv p' (i # free)"
    "contents p' = (contents (entryPool s))(i := None)" "capacity p' = capacity (entryPool s)"
    using entry_pool.dealloc_law [OF sh(1) C] by blast
  have "kvs_ok z (s\<lparr>entryPool := p'\<rparr>) (i # free)"
    using ok p' by (auto simp: kvs_ok_def shape_def values_ok_def)
  moreover have "kvs_del key (hashFunc key) s = (Val True, s\<lparr>entryPool := p'\<rparr>)"
    using find_entry_lookup [OF kvs_okD(1) [OF ok], of key] i p'(1) by (simp add: kvs_del_def)
  ultimately show thesis using that p'(3) by blast
qed

text \<open>Deleting an entry does not disturb the search for another key.\<close>

lemma lookup_del_other:
  assumes "key_of (entryPool s) i = Some key" "contents p' = (contents (entryPool s))(i := None)" "k \<noteq> key"
  shows "lookup_idx (s\<lparr>entryPool := p'\<rparr>) k = lookup_idx s k"
    "lookup z (s\<lparr>entryPool := p'\<rparr>) k = lookup z s k"
proof -
  have "hit (s\<lparr>entryPool := p'\<rparr>) k = hit s k"
    using assms by (auto simp: hit_def key_of_def fun_eq_iff)
  then show idx: "lookup_idx (s\<lparr>entryPool := p'\<rparr>) k = lookup_idx s k"
    by (simp add: lookup_idx_def)
  have "i' \<noteq> i" if "lookup_idx s k = Some i'" for i'
    using lookup_idx_SomeD [OF that] assms by auto
  then show "lookup z (s\<lparr>entryPool := p'\<rparr>) k = lookup z s k"
    using assms(2) by (auto simp: lookup_def idx split: option.splits)
qed

subsection \<open>Storing an entry\<close>

lemma insertEntry_ok:
  assumes z: "zlib_ok z" "storable val" and inv: "pool_inv (entryPool s) (x # xs)"
  shows "\<exists>c b p'. insertEntry z key val s = (Val x, s\<lparr>entryPool := p', numEntries := numEntries s + 1\<rparr>) \<and>
    decodes z c b val \<and> pool_inv p' xs \<and> contents p' = (contents (entryPool s))(x \<mapsto> (key, c, b)) \<and>
    capacity p' = capacity (entryPool s)"
proof -
  obtain c b where e: "encode_value z (compressionEnabled s) val = Val (c, b)" "decodes z c b val"
    using encode_value_ok [OF z] by metis
  obtain p1 where p1: "allocate (entryPool s) = (Val x, p1)" "pool_inv (write_entry x key b c p1) xs"
    "contents (write_entry x key b c p1) = (contents (entryPool s))(x \<mapsto> (key, c, b))"
    "capacity (write_entry x key b c p1) = capacity (entryPool s)"
    using entry_pool.insert_new [OF inv, of key b c] by blast
  then show ?thesis
    by (intro exI [of _ c] exI [of _ b] exI [of _ "write_entry x key b c p1"]) (simp add: insertEntry_def e)
qed

lemma store_at_ok:
  assumes ok: "kvs_ok z s free" and free: "free \<noteq> []" and z: "zlib_ok z" "is_cstr key" "storable val"
    and p: "in_table (tableSize s) p" "settable s key p"
  obtains x c b q free' where
    "store_at z key val p s = (Val True, s\<lparr>entryPool := q, numEntries := numEntries s + 1,
       table := write_slot (table s) (fst p) (snd p) x\<rparr>)"
    "kvs_ok z (s\<lparr>entryPool := q, numEntries := numEntries s + 1,
       table := write_slot (table s) (fst p) (snd p) x\<rparr>) free'" "length free \<le> length free' + 1"
    "contents q = (contents (entryPool s))(x \<mapsto> (key, c, b))" "decodes z c b val"
    "key_of (entryPool s) x \<in> {None, Some key}"
    "key_of (entryPool s) (slot (table s) p) = Some key \<Longrightarrow> x = slot (table s) p"
    "key_of (entryPool s) (slot (table s) p) = None \<Longrightarrow> key_of (entryPool s) x = None"
proof -
  note sh = shapeD [OF kvs_okD(1) [OF ok]] and result = that
  have fill: thesis
    if inv: "pool_inv q0 (x # xs)" "capacity q0 = capacity (entryPool s)"
      and st: "store_at z key val p s = fill_slot z key val (fst p) (snd p) (s\<lparr>entryPool := q0\<rparr>)"
      and C0: "\<And>c b. (contents q0)(x \<mapsto> (key, c, b)) = (contents (entryPool s))(x \<mapsto> (key, c, b))"
      and k: "key_of (entryPool s) x \<in> {None, Some key}"
        "key_of (entryPool s) (slot (table s) p) = Some key \<Longrightarrow> x = slot (table s) p"
        "key_of (entryPool s) (slot (table s) p) = None \<Longrightarrow> key_of (entryPool s) x = None"
      and len: "length free \<le> length xs + 1" for q0 x xs
  proof -
    obtain c b q where q: "insertEntry z key val (s\<lparr>entryPool := q0\<rparr>) =
        (Val x, s\<lparr>entryPool := q, numEntries := numEntries s + 1\<rparr>)" "decodes z c b val" "pool_inv q xs"
      "contents q = (contents q0)(x \<mapsto> (key, c, b))" "capacity q = capacity q0"
      using insertEntry_ok [OF z(1,3), of "s\<lparr>entryPool := q0\<rparr>" x xs key] inv(1) by auto
    have x: "x < tableSize s" using free_range [OF inv(1), of x] inv(2) sh(3) by simp
    let ?s' = "s\<lparr>entryPool := q, numEntries := numEntries s + 1,
      table := write_slot (table s) (fst p) (snd p) x\<rparr>"
    have "kvs_ok z ?s' xs"
      using ok q inv(2) sh table_ok_write [OF sh(2) p(1) x] z(2)
      by (auto simp: kvs_ok_def shape_def values_ok_def C0)
    moreover have "store_at z key val p s = (Val True, ?s')"
      using q(1) by (simp add: st fill_slot_def)
    ultimately show thesis using q(2,4) C0 k len by (intro result [where q = q and x = x and free' = xs and c = c and b = b]) simp_all
  qed
  show thesis
  proof (cases "key_of (entryPool s) (slot (table s) p)")
    case None
    obtain x xs where free: "free = x # xs" using free by (cases free) auto
    show thesis
      by (rule fill [of "entryPool s" x xs])
        (use None free sh free_range [OF sh(1), of x] in \<open>auto simp: store_at_def key_of_None\<close>)
  next
    case (Some k)
    let ?i = "slot (table s) p"
    have k: "k = key" using Some p(2) by (simp add: settable_def)
    then obtain c b where C: "contents (entryPool s) ?i = Some (key, c, b)" using Some key_of_SomeD by metis
    obtain q0 where q0: "deallocate ?i (entryPool s) = (Val (), q0)" "pool_inv q0 (?i # free)"
      "contents q0 = (contents (entryPool s))(?i := None)" "capacity q0 = capacity (entryPool s)"
      using entry_pool.dealloc_law [OF sh(1) C] by blast
    show thesis
      by (rule fill [of q0 ?i free]) (use Some k q0 in \<open>auto simp: store_at_def\<close>)
  qed
qed

text \<open>What a stored entry does to the searches, when \<open>p\<close> is the first slot that would take it.\<close>

lemma lookup_stored:
  assumes t: "table_ok (table s) n" "tableSize s = n" "0 < n"
    and p: "find (settable s key) (positions n (hashFunc key)) = Some p"
    and x: "key_of (entryPool s) x \<in> {None, Some key}"
    and s': "contents (entryPool s') = (contents (entryPool s))(x \<mapsto> (key, c, b))"
      "table s' = write_slot (table s) (fst p) (snd p) x" "tableSize s' = n"
  shows "lookup_idx s' key = Some x"
    "k \<noteq> key \<Longrightarrow> lookup_idx s' k = lookup_idx s k" "k \<noteq> key \<Longrightarrow> lookup z s' k = lookup z s k"
proof -
  have p_in: "p \<in> set (positions n (hashFunc key))" and p_st: "settable s key p" using find_SomeD [OF p] by auto
  have pt: "in_table n p" using in_table_positions [OF t(3) p_in] .
  have sl: "slot (table s') q = (if q = p then x else slot (table s) q)" if "in_table n q" for q
    using slot_write [OF t(1) pt that] s'(2) by simp
  have ko: "key_of (entryPool s') y = (if y = x then Some key else key_of (entryPool s) y)" for y
    using s'(1) by (simp add: key_of_def)
  have "find (hit s' key) (positions n (hashFunc key)) = Some p"
  proof (rule find_update_hit [OF p])
    show "hit s' key p" using sl [OF pt] ko by (simp add: hit_def)
    show "settable s key y" if "y \<noteq> p" "y \<in> set (positions n (hashFunc key))" "hit s' key y" for y
      using that sl [OF in_table_positions [OF t(3) that(2)]] ko x
      by (auto simp: hit_def settable_def split: if_splits)
  qed
  then show "lookup_idx s' key = Some x" using sl [OF pt] s'(3) by (simp add: lookup_idx_def)
  assume k: "k \<noteq> key"
  have hits: "hit s' k q = hit s k q" if "q \<in> set (positions n (hashFunc k))" for q
    using sl [OF in_table_positions [OF t(3) that]] ko k p_st x by (auto simp: hit_def settable_def)
  have "find (hit s' k) (positions n (hashFunc k)) = find (hit s k) (positions n (hashFunc k))"
    by (rule find_cong_weak) (rule hits)
  moreover have "slot (table s') q = slot (table s) q"
    if q: "find (hit s k) (positions n (hashFunc k)) = Some q" for q
  proof -
    have "in_table n q" "hit s k q" using find_SomeD [OF q] in_table_positions [OF t(3)] by blast+
    then show ?thesis using sl p_st k by (auto simp: hit_def settable_def)
  qed
  ultimately show idx: "lookup_idx s' k = lookup_idx s k"
    using t(2) s'(3) by (cases "find (hit s k) (positions n (hashFunc k))") (simp_all add: lookup_idx_def)
  have "y \<noteq> x" if "lookup_idx s k = Some y" for y
    using lookup_idx_SomeD [OF that] k x by auto
  then show "lookup z s' k = lookup z s k"
    using s'(1) by (auto simp: lookup_def idx split: option.splits)
qed

end
