(* ===== verification/Kvs_Grow.thy ===== *)
theory Kvs_Grow
  imports Kvs_Inv
begin

section \<open>Growing the table, and \<open>set\<close> as a whole\<close>

text \<open>
  \<open>migrate_all\<close> moves every live entry to the first unused slot of its probe sequence in the new
  table, or reports it lost. From this follow the effect of \<^verbatim>\<open>resize\<close> and of \<^verbatim>\<open>set\<close>.
\<close>

subsection \<open>Migration\<close>

text \<open>Entry \<open>x\<close> is found along the probe sequence of \<open>k\<close> before any unused slot.\<close>

definition settled :: "buckets \<Rightarrow> nat \<Rightarrow> nat \<Rightarrow> bytes \<Rightarrow> bool" where
  "settled t n x k \<longleftrightarrow>
     (\<exists>q. find (\<lambda>q. slot t q = 0 \<or> slot t q = x) (positions n (hashFunc k)) = Some q \<and> slot t q = x)"

definition keeps_slots :: "nat \<Rightarrow> buckets \<Rightarrow> buckets \<Rightarrow> bool" where
  "keeps_slots n t t' \<longleftrightarrow> (\<forall>q. in_table n q \<longrightarrow> slot t q \<noteq> 0 \<longrightarrow> slot t' q = slot t q)"

definition migrated :: "pool_t \<Rightarrow> nat \<Rightarrow> nat list \<Rightarrow> buckets \<Rightarrow> buckets \<Rightarrow> nat list \<Rightarrow> bool" where
  "migrated p n xs t t' lost \<longleftrightarrow> table_ok t' n \<and> set lost \<subseteq> set xs \<and> keeps_slots n t t' \<and>
     (\<forall>q. in_table n q \<longrightarrow> slot t' q \<noteq> slot t q \<longrightarrow> key_of p (slot t' q) \<noteq> None) \<and>
     (\<forall>x\<in>set xs. \<forall>k. key_of p x = Some k \<longrightarrow> x \<notin> set lost \<longrightarrow> settled t' n x k)"

lemma settled_mono:
  assumes "settled t n x k" "keeps_slots n t t'" "x \<noteq> 0" "0 < n"
  shows "settled t' n x k"
proof -
  obtain q where q: "find (\<lambda>q. slot t q = 0 \<or> slot t q = x) (positions n (hashFunc k)) = Some q" "slot t q = x"
    using assms(1) by (auto simp: settled_def)
  have keep: "slot t' y = slot t y" if "y \<in> set (positions n (hashFunc k))" "slot t y \<noteq> 0" for y
    using that in_table_positions [OF assms(4)] assms(2) unfolding keeps_slots_def by blast
  have q': "slot t' q = x" using keep [of q] find_SomeD [OF q(1)] q(2) assms(3) by simp
  have "find (\<lambda>q. slot t' q = 0 \<or> slot t' q = x) (positions n (hashFunc k)) = Some q"
    by (rule find_update_hit [OF q(1)]) (use q' keep in metis)+
  with q' show ?thesis by (auto simp: settled_def)
qed

lemma settled_in_positions:
  "settled t n x k \<Longrightarrow> \<exists>q\<in>set (positions n (hashFunc k)). slot t q = x"
  by (auto simp: settled_def dest: find_SomeD)

lemma migrateEntry_ok:
  assumes inv: "pool_inv p free" "capacity p = n" and t: "table_ok t n" and x: "x < n" "x \<noteq> 0"
  shows "\<exists>t' lost. migrateEntry p n x (t, log) = (Val (), (t', log @ lost)) \<and> migrated p n [x] t t' lost"
proof -
  have n: "0 < n" using x by simp
  obtain e where e: "pool_get p x = Some e" "e_key e = key_of p x"
    using pool_get_ok [OF inv(1)] x(1) inv(2) by auto
  note unused = find_unused_eq [OF t n, where as = "[0..<MAX_READ_WRITE_ATTEMPTS]", folded positions_def]
  show ?thesis
  proof (cases "key_of p x")
    case None
    then show ?thesis using e t
      by (intro exI [of _ t] exI [of _ "[]"])
        (simp add: migrateEntry_def migrated_def keeps_slots_def)
  next
    case (Some k)
    show ?thesis
    proof (cases "find (\<lambda>p. slot t p = 0) (positions n (hashFunc k))")
      case None
      then show ?thesis using e Some t unused
        by (intro exI [of _ t] exI [of _ "[x]"])
          (simp add: migrateEntry_def migrated_def keeps_slots_def)
    next
      case (Some q)
      note k = \<open>key_of p x = Some k\<close>
      note hit = find_SomeD [OF Some]
      then have q: "in_table n q" using in_table_positions [OF n] by blast
      let ?t' = "write_slot t (fst q) (snd q) x"
      note sl = slot_write [OF t q, of _ x]
      have "settled ?t' n x k"
      proof -
        have "slot ?t' q = 0 \<or> slot ?t' q = x" using sl [OF q] by simp
        from find_widened [OF Some, of "\<lambda>q. slot ?t' q = 0 \<or> slot ?t' q = x", OF this]
        obtain y where y: "find (\<lambda>q. slot ?t' q = 0 \<or> slot ?t' q = x) (positions n (hashFunc k)) = Some y"
          "y = q \<or> slot t y \<noteq> 0" by blast
        have "in_table n y" using find_SomeD [OF y(1)] in_table_positions [OF n] by blast
        moreover have "slot ?t' y = 0 \<or> slot ?t' y = x" using find_SomeD [OF y(1)] by simp
        ultimately have "slot ?t' y = x" using y(2) sl by (auto split: if_splits)
        with y(1) show ?thesis by (auto simp: settled_def)
      qed
      moreover have "keeps_slots n t ?t'" using sl hit by (auto simp: keeps_slots_def)
      moreover have "key_of p (slot ?t' y) \<noteq> None" if "in_table n y" "slot ?t' y \<noteq> slot t y" for y
        using sl [OF that(1)] that(2) k by (auto split: if_splits)
      ultimately have "migrated p n [x] t ?t' []"
        using table_ok_write [OF t q x(1)] k by (simp add: migrated_def)
      then show ?thesis
        using e k Some unused
        by (intro exI [of _ ?t'] exI [of _ "[]"]) (cases q, simp add: migrateEntry_def)
    qed
  qed
qed

lemma migrated_trans:
  assumes m1: "migrated p n [x] t t1 l1" and m2: "migrated p n xs t1 t2 l2" and n: "0 < n"
    and inv: "pool_inv p free"
  shows "migrated p n (x # xs) t t2 (l1 @ l2)"
proof -
  have keep: "keeps_slots n t t1" "keeps_slots n t1 t2" using m1 m2 by (simp_all add: migrated_def)
  then have "keeps_slots n t t2" by (simp add: keeps_slots_def)
  moreover have "key_of p (slot t2 q) \<noteq> None" if "in_table n q" "slot t2 q \<noteq> slot t q" for q
    using that m1 m2 unfolding migrated_def by metis
  moreover have "settled t2 n y k" if "y \<in> set (x # xs)" "key_of p y = Some k" "y \<notin> set (l1 @ l2)" for y k
  proof (cases "y = x")
    case True
    then have "settled t1 n y k" using that m1 by (simp add: migrated_def)
    moreover have "y \<noteq> 0" using that(2) key_of_0 [OF inv] by (metis option.distinct(1))
    ultimately show ?thesis using settled_mono keep(2) n by blast
  next
    case False
    then show ?thesis using that m2 by (simp add: migrated_def)
  qed
  ultimately show ?thesis using m1 m2 unfolding migrated_def by auto
qed

lemma migrate_all_ok:
  assumes inv: "pool_inv p free" "capacity p = n" and "table_ok t n" and "\<forall>x\<in>set xs. x < n"
  shows "\<exists>t' lost. migrate_all p n xs (t, log) = (Val (), (t', log @ lost)) \<and> migrated p n xs t t' lost"
  using assms(3,4)
proof (induction xs arbitrary: t log)
  case Nil
  then show ?case by (simp add: migrated_def keeps_slots_def)
next
  case (Cons x xs)
  have n: "0 < n" using pool_invD(2) [OF inv(1)] inv(2) by simp
  show ?case
  proof (cases "x = 0")
    case True
    obtain t' lost where "migrate_all p n xs (t, log) = (Val (), (t', log @ lost))" "migrated p n xs t t' lost"
      using Cons.IH [of t log] Cons.prems by auto
    moreover from this(2) have "migrated p n (x # xs) t t' lost"
      using True key_of_0 [OF inv(1)] by (auto simp: migrated_def)
    ultimately show ?thesis using True by auto
  next
    case False
    obtain t1 l1 where m1: "migrateEntry p n x (t, log) = (Val (), (t1, log @ l1))" "migrated p n [x] t t1 l1"
      using migrateEntry_ok [OF inv Cons.prems(1) _ False, of log] Cons.prems(2) by auto
    then have "table_ok t1 n" by (simp add: migrated_def)
    then obtain t2 l2 where m2: "migrate_all p n xs (t1, log @ l1) = (Val (), (t2, log @ l1 @ l2))"
      "migrated p n xs t1 t2 l2"
      using Cons.IH [of t1 "log @ l1"] Cons.prems(2) by auto
    show ?thesis
      using m1 m2 False migrated_trans [OF m1(2) m2(2) n inv(1)]
      by (intro exI [of _ t2] exI [of _ "l1 @ l2"]) simp
  qed
qed

subsection \<open>\<open>resize\<close>\<close>

definition exhausted :: "kvs \<Rightarrow> bool" where
  "exhausted s \<longleftrightarrow> usePrimeNumbers s \<and> primegen s = []"

definition next_table_size :: "kvs \<Rightarrow> nat" where
  "next_table_size s = (if usePrimeNumbers s then hd (primegen s) else tableSize s * 2)"

definition grown :: "kvs \<Rightarrow> pool_t \<Rightarrow> buckets \<Rightarrow> nat list \<Rightarrow> kvs" where
  "grown s p t lost = s\<lparr>entryPool := p, table := t, tableSize := next_table_size s,
     primegen := (if usePrimeNumbers s then tl (primegen s) else primegen s),
     numResizes := numResizes s + 1, cerr := cerr s @ lost\<rparr>"

lemma grown_simps [simp]:
  "entryPool (grown s p t lost) = p" "table (grown s p t lost) = t"
  "tableSize (grown s p t lost) = next_table_size s" "cerr (grown s p t lost) = cerr s @ lost"
  "numEntries (grown s p t lost) = numEntries s" "isResizing (grown s p t lost) = isResizing s"
  "usePrimeNumbers (grown s p t lost) = usePrimeNumbers s"
  by (simp_all add: grown_def)

lemma next_table_size_grows: "kvs_ok z s free \<Longrightarrow> \<not> exhausted s \<Longrightarrow> tableSize s < next_table_size s"
  using kvs_okD(4) [of z s free] shapeD(4) [OF kvs_okD(1), of z s free]
  by (cases "primegen s") (auto simp: next_table_size_def exhausted_def)

lemma resize_exhausted:
  "exhausted s \<Longrightarrow> resize s = (Exn ''Prime number generator reached it's limit.'', s\<lparr>isResizing := True\<rparr>)"
  by (simp add: resize_def exhausted_def PopNext_def)

lemma resize_ok:
  assumes ok: "kvs_ok z s free" and more: "\<not> exhausted s"
  obtains p t lost where "resize s = (Val (), grown s p t lost)"
    "kvs_ok z (grown s p t lost) [tableSize s..<next_table_size s]"
    "contents p = contents (entryPool s)"
    "migrated p (next_table_size s) (concat (table s)) (initializeTable (next_table_size s)) t lost"
proof -
  note sh = shapeD [OF kvs_okD(1) [OF ok]]
  let ?n = "next_table_size s"
  have grow: "tableSize s < ?n" using next_table_size_grows [OF ok more] .
  obtain p where p: "expandPool ?n (entryPool s) = (Val (), p)" "pool_inv p [tableSize s..<?n]"
    "contents p = contents (entryPool s)" "capacity p = ?n"
    using expandPool_grows [OF sh(1), of ?n] sh(3) grow by metis
  have xs: "\<forall>x\<in>set (concat (table s)). x < ?n"
    using sh(2) grow by (fastforce simp: table_ok_def)
  have "table_ok (initializeTable ?n) ?n" using table_ok_initial grow by simp
  from migrate_all_ok [OF p(2,4) this xs, of "cerr s"] obtain t lost where m: "migrate_all p ?n (concat (table s)) (initializeTable ?n, cerr s) =
      (Val (), (t, cerr s @ lost))" "migrated p ?n (concat (table s)) (initializeTable ?n) t lost"
    by blast
  have "resize s = (Val (), grown s p t lost)"
  proof (cases "usePrimeNumbers s")
    case True
    then have "primegen s = ?n # tl (primegen s)"
      using more by (cases "primegen s") (auto simp: exhausted_def next_table_size_def)
    then have "PopNext (primegen s) = (Val ?n, tl (primegen s))" by (metis PopNext_def list.simps(5))
    with True p(1) m(1) kvs_okD(3) [OF ok] show ?thesis by (simp add: resize_def grown_def)
  next
    case False
    then have "tableSize s * 2 = ?n" by (simp add: next_table_size_def)
    with False p(1) m(1) kvs_okD(3) [OF ok] show ?thesis by (simp add: resize_def grown_def)
  qed
  moreover have "usePrimeNumbers s \<Longrightarrow> sorted_wrt (<) (?n # tl (primegen s))"
    using kvs_okD(4) [OF ok] more by (cases "primegen s") (auto simp: exhausted_def next_table_size_def)
  then have "kvs_ok z (grown s p t lost) [tableSize s..<?n]"
    using ok p m(2) by (auto simp: kvs_ok_def shape_def migrated_def grown_def)
  ultimately show thesis using that p(3) m(2) by blast
qed

subsection \<open>\<open>set\<close>\<close>

definition prepare :: "kvs \<Rightarrow> unit cpp \<times> kvs" where
  "prepare s = (if threshold (tableSize s) \<le> numEntries s \<and> \<not> isResizing s then resize s else (Val (), s))"

lemma kvs_set_prepare:
  "kvs_set z key val h s =
     and_then (prepare s) (\<lambda>_ s. set_attempts z key val h [0..<MAX_READ_WRITE_ATTEMPTS] s) id"
  by (simp add: kvs_set_def prepare_def threshold_def)

lemma threshold_grows: "m \<le> n \<Longrightarrow> threshold n \<le> (n - m) + threshold m"
  by (simp add: threshold_def RESIZE_THRESHOLD_PERCENTAGE_def)

text \<open>Before the insertion the pool has a free entry, whether or not the table had to grow.\<close>

lemma prepare_ok:
  assumes inv: "kvs_inv z s" and more: "\<not> (exhausted s \<and> threshold (tableSize s) \<le> numEntries s)"
  obtains s1 free where "prepare s = (Val (), s1)" "kvs_ok z s1 free" "free \<noteq> []"
    "threshold (tableSize s1) \<le> length free + numEntries s1"
proof -
  obtain free where ok: "kvs_ok z s free" and thr: "threshold (tableSize s) \<le> length free + numEntries s"
    using inv by (auto simp: kvs_inv_def)
  show thesis
  proof (cases "threshold (tableSize s) \<le> numEntries s")
    case True
    then have m: "\<not> exhausted s" using more by simp
    obtain p t lost where r: "resize s = (Val (), grown s p t lost)"
      "kvs_ok z (grown s p t lost) [tableSize s..<next_table_size s]"
      using resize_ok [OF ok m] by metis
    have n: "tableSize s < next_table_size s" using next_table_size_grows [OF ok m] .
    then have "threshold (next_table_size s) \<le> (next_table_size s - tableSize s) + numEntries s"
      using threshold_grows [of "tableSize s" "next_table_size s"] True by simp
    then show thesis
      using that [of "grown s p t lost"] r n True kvs_okD(3) [OF ok] by (simp add: prepare_def)
  next
    case False
    with thr have "free \<noteq> []" by auto
    with False show thesis using that [of s free] ok thr by (simp add: prepare_def)
  qed
qed

text \<open>The slot that \<^verbatim>\<open>set\<close> chooses, and its two outcomes.\<close>

definition target :: "kvs \<Rightarrow> bytes \<Rightarrow> (nat \<times> nat) option" where
  "target s key = find (settable s key) (positions (tableSize s) (hashFunc key))"

lemma kvs_set_full:
  assumes "prepare s = (Val (), s1)" "kvs_ok z s1 free" "target s1 key = None"
  shows "\<exists>c. kvs_set z key val (hashFunc key) s = (Val False, s1\<lparr>numCollisions := c\<rparr>)"
  using set_attempts_eq [OF kvs_okD(1) [OF assms(2)], of z key val "hashFunc key" "[0..<MAX_READ_WRITE_ATTEMPTS]"]
    assms by (auto simp: kvs_set_prepare target_def positions_def)

lemma kvs_set_stores:
  assumes prep: "prepare s = (Val (), s1)" and ok: "kvs_ok z s1 free" "free \<noteq> []"
    "threshold (tableSize s1) \<le> length free + numEntries s1"
    and z: "zlib_ok z" "is_cstr key" "storable val" and p: "target s1 key = Some p"
  obtains s' x c b where "kvs_set z key val (hashFunc key) s = (Val True, s')" "kvs_inv z s'"
    "contents (entryPool s') = (contents (entryPool s1))(x \<mapsto> (key, c, b))" "decodes z c b val"
    "table s' = write_slot (table s1) (fst p) (snd p) x" "tableSize s' = tableSize s1"
    "cerr s' = cerr s1" "numEntries s' = numEntries s1 + 1" "key_of (entryPool s1) x \<in> {None, Some key}"
    "hit s1 key p \<Longrightarrow> x = slot (table s1) p"
    "key_of (entryPool s1) (slot (table s1) p) = None \<Longrightarrow> key_of (entryPool s1) x = None"
proof -
  obtain cc where run: "kvs_set z key val (hashFunc key) s = store_at z key val p (s1\<lparr>numCollisions := cc\<rparr>)"
    using set_attempts_eq [OF kvs_okD(1) [OF ok(1)], of z key val "hashFunc key" "[0..<MAX_READ_WRITE_ATTEMPTS]"]
      prep p by (auto simp: kvs_set_prepare target_def positions_def)
  let ?s2 = "s1\<lparr>numCollisions := cc\<rparr>"
  have ok2: "kvs_ok z ?s2 free" using ok(1) by (simp add: kvs_ok_def shape_def)
  have "in_table (tableSize s1) p" "settable s1 key p"
    using find_SomeD [OF p [unfolded target_def]] in_table_positions shapeD(4) [OF kvs_okD(1) [OF ok(1)]]
    by blast+
  then have pt: "in_table (tableSize ?s2) p" "settable ?s2 key p" by (simp_all add: settable_def)
  show thesis
  proof (rule store_at_ok [OF ok2 ok(2) z pt])
    fix x c b q free'
    let ?s' = "?s2\<lparr>entryPool := q, numEntries := numEntries ?s2 + 1,
      table := write_slot (table ?s2) (fst p) (snd p) x\<rparr>"
    assume st: "store_at z key val p ?s2 = (Val True, ?s')" "kvs_ok z ?s' free'" "length free \<le> length free' + 1"
      and C: "contents q = (contents (entryPool ?s2))(x \<mapsto> (key, c, b))" "decodes z c b val"
      and x: "key_of (entryPool ?s2) x \<in> {None, Some key}"
        "key_of (entryPool ?s2) (slot (table ?s2) p) = Some key \<Longrightarrow> x = slot (table ?s2) p"
        "key_of (entryPool ?s2) (slot (table ?s2) p) = None \<Longrightarrow> key_of (entryPool ?s2) x = None"
    have "threshold (tableSize ?s') \<le> length free' + numEntries ?s'" using ok(3) st(3) by simp
    then have "kvs_inv z ?s'" using st(2) unfolding kvs_inv_def by blast
    then show thesis
      using that [of ?s' x c b] run st(1) C x by (simp add: hit_def)
  qed
qed

end
