(* ===== verification/Kvs_Refine.thy ===== *)
theory Kvs_Refine
  imports Kvs_Grow
begin

section \<open>The store refines a map\<close>

text \<open>
  \<open>clean\<close> says that a search for the key of any live entry finds that entry: no key is stored
  twice and no entry is out of reach. \<open>set_safe s key\<close> says that \<^verbatim>\<open>set\<close> would choose the slot where
  \<^verbatim>\<open>get\<close> finds the key. Under both the store behaves as a map; \<^verbatim>\<open>del\<close> may break the second for
  other keys, every other operation keeps it.
\<close>

definition clean :: "kvs \<Rightarrow> bool" where
  "clean s \<longleftrightarrow> (\<forall>i k. key_of (entryPool s) i = Some k \<longrightarrow> lookup_idx s k = Some i)"

definition set_safe :: "kvs \<Rightarrow> bytes \<Rightarrow> bool" where
  "set_safe s key = (case find (hit s key) (positions (tableSize s) (hashFunc key)) of
       None \<Rightarrow> True
     | Some p \<Rightarrow> target s key = Some p)"

definition tidy :: "kvs \<Rightarrow> bool" where
  "tidy s \<longleftrightarrow> (\<forall>key. set_safe s key)"

subsection \<open>Growing\<close>

lemma grown_lookup_idx:
  assumes ok: "kvs_ok z s free" and cl: "clean s" and more: "\<not> exhausted s"
    and p: "contents p = contents (entryPool s)"
    and m: "migrated p (next_table_size s) (concat (table s)) (initializeTable (next_table_size s)) t lost"
    and found: "\<And>i. lookup_idx s k = Some i \<Longrightarrow> i \<notin> set lost"
  shows "lookup_idx (grown s p t lost) k = lookup_idx s k"
proof -
  note sh = shapeD [OF kvs_okD(1) [OF ok]]
  let ?s' = "grown s p t lost"
  have ko: "key_of p = key_of (entryPool s)" using p by (simp add: key_of_def fun_eq_iff)
  show ?thesis
  proof (cases "lookup_idx s k")
    case None
    then have "key_of (entryPool s) i \<noteq> Some k" for i using cl unfolding clean_def by (metis option.distinct(1))
    then show ?thesis using None lookup_idx_None_iff [of ?s' k] ko by simp
  next
    case (Some i)
    then have i: "key_of (entryPool s) i = Some k" by (rule lookup_idx_SomeD)
    obtain q where "in_table (tableSize s) q" "slot (table s) q = i"
      using Some in_table_positions [OF sh(4)] by (metis lookup_idx_SomeE)
    then have "i \<in> set (concat (table s))" using slot_in_concat [OF sh(2)] by blast
    then have "settled t (next_table_size s) i k" using m i ko found [OF Some] by (auto simp: migrated_def)
    then obtain q where q: "q \<in> set (positions (next_table_size s) (hashFunc k))" "slot t q = i"
      using settled_in_positions by blast
    have "lookup_idx ?s' k \<noteq> None"
    proof
      assume "lookup_idx ?s' k = None"
      then have "key_of p (slot t q) \<noteq> Some k" using q(1) lookup_idx_None_iff [of ?s' k] by simp
      with q(2) i ko show False by simp
    qed
    then obtain j where j: "lookup_idx ?s' k = Some j" by blast
    then have "key_of (entryPool s) j = Some k" using lookup_idx_SomeD [OF j] ko by simp
    then have "j = i" using cl Some unfolding clean_def by (metis option.inject)
    with j Some show ?thesis by simp
  qed
qed

lemma lookup_same_contents:
  "contents (entryPool s') = contents (entryPool s) \<Longrightarrow> lookup_idx s' k = lookup_idx s k \<Longrightarrow>
   lookup z s' k = lookup z s k"
  by (simp add: lookup_def split: option.split)

lemma grown_tidy:
  assumes ok: "kvs_ok z s free" and cl: "clean s" and more: "\<not> exhausted s"
    and p: "contents p = contents (entryPool s)" and inv: "pool_inv p free'"
    and m: "migrated p (next_table_size s) (concat (table s)) (initializeTable (next_table_size s)) t []"
  shows "tidy (grown s p t [])"
  unfolding tidy_def
proof
  fix k
  note sh = shapeD [OF kvs_okD(1) [OF ok]]
  let ?s' = "grown s p t []" and ?n = "next_table_size s"
  let ?ps = "positions ?n (hashFunc k)"
  have n: "0 < ?n" using next_table_size_grows [OF ok more] by simp
  have ko: "key_of p = key_of (entryPool s)" using p by (simp add: key_of_def fun_eq_iff)
  show "set_safe ?s' k"
  proof (cases "find (hit ?s' k) ?ps")
    case None
    then show ?thesis by (simp add: set_safe_def)
  next
    case (Some q)
    then have live: "key_of p (slot t q) = Some k" using find_SomeD [OF Some] by (simp add: hit_def)
    have uniq: "key_of p i = Some k \<longleftrightarrow> i = slot t q" for i
      using live cl ko unfolding clean_def by (metis option.inject)
    have idx: "lookup_idx s k = Some (slot t q)" using live cl ko by (simp add: clean_def)
    obtain q0 where "in_table (tableSize s) q0" "slot (table s) q0 = slot t q"
      using idx in_table_positions [OF sh(4)] by (metis lookup_idx_SomeE)
    then have "slot t q \<in> set (concat (table s))" using slot_in_concat [OF sh(2)] by metis
    then have st: "settled t ?n (slot t q) k" using m live by (auto simp: migrated_def)
    then obtain q1 where q1: "find (\<lambda>y. slot t y = 0 \<or> slot t y = slot t q) ?ps = Some q1"
      "slot t q1 = slot t q" by (auto simp: settled_def)
    have zero: "key_of p (slot t y) = None \<longleftrightarrow> slot t y = 0" if "y \<in> set ?ps" for y
      using in_table_positions [OF n that] slot_initial [of ?n y] key_of_0 [OF inv] m
      unfolding migrated_def by metis
    have "find (settable ?s' k) ?ps = Some q1"
      using q1(1) by (subst find_cong_weak [of _ _ "\<lambda>y. slot t y = 0 \<or> slot t y = slot t q"])
        (auto simp: settable_def zero uniq)
    moreover from this have "find (hit ?s' k) ?ps = Some q1"
      by (rule find_update_hit) (use q1(2) live in \<open>auto simp: hit_def settable_def\<close>)
    ultimately show ?thesis by (simp add: set_safe_def target_def)
  qed
qed

lemma clean_grown:
  assumes "clean s" "contents p = contents (entryPool s)"
    "\<And>k. lookup_idx (grown s p t lost) k = lookup_idx s k"
  shows "clean (grown s p t lost)"
  using assms by (auto simp: clean_def key_of_def)

lemma resize_clean:
  assumes ok: "kvs_ok z s free" and cl: "clean s" and r: "resize s = (Val (), s')" and log: "cerr s' = cerr s"
  shows "clean s'" "lookup z s' = lookup z s" "tidy s'"
proof -
  have more: "\<not> exhausted s" using r resize_exhausted by fastforce
  obtain p t lost where g: "resize s = (Val (), grown s p t lost)"
    "kvs_ok z (grown s p t lost) [tableSize s..<next_table_size s]" "contents p = contents (entryPool s)"
    "migrated p (next_table_size s) (concat (table s)) (initializeTable (next_table_size s)) t lost"
    using resize_ok [OF ok more] by metis
  then have s': "s' = grown s p t lost" using r by simp
  then have lost: "lost = []" using log by simp
  have idx: "lookup_idx s' k = lookup_idx s k" for k
    unfolding s' by (rule grown_lookup_idx [OF ok cl more g(3,4)]) (simp add: lost)
  show "clean s'" using clean_grown [OF cl g(3)] idx s' by simp
  show "lookup z s' = lookup z s"
    using lookup_same_contents [of s' s] idx g(3) s' by (auto simp: fun_eq_iff)
  have "pool_inv p [tableSize s..<next_table_size s]"
    using shapeD(1) [OF kvs_okD(1) [OF g(2)]] by simp
  then show "tidy s'" using grown_tidy [OF ok cl more g(3)] g(4) s' lost by simp
qed

subsection \<open>Storing\<close>

lemma target_hit:
  assumes "set_safe s key" "target s key = Some p" "lookup_idx s key = Some i"
  shows "hit s key p \<and> slot (table s) p = i"
proof -
  obtain q where q: "find (hit s key) (positions (tableSize s) (hashFunc key)) = Some q" "slot (table s) q = i"
    using assms(3) by (auto simp: lookup_idx_def)
  then have "p = q" using assms(1,2) by (simp add: set_safe_def)
  then show ?thesis using q find_SomeD [OF q(1)] by simp
qed

lemma stored_clean:
  assumes cl: "clean s" and safe: "set_safe s key" and p: "target s key = Some p"
    and sh: "shape s free" and x: "key_of (entryPool s) x \<in> {None, Some key}"
      "hit s key p \<Longrightarrow> x = slot (table s) p"
    and s': "contents (entryPool s') = (contents (entryPool s))(x \<mapsto> (key, c, b))"
      "table s' = write_slot (table s) (fst p) (snd p) x" "tableSize s' = tableSize s"
  shows "clean s'"
  unfolding clean_def
proof (intro allI impI)
  fix i k assume k: "key_of (entryPool s') i = Some k"
  note st = lookup_stored [OF shapeD(2) [OF sh] refl shapeD(4) [OF sh] p [unfolded target_def] x(1) s']
  show "lookup_idx s' k = Some i"
  proof (cases "i = x")
    case True
    then show ?thesis using k s'(1) st(1) by (simp add: key_of_def)
  next
    case False
    then have old: "key_of (entryPool s) i = Some k" using k s'(1) by (simp add: key_of_def)
    then have idx: "lookup_idx s k = Some i" using cl by (simp add: clean_def)
    then have "k \<noteq> key" using target_hit [OF safe p] x(2) False by auto
    then show ?thesis using st(2) idx by simp
  qed
qed

lemma stored_set_safe:
  assumes p: "target s key = Some p" and sh: "shape s free" and x: "key_of (entryPool s) x \<in> {None, Some key}"
    and s': "contents (entryPool s') = (contents (entryPool s))(x \<mapsto> (key, c, b))"
      "table s' = write_slot (table s) (fst p) (snd p) x" "tableSize s' = tableSize s"
    and safe: "k \<noteq> key \<Longrightarrow> set_safe s k"
  shows "set_safe s' k"
proof -
  let ?n = "tableSize s" and ?ps = "positions (tableSize s) (hashFunc k)"
  note t = shapeD(2,4) [OF sh]
  note pD = find_SomeD [OF p [unfolded target_def]]
  have pt: "in_table ?n p" using in_table_positions [OF t(2)] pD by blast
  have sl: "slot (table s') q = (if q = p then x else slot (table s) q)" if "q \<in> set ?ps" for q
    using slot_write [OF t(1) pt in_table_positions [OF t(2) that]] s'(2) by simp
  have ko: "key_of (entryPool s') y = (if y = x then Some key else key_of (entryPool s) y)" for y
    using s'(1) by (simp add: key_of_def)
  have less: "settable s k y" if "y \<in> set ?ps" "settable s' k y" "y \<noteq> p" for y
    using that sl [OF that(1)] ko x by (auto simp: settable_def split: if_splits)
  show ?thesis
  proof (cases "find (hit s' k) ?ps")
    case None
    then show ?thesis by (simp add: set_safe_def s'(3))
  next
    case (Some q)
    have "settable s' k q" using find_SomeD [OF Some] by (simp add: hit_def settable_def)
    have "target s k = Some q"
    proof (cases "k = key")
      case True
      have "find (hit s' k) ?ps = Some p"
        by (rule find_update_hit [OF p [unfolded target_def True [symmetric]]])
          (use pD True sl ko less in \<open>auto simp: hit_def settable_def\<close>)
      with Some p True show ?thesis by simp
    next
      case False
      have "hit s' k y = hit s k y" if "y \<in> set ?ps" for y
        using sl [OF that] ko False pD x by (auto simp: hit_def settable_def)
      then have "find (hit s k) ?ps = Some q" using Some by (simp cong: find_cong_weak)
      then show ?thesis using safe [OF False] by (simp add: set_safe_def)
    qed
    then have "find (settable s' k) ?ps = Some q" unfolding target_def
    proof (rule find_update_hit)
      show "settable s k y" if "y \<noteq> q" "y \<in> set ?ps" "settable s' k y" for y
      proof (cases "y = p")
        case True
        then show ?thesis using that sl ko pD by (auto simp: settable_def)
      qed (use that less in blast)
    qed fact
    then show ?thesis using Some by (simp add: set_safe_def target_def s'(3))
  qed
qed

lemma tidy_cong:
  assumes "hit s' = hit s" "settable s' = settable s" "tableSize s' = tableSize s"
  shows "tidy s' = tidy s"
proof -
  have t: "target s' = target s" using assms by (intro ext) (simp add: target_def)
  show ?thesis unfolding tidy_def set_safe_def t assms ..
qed

lemma full_unchanged:
  "lookup z (s\<lparr>numCollisions := c\<rparr>) = lookup z s" "lookup_idx (s\<lparr>numCollisions := c\<rparr>) = lookup_idx s"
  "clean (s\<lparr>numCollisions := c\<rparr>) = clean s" "tidy (s\<lparr>numCollisions := c\<rparr>) = tidy s"
  "kvs_inv z (s\<lparr>numCollisions := c\<rparr>) = kvs_inv z s"
proof -
  show idx: "lookup_idx (s\<lparr>numCollisions := c\<rparr>) = lookup_idx s"
    by (simp add: lookup_idx_def hit_def [abs_def] fun_eq_iff)
  then show "lookup z (s\<lparr>numCollisions := c\<rparr>) = lookup z s"
    by (intro ext lookup_same_contents) simp_all
  show "clean (s\<lparr>numCollisions := c\<rparr>) = clean s" by (simp add: clean_def idx)
  show "tidy (s\<lparr>numCollisions := c\<rparr>) = tidy s"
    by (rule tidy_cong) (simp_all add: hit_def settable_def fun_eq_iff)
  show "kvs_inv z (s\<lparr>numCollisions := c\<rparr>) = kvs_inv z s"
    by (simp add: kvs_inv_def kvs_ok_def shape_def)
qed

subsection \<open>The three operations on a clean store\<close>

text \<open>
  The calls as their users see them: \<open>kvs_fetch\<close> is \<^verbatim>\<open>get\<close> with the returned string read.
  \<open>put_ready\<close> collects what a \<^verbatim>\<open>set\<close> needs to act as a map update: C strings below 1 GiB, a size
  left to grow to when growing is due, no entry lost while growing, and \<open>set_safe\<close>.
\<close>

definition kvs_fetch :: "'z zlib \<Rightarrow> bytes \<Rightarrow> kvs \<Rightarrow> bytes option cpp \<times> kvs" where
  "kvs_fetch z key s = and_then (kvs_get_key z key s) (\<lambda>r s. (Val (read_str s r), s)) id"

definition overdue :: "kvs \<Rightarrow> bool" where
  "overdue s \<longleftrightarrow> exhausted s \<and> threshold (tableSize s) \<le> numEntries s"

definition put_ready :: "bytes \<Rightarrow> bytes \<Rightarrow> kvs \<Rightarrow> bool" where
  "put_ready key val s \<longleftrightarrow> is_cstr key \<and> storable val \<and> \<not> overdue s \<and>
     cerr (snd (prepare s)) = cerr s \<and> set_safe (snd (prepare s)) key"

definition map_inv :: "'z zlib \<Rightarrow> kvs \<Rightarrow> bool" where
  "map_inv z s \<longleftrightarrow> zlib_ok z \<and> kvs_inv z s \<and> clean s"

lemma prepare_clean:
  assumes inv: "kvs_inv z s" "clean s" and prep: "prepare s = (Val (), s1)" "cerr s1 = cerr s"
  shows "clean s1" "lookup z s1 = lookup z s" "tidy s \<Longrightarrow> tidy s1"
proof -
  obtain free where ok: "kvs_ok z s free" using inv(1) by (auto simp: kvs_inv_def)
  have "s1 = s \<or> resize s = (Val (), s1)" using prep(1) by (auto simp: prepare_def split: if_splits)
  then show "clean s1" "lookup z s1 = lookup z s" "tidy s \<Longrightarrow> tidy s1"
    using resize_clean [OF ok inv(2) _ prep(2)] inv(2) by auto
qed

lemma kvs_put_law:
  assumes inv: "map_inv z s" and ready: "put_ready key val s"
  shows "\<exists>b s'. kvs_set_key z key val s = (Val b, s') \<and> map_inv z s' \<and>
    lookup z s' = (if b then (lookup z s)(key \<mapsto> val) else lookup z s) \<and> cerr s' = cerr s \<and>
    (tidy s \<longrightarrow> tidy s')"
proof -
  obtain s1 free where prep: "prepare s = (Val (), s1)" and ok: "kvs_ok z s1 free" "free \<noteq> []"
    "threshold (tableSize s1) \<le> length free + numEntries s1"
    using prepare_ok [of z s] inv ready by (auto simp: map_inv_def put_ready_def overdue_def)
  have log: "cerr s1 = cerr s" and safe: "set_safe s1 key" and k: "is_cstr key" "storable val"
    using ready prep by (auto simp: put_ready_def)
  note s1 = prepare_clean [OF _ _ prep log, of z] and z = inv [unfolded map_inv_def]
  note sh = kvs_okD(1) [OF ok(1)]
  show ?thesis
  proof (cases "target s1 key")
    case None
    obtain c where "kvs_set z key val (hashFunc key) s = (Val False, s1\<lparr>numCollisions := c\<rparr>)"
      using kvs_set_full [OF prep ok(1) None] by blast
    moreover have "kvs_inv z s1" using ok unfolding kvs_inv_def by blast
    ultimately show ?thesis
      using s1 z log by (intro exI [of _ False]) (simp add: kvs_set_key_def map_inv_def full_unchanged)
  next
    case (Some p)
    show ?thesis
    proof (rule kvs_set_stores [OF prep ok _ k Some])
      fix s' x c b
      assume run: "kvs_set z key val (hashFunc key) s = (Val True, s')" "kvs_inv z s'" "cerr s' = cerr s1"
        and s': "contents (entryPool s') = (contents (entryPool s1))(x \<mapsto> (key, c, b))"
          "table s' = write_slot (table s1) (fst p) (snd p) x" "tableSize s' = tableSize s1"
        and v: "decodes z c b val"
        and x: "key_of (entryPool s1) x \<in> {None, Some key}" "hit s1 key p \<Longrightarrow> x = slot (table s1) p"
      note st = lookup_stored [OF shapeD(2) [OF sh] refl shapeD(4) [OF sh] Some [unfolded target_def] x(1) s']
      have "lookup z s' = (lookup z s1)(key \<mapsto> val)"
      proof
        fix k' show "lookup z s' k' = ((lookup z s1)(key \<mapsto> val)) k'"
          using st(1,3) s'(1) decodes_value_of [OF v] by (cases "k' = key") (simp_all add: lookup_def)
      qed
      moreover have "clean s'" using stored_clean [OF _ safe Some sh x s'] s1(1) z by blast
      moreover have "tidy s \<longrightarrow> tidy s'"
        using stored_set_safe [OF Some sh x(1) s'] s1(3) z by (auto simp: tidy_def)
      ultimately show ?thesis
        using run s1(2) z log by (intro exI [of _ True]) (simp add: kvs_set_key_def map_inv_def)
    qed (use z in blast)
  qed
qed

lemma kvs_fetch_law:
  assumes inv: "map_inv z s"
  shows "\<exists>s'. kvs_fetch z key s = (Val (lookup z s key), s') \<and> map_inv z s' \<and>
    lookup z s' = lookup z s \<and> cerr s' = cerr s \<and> (tidy s \<longrightarrow> tidy s')"
proof -
  obtain free where ok: "kvs_ok z s free" and thr: "threshold (tableSize s) \<le> length free + numEntries s"
    using inv by (auto simp: map_inv_def kvs_inv_def)
  obtain r p where r: "kvs_get z key (hashFunc key) s = (Val r, s\<lparr>entryPool := p\<rparr>)"
    "read_str (s\<lparr>entryPool := p\<rparr>) r = lookup z s key" and p: "pool_inv p free"
    "contents p = contents (entryPool s)" "capacity p = capacity (entryPool s)"
    using kvs_get_ok [OF ok] by metis
  let ?s' = "s\<lparr>entryPool := p\<rparr>"
  have ko: "key_of p = key_of (entryPool s)" using p(2) by (simp add: key_of_def fun_eq_iff)
  have h: "hit ?s' = hit s" by (simp add: hit_def fun_eq_iff ko)
  have idx: "lookup_idx ?s' k = lookup_idx s k" for k by (simp add: lookup_idx_def h)
  have "kvs_ok z ?s' free" using ok p by (simp add: kvs_ok_def shape_def)
  then have "kvs_inv z ?s'" using thr unfolding kvs_inv_def by auto
  moreover have "clean ?s'" using inv by (simp add: map_inv_def clean_def idx ko)
  moreover have "lookup z ?s' = lookup z s" using p(2) idx by (intro ext lookup_same_contents) simp_all
  moreover have "tidy ?s' = tidy s"
    by (rule tidy_cong) (simp_all add: h settable_def fun_eq_iff ko)
  ultimately show ?thesis using r inv by (simp add: kvs_fetch_def kvs_get_key_def map_inv_def)
qed

lemma kvs_remove_law:
  assumes inv: "map_inv z s"
  shows "\<exists>s'. kvs_del_key key s = (Val (lookup z s key \<noteq> None), s') \<and> map_inv z s' \<and>
    lookup z s' = (lookup z s)(key := None) \<and> cerr s' = cerr s"
proof -
  obtain free where ok: "kvs_ok z s free" and thr: "threshold (tableSize s) \<le> length free + numEntries s"
    using inv by (auto simp: map_inv_def kvs_inv_def)
  show ?thesis
  proof (cases "lookup_idx s key")
    case None
    then show ?thesis
      using inv kvs_del_absent [OF ok None] lookup_None_iff [OF ok, of key]
      by (auto simp: kvs_del_key_def fun_upd_idem)
  next
    case (Some i)
    obtain p where p: "kvs_del key (hashFunc key) s = (Val True, s\<lparr>entryPool := p\<rparr>)"
      "kvs_ok z (s\<lparr>entryPool := p\<rparr>) (i # free)" "contents p = (contents (entryPool s))(i := None)"
      by (rule kvs_del_present [OF ok Some])
    let ?s' = "s\<lparr>entryPool := p\<rparr>"
    have cl: "clean s" and k: "key_of (entryPool s) i = Some key"
      using inv lookup_idx_SomeD [OF Some] by (auto simp: map_inv_def)
    have gone: "lookup_idx ?s' key = None"
    proof (rule ccontr)
      assume "lookup_idx ?s' key \<noteq> None"
      then obtain j where "lookup_idx ?s' key = Some j" by blast
      from lookup_idx_SomeD [OF this] have "j \<noteq> i" "key_of (entryPool s) j = Some key"
        using p(3) by (auto simp: key_of_def split: if_splits)
      with cl Some show False by (auto simp: clean_def)
    qed
    have "clean ?s'"
      using cl k p(3) lookup_del_other(1) [OF k p(3)] unfolding clean_def
      by (auto simp: key_of_def split: if_splits) (metis Some option.inject)
    moreover have "lookup z ?s' = (lookup z s)(key := None)"
      using lookup_del_other(2) [OF k p(3)] gone by (auto simp: fun_eq_iff lookup_def)
    moreover have "kvs_inv z ?s'" using p(2) thr unfolding kvs_inv_def by (auto intro!: exI [of _ "i # free"])
    ultimately show ?thesis
      using inv p(1) Some lookup_None_iff [OF ok, of key] by (auto simp: kvs_del_key_def map_inv_def)
  qed
qed

subsection \<open>A freshly built store\<close>

lemma fresh_store:
  assumes n: "2 \<le> initialSize st" and pr: "set_usePrimeNumbers st \<Longrightarrow> sorted_wrt (<) (initialSize st # primes)"
  obtains s where "KeyValueStore primes st = Val s" "kvs_inv z s" "clean s" "tidy s"
    "lookup z s = Map.empty" "cerr s = []"
proof -
  let ?n = "initialSize st"
  obtain p where p: "MemoryPool primes ?n = Val p" "pool_inv p [1..<?n]" "contents p = Map.empty"
    "capacity p = ?n" using MemoryPool_ok [OF n] by metis
  obtain s where s: "KeyValueStore primes st = Val s" "table s = initializeTable ?n" "tableSize s = ?n"
    "numEntries s = 0" "entryPool s = p" "\<not> isResizing s" "primegen s = primes" "cerr s = []"
    "usePrimeNumbers s = set_usePrimeNumbers st"
    by (simp add: KeyValueStore_def p(1))
  have ko: "key_of p i = None" for i using p(3) by (simp add: key_of_def)
  then have idx: "lookup_idx s k = None" for k by (simp add: lookup_idx_None_iff s(5))
  have "kvs_ok z s [1..<?n]"
    using s p pr table_ok_initial [of ?n] n by (simp add: kvs_ok_def shape_def values_ok_def)
  moreover have "threshold ?n \<le> length [1..<?n]"
    using n by (simp add: threshold_def RESIZE_THRESHOLD_PERCENTAGE_def)
  ultimately have "kvs_inv z s" using s(3,4) unfolding kvs_inv_def by auto
  moreover have "clean s" "lookup z s = Map.empty" using ko s(5) idx by (auto simp: clean_def lookup_def)
  moreover have "tidy s" using idx by (auto simp: tidy_def set_safe_def lookup_idx_def)
  ultimately show thesis using that s(1,8) by blast
qed

end
