(* ===== verification/Kvs_Spec.thy ===== *)
theory Kvs_Spec
  imports Kvs_Refine
begin

section \<open>The contract of the store and its properties\<close>

text \<open>
  The interface of a cache as a record of its three calls, runs of calls, and the contract in two
  locales: \<open>safe_cache\<close> (calls return and keep the invariant) and \<open>map_cache\<close> (their results are
  those of a map). The store is an interpretation of both; the properties of whole runs rest on it.
\<close>

subsection \<open>Runs of calls\<close>

record 's cache_ops =
  c_put :: "bytes \<Rightarrow> bytes \<Rightarrow> 's \<Rightarrow> bool cpp \<times> 's"
  c_fetch :: "bytes \<Rightarrow> 's \<Rightarrow> bytes option cpp \<times> 's"
  c_remove :: "bytes \<Rightarrow> 's \<Rightarrow> bool cpp \<times> 's"

datatype kv_op = Put bytes bytes | Get bytes | Del bytes

datatype kv_res = Stored bool | Found "bytes option" | Removed bool

fun exec_op :: "'s cache_ops \<Rightarrow> kv_op \<Rightarrow> 's \<Rightarrow> kv_res cpp \<times> 's" where
  "exec_op ops (Put k v) s = and_then (c_put ops k v s) (\<lambda>b s. (Val (Stored b), s)) id"
| "exec_op ops (Get k) s = and_then (c_fetch ops k s) (\<lambda>r s. (Val (Found r), s)) id"
| "exec_op ops (Del k) s = and_then (c_remove ops k s) (\<lambda>b s. (Val (Removed b), s)) id"

fun run_ops :: "'s cache_ops \<Rightarrow> kv_op list \<Rightarrow> 's \<Rightarrow> kv_res list cpp \<times> 's" where
  "run_ops ops [] s = (Val [], s)"
| "run_ops ops (x # xs) s =
     and_then (exec_op ops x s) (\<lambda>r s. and_then (run_ops ops xs s) (\<lambda>rs s. (Val (r # rs), s)) id) id"

text \<open>The results a map gives; a refused \<open>Put\<close> leaves it as it is.\<close>

fun replays :: "(bytes \<rightharpoonup> bytes) \<Rightarrow> kv_op list \<Rightarrow> kv_res list \<Rightarrow> bool" where
  "replays m [] [] = True"
| "replays m (Put k v # xs) (Stored b # rs) = replays (if b then m(k \<mapsto> v) else m) xs rs"
| "replays m (Get k # xs) (Found r # rs) = (r = m k \<and> replays m xs rs)"
| "replays m (Del k # xs) (Removed b # rs) = (b = (m k \<noteq> None) \<and> replays (m(k := None)) xs rs)"
| "replays m _ _ = False"

fun op_args_ok :: "(bytes \<Rightarrow> bytes \<Rightarrow> bool) \<Rightarrow> kv_op \<Rightarrow> bool" where
  "op_args_ok A (Put k v) = A k v"
| "op_args_ok A _ = True"

fun is_del :: "kv_op \<Rightarrow> bool" where
  "is_del (Del k) = True"
| "is_del _ = False"

fun guarded :: "'s cache_ops \<Rightarrow> (bytes \<Rightarrow> 's \<Rightarrow> bool) \<Rightarrow> kv_op list \<Rightarrow> 's \<Rightarrow> bool" where
  "guarded ops G [] s = True"
| "guarded ops G (x # xs) s =
     ((case x of Put k v \<Rightarrow> G k s | _ \<Rightarrow> True) \<and> guarded ops G xs (snd (exec_op ops x s)))"

subsection \<open>The contract\<close>

locale safe_cache =
  fixes ops :: "'s cache_ops"
    and wf :: "'s \<Rightarrow> bool"
    and args_ok :: "bytes \<Rightarrow> bytes \<Rightarrow> bool"
    and lost :: "'s \<Rightarrow> nat"
    and limit :: string
  assumes put_safe: "wf s \<Longrightarrow> args_ok k v \<Longrightarrow>
      (\<exists>b s'. c_put ops k v s = (Val b, s') \<and> wf s' \<and> lost s \<le> lost s') \<or> (\<exists>s'. c_put ops k v s = (Exn limit, s'))"
    and fetch_safe: "wf s \<Longrightarrow> \<exists>r s'. c_fetch ops k s = (Val r, s') \<and> wf s' \<and> lost s' = lost s"
    and remove_safe: "wf s \<Longrightarrow> \<exists>b s'. c_remove ops k s = (Val b, s') \<and> wf s' \<and> lost s' = lost s"
begin

lemma exec_safe:
  assumes "wf s" "op_args_ok args_ok x"
  shows "(\<exists>r s'. exec_op ops x s = (Val r, s') \<and> wf s' \<and> lost s \<le> lost s') \<or>
    (\<exists>s'. exec_op ops x s = (Exn limit, s'))"
proof (cases x)
  case (Put k v)
  then show ?thesis using put_safe [OF assms(1), of k v] assms(2) by auto
next
  case (Get k)
  then show ?thesis using fetch_safe [OF assms(1), of k] by auto
next
  case (Del k)
  then show ?thesis using remove_safe [OF assms(1), of k] by auto
qed

lemma run_safe:
  assumes "wf s" "list_all (op_args_ok args_ok) xs"
  shows "(\<exists>rs s'. run_ops ops xs s = (Val rs, s') \<and> wf s' \<and> lost s \<le> lost s') \<or>
    (\<exists>s'. run_ops ops xs s = (Exn limit, s'))"
  using assms
proof (induction xs arbitrary: s)
  case (Cons x xs)
  from exec_safe [of s x] Cons.prems consider
    (ok) r s1 where "exec_op ops x s = (Val r, s1)" "wf s1" "lost s \<le> lost s1"
    | (limit) s1 where "exec_op ops x s = (Exn limit, s1)" by auto
  then show ?case
  proof cases
    case ok
    with Cons.IH [of s1] Cons.prems show ?thesis by fastforce
  qed simp
qed simp

end

text \<open>
  \<open>fits s k\<close> is the condition under which a \<open>Put\<close> of \<open>k\<close> acts on the map; \<open>neat\<close> gives it for all
  keys and survives \<open>Put\<close> and \<open>Get\<close>.
\<close>

locale map_cache = safe_cache +
  fixes view :: "'a \<Rightarrow> bytes \<rightharpoonup> bytes"
    and clean_state :: "'a \<Rightarrow> bool"
    and fits :: "bytes \<Rightarrow> 'a \<Rightarrow> bool"
    and neat :: "'a \<Rightarrow> bool"
  assumes put_view: "wf s \<Longrightarrow> clean_state s \<Longrightarrow> args_ok k v \<Longrightarrow> fits k s \<Longrightarrow> c_put ops k v s = (Val b, s') \<Longrightarrow>
      lost s' = lost s \<Longrightarrow> clean_state s' \<and> view s' = (if b then (view s)(k \<mapsto> v) else view s)"
    and put_neat: "wf s \<Longrightarrow> clean_state s \<Longrightarrow> args_ok k v \<Longrightarrow> neat s \<Longrightarrow> c_put ops k v s = (Val b, s') \<Longrightarrow>
      lost s' = lost s \<Longrightarrow> fits k s \<and> neat s'"
    and fetch_view: "wf s \<Longrightarrow> clean_state s \<Longrightarrow> c_fetch ops k s = (Val r, s') \<Longrightarrow>
      clean_state s' \<and> r = view s k \<and> view s' = view s"
    and fetch_neat: "wf s \<Longrightarrow> clean_state s \<Longrightarrow> neat s \<Longrightarrow> c_fetch ops k s = (Val r, s') \<Longrightarrow> neat s'"
    and remove_view: "wf s \<Longrightarrow> clean_state s \<Longrightarrow> c_remove ops k s = (Val b, s') \<Longrightarrow>
      clean_state s' \<and> b = (view s k \<noteq> None) \<and> view s' = (view s)(k := None)"
begin

text \<open>The fate of one call, split off for the induction over runs.\<close>

lemma exec_view:
  assumes "wf s" "clean_state s" "op_args_ok args_ok x" "guarded ops fits [x] s"
    and "exec_op ops x s = (Val r, s')" "lost s' = lost s"
  shows "clean_state s' \<and> (\<forall>xs rs. replays (view s') xs rs \<longrightarrow> replays (view s) (x # xs) (r # rs))"
proof (cases x)
  case (Put k v)
  with assms obtain b where "c_put ops k v s = (Val b, s')" "r = Stored b"
    by (auto simp: and_then_def split: prod.splits cpp.splits)
  with Put assms put_view [of s k v b s'] show ?thesis by (auto split: if_splits)
next
  case (Get k)
  with assms obtain v where "c_fetch ops k s = (Val v, s')" "r = Found v"
    by (auto simp: and_then_def split: prod.splits cpp.splits)
  with Get assms fetch_view [of s k v s'] show ?thesis by auto
next
  case (Del k)
  with assms obtain b where "c_remove ops k s = (Val b, s')" "r = Removed b"
    by (auto simp: and_then_def split: prod.splits cpp.splits)
  with Del assms remove_view [of s k b s'] show ?thesis by auto
qed

lemma run_ops_ConsE:
  assumes "wf s" "list_all (op_args_ok args_ok) (x # xs)" "run_ops ops (x # xs) s = (Val rs, s')"
  obtains r s1 rs1 where "exec_op ops x s = (Val r, s1)" "wf s1" "run_ops ops xs s1 = (Val rs1, s')"
    "rs = r # rs1" "lost s \<le> lost s1" "lost s1 \<le> lost s'"
proof -
  from exec_safe [OF assms(1), of x] assms obtain r s1 where 1: "exec_op ops x s = (Val r, s1)" "wf s1"
    "lost s \<le> lost s1" by auto
  from run_safe [OF 1(2), of xs] assms 1(1) obtain rs1 s2 where 2: "run_ops ops xs s1 = (Val rs1, s2)"
    "lost s1 \<le> lost s2" by auto
  show thesis using that 1 2 assms(3) by auto
qed

lemma run_view:
  assumes "wf s" "clean_state s" "list_all (op_args_ok args_ok) xs" "guarded ops fits xs s"
    and "run_ops ops xs s = (Val rs, s')" "lost s' = lost s"
  shows "clean_state s' \<and> replays (view s) xs rs"
  using assms
proof (induction xs arbitrary: s rs)
  case (Cons x xs)
  from run_ops_ConsE [OF Cons.prems(1,3,5)] obtain r s1 rs1 where
    1: "exec_op ops x s = (Val r, s1)" "wf s1" "run_ops ops xs s1 = (Val rs1, s')" "rs = r # rs1"
    "lost s1 = lost s" "lost s' = lost s1" using Cons.prems(6) by (metis le_antisym)
  have "guarded ops fits [x] s" using Cons.prems(4) by simp
  with exec_view [OF Cons.prems(1,2) _ _ 1(1,5)] Cons.prems(3)
  have "clean_state s1" "\<forall>xs rs. replays (view s1) xs rs \<longrightarrow> replays (view s) (x # xs) (r # rs)" by auto
  with Cons.IH [OF 1(2) _ _ _ 1(3,6)] Cons.prems(3,4) 1(1,4) show ?case by simp
qed auto

lemma run_neat:
  assumes "wf s" "clean_state s" "neat s" "list_all (op_args_ok args_ok) xs" "list_all (\<lambda>x. \<not> is_del x) xs"
    and "run_ops ops xs s = (Val rs, s')" "lost s' = lost s"
  shows "guarded ops fits xs s"
  using assms
proof (induction xs arbitrary: s rs)
  case (Cons x xs)
  from run_ops_ConsE [OF Cons.prems(1,4,6)] obtain r s1 rs1 where
    1: "exec_op ops x s = (Val r, s1)" "wf s1" "run_ops ops xs s1 = (Val rs1, s')"
    "lost s1 = lost s" "lost s' = lost s1" using Cons.prems(7) by (metis le_antisym)
  have "guarded ops fits [x] s \<and> neat s1"
  proof (cases x)
    case (Put k v)
    with 1(1) obtain b where "c_put ops k v s = (Val b, s1)"
      by (auto simp: and_then_def split: prod.splits cpp.splits)
    with Put Cons.prems 1(4) put_neat [of s k v b s1] show ?thesis by simp
  next
    case (Get k)
    with 1(1) obtain v where "c_fetch ops k s = (Val v, s1)"
      by (auto simp: and_then_def split: prod.splits cpp.splits)
    with Get Cons.prems fetch_neat [of s k v s1] show ?thesis by simp
  qed (use Cons.prems(5) in simp)
  moreover from this exec_view [OF Cons.prems(1,2) _ _ 1(1,4)] Cons.prems(4) have "clean_state s1" by simp
  ultimately show ?case using Cons.IH [OF 1(2) _ _ _ _ 1(3,5)] Cons.prems(4,5) 1(1) by simp
qed simp

end

subsection \<open>The store meets the contract\<close>

definition kvs_ops :: "'z zlib \<Rightarrow> kvs cache_ops" where
  "kvs_ops z = \<lparr>c_put = kvs_set_key z, c_fetch = kvs_fetch z, c_remove = kvs_del_key\<rparr>"

definition limit_message :: string where
  "limit_message = ''Prime number generator reached it's limit.''"

definition set_args :: "bytes \<Rightarrow> bytes \<Rightarrow> bool" where
  "set_args key val \<longleftrightarrow> is_cstr key \<and> storable val"

lemma prepare_cerr:
  assumes inv: "kvs_inv z s" and prep: "prepare s = (Val (), s1)"
  shows "\<exists>l. cerr s1 = cerr s @ l"
proof -
  obtain free where ok: "kvs_ok z s free" using inv by (auto simp: kvs_inv_def)
  have "s1 = s \<or> resize s = (Val (), s1)" using prep by (auto simp: prepare_def split: if_splits)
  then show ?thesis
  proof
    assume 2: "resize s = (Val (), s1)"
    then have "\<not> exhausted s" using resize_exhausted by fastforce
    from resize_ok [OF ok this] 2 show ?thesis by (metis grown_simps(4) prod.inject)
  qed simp
qed

lemma prepare_numEntries:
  assumes inv: "kvs_inv z s" and prep: "prepare s = (Val (), s1)"
  shows "numEntries s1 = numEntries s"
proof -
  obtain free where ok: "kvs_ok z s free" using inv by (auto simp: kvs_inv_def)
  have "s1 = s \<or> resize s = (Val (), s1)" using prep by (auto simp: prepare_def split: if_splits)
  then show ?thesis
  proof
    assume 2: "resize s = (Val (), s1)"
    then have "\<not> exhausted s" using resize_exhausted by fastforce
    from resize_ok [OF ok this] 2 show ?thesis by (metis grown_simps(5) prod.inject)
  qed simp
qed

text \<open>Every outcome of \<^verbatim>\<open>set\<close>.\<close>

lemma kvs_set_overdue:
  assumes "kvs_inv z s" "overdue s"
  shows "kvs_set_key z key val s = (Exn limit_message, s\<lparr>isResizing := True\<rparr>)"
proof -
  have "\<not> isResizing s" using assms(1) by (auto simp: kvs_inv_def kvs_ok_def)
  then have "prepare s = (Exn limit_message, s\<lparr>isResizing := True\<rparr>)"
    using assms(2) resize_exhausted [of s] by (simp add: prepare_def overdue_def limit_message_def)
  then show ?thesis by (simp add: kvs_set_key_def kvs_set_prepare)
qed

lemma kvs_set_outcome:
  assumes inv: "zlib_ok z" "kvs_inv z s" and args: "set_args key val" and more: "\<not> overdue s"
  obtains (stored) s1 s' where "prepare s = (Val (), s1)" "kvs_set_key z key val s = (Val True, s')"
    "kvs_inv z s'" "cerr s' = cerr s1" "numEntries s' = numEntries s1 + 1" "lookup z s' key = Some val"
    "\<And>k. k \<noteq> key \<Longrightarrow> lookup z s' k = lookup z s1 k"
  | (refused) s1 c where "prepare s = (Val (), s1)"
    "kvs_set_key z key val s = (Val False, s1\<lparr>numCollisions := c\<rparr>)" "kvs_inv z s1" "target s1 key = None"
proof -
  have k: "is_cstr key" "storable val" using args by (simp_all add: set_args_def)
  obtain s1 free where prep: "prepare s = (Val (), s1)" and ok: "kvs_ok z s1 free" "free \<noteq> []"
    "threshold (tableSize s1) \<le> length free + numEntries s1"
    using prepare_ok [OF inv(2)] more by (auto simp: overdue_def)
  note sh = kvs_okD(1) [OF ok(1)]
  show thesis
  proof (cases "target s1 key")
    case None
    obtain c where "kvs_set z key val (hashFunc key) s = (Val False, s1\<lparr>numCollisions := c\<rparr>)"
      using kvs_set_full [OF prep ok(1) None] by blast
    moreover have "kvs_inv z s1" using ok unfolding kvs_inv_def by blast
    ultimately show thesis using refused prep None by (simp add: kvs_set_key_def)
  next
    case (Some p)
    show thesis
    proof (rule kvs_set_stores [OF prep ok inv(1) k Some])
      fix s' x c b
      assume run: "kvs_set z key val (hashFunc key) s = (Val True, s')" "kvs_inv z s'" "cerr s' = cerr s1"
          "numEntries s' = numEntries s1 + 1"
        and s': "contents (entryPool s') = (contents (entryPool s1))(x \<mapsto> (key, c, b))"
          "table s' = write_slot (table s1) (fst p) (snd p) x" "tableSize s' = tableSize s1"
        and v: "decodes z c b val" and x: "key_of (entryPool s1) x \<in> {None, Some key}"
      note st = lookup_stored [OF shapeD(2) [OF sh] refl shapeD(4) [OF sh] Some [unfolded target_def] x s']
      show thesis
      proof (rule stored [OF prep])
        show "lookup z s' key = Some val" using st(1) s'(1) decodes_value_of [OF v] by (simp add: lookup_def)
      qed (use run st(3) in \<open>simp_all add: kvs_set_key_def\<close>)
    qed
  qed
qed

lemma kvs_fetch_safe:
  assumes inv: "kvs_inv z s"
  shows "\<exists>p. kvs_fetch z key s = (Val (lookup z s key), s\<lparr>entryPool := p\<rparr>) \<and> kvs_inv z (s\<lparr>entryPool := p\<rparr>) \<and>
    contents p = contents (entryPool s)"
proof -
  obtain free where ok: "kvs_ok z s free" and thr: "threshold (tableSize s) \<le> length free + numEntries s"
    using inv by (auto simp: kvs_inv_def)
  obtain r p where r: "kvs_get z key (hashFunc key) s = (Val r, s\<lparr>entryPool := p\<rparr>)"
    "read_str (s\<lparr>entryPool := p\<rparr>) r = lookup z s key" and p: "pool_inv p free"
    "contents p = contents (entryPool s)" "capacity p = capacity (entryPool s)"
    using kvs_get_ok [OF ok] by metis
  have "kvs_ok z (s\<lparr>entryPool := p\<rparr>) free" using ok p by (simp add: kvs_ok_def shape_def)
  then have "kvs_inv z (s\<lparr>entryPool := p\<rparr>)" using thr unfolding kvs_inv_def by auto
  then show ?thesis using r p(2) by (intro exI [of _ p]) (simp add: kvs_fetch_def kvs_get_key_def)
qed

lemma kvs_del_safe:
  assumes inv: "kvs_inv z s"
  shows "\<exists>s'. kvs_del_key key s = (Val (lookup z s key \<noteq> None), s') \<and> kvs_inv z s' \<and> cerr s' = cerr s \<and>
    numEntries s' = numEntries s"
proof -
  obtain free where ok: "kvs_ok z s free" and thr: "threshold (tableSize s) \<le> length free + numEntries s"
    using inv by (auto simp: kvs_inv_def)
  show ?thesis
  proof (cases "lookup_idx s key")
    case None
    then show ?thesis using inv kvs_del_absent [OF ok None] lookup_None_iff [OF ok, of key]
      by (simp add: kvs_del_key_def)
  next
    case (Some i)
    obtain p where p: "kvs_del key (hashFunc key) s = (Val True, s\<lparr>entryPool := p\<rparr>)"
      "kvs_ok z (s\<lparr>entryPool := p\<rparr>) (i # free)" by (rule kvs_del_present [OF ok Some])
    have "kvs_inv z (s\<lparr>entryPool := p\<rparr>)"
      using p(2) thr unfolding kvs_inv_def by (auto intro!: exI [of _ "i # free"])
    then show ?thesis using p(1) Some lookup_None_iff [OF ok, of key] by (simp add: kvs_del_key_def)
  qed
qed

definition kvs_fits :: "bytes \<Rightarrow> kvs \<Rightarrow> bool" where
  "kvs_fits key s = set_safe (snd (prepare s)) key"

interpretation kv: safe_cache "kvs_ops z" "\<lambda>s. zlib_ok z \<and> kvs_inv z s" set_args "\<lambda>s. length (cerr s)" limit_message
  for z :: "'z zlib"
proof
  fix s k v
  assume wf: "zlib_ok z \<and> kvs_inv z s" and args: "set_args k v"
  show "(\<exists>b s'. c_put (kvs_ops z) k v s = (Val b, s') \<and> (zlib_ok z \<and> kvs_inv z s') \<and>
      length (cerr s) \<le> length (cerr s')) \<or> (\<exists>s'. c_put (kvs_ops z) k v s = (Exn limit_message, s'))"
  proof (cases "overdue s")
    case True
    then show ?thesis using kvs_set_overdue [of z s k v] wf by (simp add: kvs_ops_def)
  next
    case False
    have wf': "zlib_ok z" "kvs_inv z s" using wf by auto
    show ?thesis
      by (rule kvs_set_outcome [OF wf' args False])
        (use wf prepare_cerr [OF wf'(2)] in \<open>force simp: kvs_ops_def full_unchanged\<close>)+
  qed
next
  fix s k
  assume wf: "zlib_ok z \<and> kvs_inv z s"
  then show "\<exists>r s'. c_fetch (kvs_ops z) k s = (Val r, s') \<and> (zlib_ok z \<and> kvs_inv z s') \<and>
      length (cerr s') = length (cerr s)"
    using kvs_fetch_safe [of z s k] by (force simp: kvs_ops_def)
  show "\<exists>b s'. c_remove (kvs_ops z) k s = (Val b, s') \<and> (zlib_ok z \<and> kvs_inv z s') \<and>
      length (cerr s') = length (cerr s)"
    using kvs_del_safe [of z s k] wf by (auto simp: kvs_ops_def)
qed

lemma put_ready_of_result:
  assumes inv: "kvs_inv z s" "zlib_ok z" and args: "set_args k v" and fits: "kvs_fits k s"
    and run: "kvs_set_key z k v s = (Val b, s')" "length (cerr s') = length (cerr s)"
  shows "put_ready k v s"
proof -
  have more: "\<not> overdue s" using run kvs_set_overdue [OF inv(1)] by fastforce
  have "cerr (snd (prepare s)) = cerr s"
    by (rule kvs_set_outcome [OF inv(2,1) args more])
      (use run prepare_cerr [OF inv(1)] in \<open>fastforce\<close>)+
  then show ?thesis using args fits more by (simp add: put_ready_def set_args_def kvs_fits_def)
qed

interpretation kv: map_cache "kvs_ops z" "\<lambda>s. zlib_ok z \<and> kvs_inv z s" set_args "\<lambda>s. length (cerr s)" limit_message
  "lookup z" clean kvs_fits tidy
  for z :: "'z zlib"
proof
  fix s k v b s'
  assume a: "zlib_ok z \<and> kvs_inv z s" "clean s" "set_args k v" "c_put (kvs_ops z) k v s = (Val b, s')"
    "length (cerr s') = length (cerr s)"
  then have run: "kvs_set_key z k v s = (Val b, s')" by (simp add: kvs_ops_def)
  have more: "\<not> overdue s" using run kvs_set_overdue [of z s k v] a(1) by fastforce
  {
    assume "kvs_fits k s"
    with a run put_ready_of_result [of z s k v b s'] have "put_ready k v s" by simp
    from kvs_put_law [OF _ this, of z] a(1,2) run
    show "clean s' \<and> lookup z s' = (if b then (lookup z s)(k \<mapsto> v) else lookup z s)"
      by (auto simp: map_inv_def)
  }
  assume t: "tidy s"
  have "kvs_fits k s"
  proof (rule kvs_set_outcome [of z s k v])
    fix s1 s2
    assume p: "prepare s = (Val (), s1)" "kvs_set_key z k v s = (Val True, s2)" "cerr s2 = cerr s1"
    then have "cerr s1 = cerr s" using run a prepare_cerr [of z s s1] by fastforce
    then have "tidy s1" using prepare_clean(3) [OF _ a(2) p(1)] t a(1) by blast
    then show ?thesis using p(1) by (simp add: kvs_fits_def tidy_def)
  next
    fix s1 c
    assume p: "prepare s = (Val (), s1)" "kvs_set_key z k v s = (Val False, s1\<lparr>numCollisions := c\<rparr>)"
    then have "cerr s1 = cerr s" using run a prepare_cerr [of z s s1] by fastforce
    then have "tidy s1" using prepare_clean(3) [OF _ a(2) p(1)] t a(1) by blast
    then show ?thesis using p(1) by (simp add: kvs_fits_def tidy_def)
  qed (use a more in auto)
  moreover from this a run put_ready_of_result [of z s k v b s'] have "put_ready k v s" by simp
  from kvs_put_law [OF _ this, of z] a(1,2) run t have "tidy s'" by (auto simp: map_inv_def)
  ultimately show "kvs_fits k s \<and> tidy s'" ..
next
  fix s k r s'
  assume a: "zlib_ok z \<and> kvs_inv z s" "clean s" "c_fetch (kvs_ops z) k s = (Val r, s')"
  with kvs_fetch_law [of z s k] show "clean s' \<and> r = lookup z s k \<and> lookup z s' = lookup z s"
    by (auto simp: kvs_ops_def map_inv_def)
  assume "tidy s"
  with a kvs_fetch_law [of z s k] show "tidy s'" by (auto simp: kvs_ops_def map_inv_def)
next
  fix s k b s'
  assume "zlib_ok z \<and> kvs_inv z s" "clean s" "c_remove (kvs_ops z) k s = (Val b, s')"
  with kvs_remove_law [of z s k]
  show "clean s' \<and> b = (lookup z s k \<noteq> None) \<and> lookup z s' = (lookup z s)(k := None)"
    by (auto simp: kvs_ops_def map_inv_def)
qed

end
