(* ===== verification/Kvs_Props.thy ===== *)
theory Kvs_Props
  imports Kvs_Spec
begin

section \<open>Properties of the store\<close>

text \<open>
  What the store guarantees over whole runs, and where it departs from a map: after deletions, and
  in what it counts and leaves allocated. The examples use a table of ten buckets that doubles, where
  the keys \<open>a\<close> and \<open>o\<close> share their first bucket.
\<close>

definition settings10 :: KeyValueStoreSettings where
  "settings10 = \<lparr>initialSize = 10, set_compressionEnabled = False, set_usePrimeNumbers = False\<rparr>"

definition store10 :: kvs where
  "store10 = (case KeyValueStore [] settings10 of Val s \<Rightarrow> s)"

definition ops10 :: "kvs cache_ops" where
  "ops10 = kvs_ops store_zlib"

definition after10 :: "kv_op list \<Rightarrow> kvs" where
  "after10 xs = snd (run_ops ops10 xs store10)"

lemma zlib_ok_store: "zlib_ok store_zlib"
  using store_zlib_contract unfolding zlib_ok_def by blast

lemma store10_ok: "kvs_inv store_zlib store10" "clean store10" "tidy store10" "cerr store10 = []"
  "KeyValueStore [] settings10 = Val store10"
proof -
  have st: "2 \<le> initialSize settings10" "\<not> set_usePrimeNumbers settings10" by (simp_all add: settings10_def)
  obtain s where s: "KeyValueStore [] settings10 = Val s" "kvs_inv store_zlib s" "clean s" "tidy s" "cerr s = []"
    using fresh_store [of settings10 "[]" store_zlib] st by auto
  then show "kvs_inv store_zlib store10" "clean store10" "tidy store10" "cerr store10 = []"
    "KeyValueStore [] settings10 = Val store10"
    by (simp_all add: store10_def)
qed

lemma after10_ok:
  assumes "run_ops ops10 xs store10 = (Val rs, s)" "list_all (op_args_ok set_args) xs"
  shows "kvs_inv store_zlib s"
  using kv.run_safe [of store_zlib store10 xs] zlib_ok_store store10_ok(1) assms by (auto simp: ops10_def)

subsection \<open>Safety\<close>

text \<open>
  C9: No run of set, get and del calls on C strings below 1 GiB meets undefined behaviour or hangs:
  from a store that satisfies the invariant it returns all its results in a store that satisfies it
  again, or a \<^verbatim>\<open>set\<close> throws because the generator of table sizes is used up. In particular the entry
  pool never runs out and is never expanded on its own.
\<close>

theorem kvs_runs_safe:
  assumes "zlib_ok z" and "kvs_inv z s" and "list_all (op_args_ok set_args) xs"
  shows "(\<exists>rs s'. run_ops (kvs_ops z) xs s = (Val rs, s') \<and> kvs_inv z s' \<and>
      capacity (entryPool s') = tableSize s') \<or>
    (\<exists>s'. run_ops (kvs_ops z) xs s = (Exn limit_message, s'))"
  using kv.run_safe [of z s xs] assms by (force simp: kvs_inv_def kvs_ok_def shape_def)

theorem kvs_runs_safe_witness:
  "(\<exists>rs s'. run_ops (kvs_ops store_zlib) [Put ''a'' ''1'', Get ''a'', Del ''o''] store10 = (Val rs, s') \<and>
      kvs_inv store_zlib s' \<and> capacity (entryPool s') = tableSize s') \<or>
    (\<exists>s'. run_ops (kvs_ops store_zlib) [Put ''a'' ''1'', Get ''a'', Del ''o''] store10 = (Exn limit_message, s'))"
  by (rule kvs_runs_safe [OF zlib_ok_store store10_ok(1)]) (simp add: set_args_def storable_def)

subsection \<open>The store as a map\<close>










text \<open>A store whose slots all hold the entry of \<open>x\<close>.\<close>

definition crowded :: kvs where
  "crowded = (after10 [Put ''x'' ''v''])\<lparr>table := replicate 10 (replicate 4 1)\<rparr>"

lemma crowded_ok: "kvs_inv store_zlib crowded"
proof -
  have r: "(\<lambda>(r, s). (r, tableSize s)) (run_ops ops10 [Put ''x'' ''v''] store10) = (Val [Stored True], 10)"
    by code_simp
  then obtain s where s: "run_ops ops10 [Put ''x'' ''v''] store10 = (Val [Stored True], s)" "tableSize s = 10"
    by (auto split: prod.splits)
  have inv: "kvs_inv store_zlib s"
    using after10_ok [OF s(1)] by (simp add: set_args_def storable_def)
  have t: "table_ok (replicate 10 (replicate 4 1)) 10" by (auto simp: table_ok_def BUCKET_SIZE_def)
  have c: "crowded = s\<lparr>table := replicate 10 (replicate 4 1)\<rparr>" using s(1) by (simp add: crowded_def after10_def)
  obtain free where "kvs_ok store_zlib s free" "threshold (tableSize s) \<le> length free + numEntries s"
    using inv by (auto simp: kvs_inv_def)
  then have "kvs_ok store_zlib crowded free" "threshold (tableSize crowded) \<le> length free + numEntries crowded"
    using t s(2) unfolding c by (simp_all add: kvs_ok_def shape_def)
  then show ?thesis unfolding kvs_inv_def by blast
qed


subsection \<open>Where the store is not a map\<close>

text \<open>A slot that changes from one unused entry to another does not change a search.\<close>

lemma lookup_idx_dead_slot:
  assumes sh: "shape s free" and p: "target s key = Some p"
    and dead: "key_of (entryPool s) (slot (table s) p) = None" "key_of (entryPool s) x = None"
    and s': "table s1 = write_slot (table s) (fst p) (snd p) x" "tableSize s1 = tableSize s"
      "contents p2 = contents (entryPool s)"
  shows "lookup_idx (s1\<lparr>entryPool := p2\<rparr>) key = lookup_idx s key"
proof -
  let ?ps = "positions (tableSize s) (hashFunc key)" and ?s2 = "s1\<lparr>entryPool := p2\<rparr>"
  note t = shapeD(2,4) [OF sh]
  have pt: "in_table (tableSize s) p"
    using find_SomeD [OF p [unfolded target_def]] in_table_positions [OF t(2)] by blast
  have sl: "slot (table ?s2) y = (if y = p then x else slot (table s) y)" if "y \<in> set ?ps" for y
    using slot_write [OF t(1) pt in_table_positions [OF t(2) that]] s'(1) by simp
  have ko: "key_of p2 = key_of (entryPool s)" using s'(3) by (simp add: key_of_def fun_eq_iff)
  have "hit ?s2 key y = hit s key y" if "y \<in> set ?ps" for y
    using sl [OF that] dead by (simp add: hit_def ko)
  then have same: "find (hit ?s2 key) ?ps = find (hit s key) ?ps" by (rule find_cong_weak)
  have "slot (table ?s2) y = slot (table s) y" if "find (hit s key) ?ps = Some y" for y
    using find_SomeD [OF that] sl [of y] dead by (auto simp: hit_def)
  with same s'(2) show ?thesis
    by (cases "find (hit s key) ?ps") (simp_all add: lookup_idx_def)
qed

text \<open>An unsafe set goes to the slot of a deleted entry in front of the entry of its key.\<close>

lemma unsafe_target:
  assumes "\<not> set_safe s key"
  obtains p where "target s key = Some p" "key_of (entryPool s) (slot (table s) p) = None"
proof -
  let ?ps = "positions (tableSize s) (hashFunc key)"
  obtain q where q: "find (hit s key) ?ps = Some q" "target s key \<noteq> Some q"
    using assms by (auto simp: set_safe_def split: option.splits)
  have "settable s key q" using find_SomeD [OF q(1)] by (simp add: hit_def settable_def)
  then obtain p where p: "target s key = Some p"
    using find_SomeD [OF q(1)] unfolding target_def by (metis find_None_iff option.exhaust)
  have "\<not> hit s key p"
  proof
    assume "hit s key p"
    with p have "find (hit s key) ?ps = Some p" unfolding target_def
      by (elim find_update_hit) (auto simp: hit_def settable_def)
    with q p show False by simp
  qed
  then show thesis
    using that [OF p] find_SomeD [OF p [unfolded target_def]] by (auto simp: hit_def settable_def)
qed

text \<open>Deleting an entry that was written to an unused index brings back what was found before.\<close>

lemma del_restores:
  assumes sh: "shape s free" and p: "target s key = Some p" "key_of (entryPool s) (slot (table s) p) = None"
    and inv: "kvs_inv z s1" and x: "key_of (entryPool s) x = None"
    and s1: "contents (entryPool s1) = (contents (entryPool s))(x \<mapsto> (key, c, b))"
      "table s1 = write_slot (table s) (fst p) (snd p) x" "tableSize s1 = tableSize s"
  shows "\<exists>s2. kvs_del_key key s1 = (Val True, s2) \<and> kvs_inv z s2 \<and> lookup z s2 key = lookup z s key"
proof -
  obtain free1 where ok1: "kvs_ok z s1 free1" using inv by (auto simp: kvs_inv_def)
  have idx: "lookup_idx s1 key = Some x"
    using lookup_stored(1) [OF shapeD(2) [OF sh] refl shapeD(4) [OF sh] p(1) [unfolded target_def] _ s1] x by simp
  obtain p2 where del: "kvs_del key (hashFunc key) s1 = (Val True, s1\<lparr>entryPool := p2\<rparr>)"
    "contents p2 = (contents (entryPool s1))(x := None)"
    by (rule kvs_del_present [OF ok1 idx])
  let ?s2 = "s1\<lparr>entryPool := p2\<rparr>"
  have C: "contents p2 = contents (entryPool s)"
    using del(2) s1(1) x by (auto simp: key_of_def fun_eq_iff)
  have "lookup_idx ?s2 key = lookup_idx s key"
    by (rule lookup_idx_dead_slot [OF sh p x s1(2,3) C])
  then have "lookup z ?s2 key = lookup z s key"
    using C lookup_same_contents [of ?s2 s key z] by simp
  then show ?thesis
    using del(1) kvs_del_safe [OF inv, of key] by (auto simp: kvs_del_key_def)
qed

text \<open>
  A deleted key can come back: when the slot of a deleted entry lies before the slot of a stored
  key (\<open>set_safe\<close> fails), setting that key makes a second entry, deleting it removes the new entry
  only, and the next \<^verbatim>\<open>get\<close> returns the value from before the set, although both set and del succeeded.
\<close>

theorem deleted_key_returns:
  assumes "zlib_ok z" and "kvs_inv z s" and "set_args key val" and "lookup z s key = Some old"
    and "\<not> set_safe s key" and "numEntries s < threshold (tableSize s)"
  shows "\<exists>s1 s2 s3. kvs_set_key z key val s = (Val True, s1) \<and> kvs_del_key key s1 = (Val True, s2) \<and>
    kvs_fetch z key s2 = (Val (Some old), s3)"
proof -
  have prep: "prepare s = (Val (), s)" using assms(6) by (simp add: prepare_def)
  have k: "is_cstr key" "storable val" using assms(3) by (simp_all add: set_args_def)
  obtain free where ok: "kvs_ok z s free" "threshold (tableSize s) \<le> length free + numEntries s"
    using assms(2) by (auto simp: kvs_inv_def)
  have free: "free \<noteq> []" using ok(2) assms(6) by auto
  obtain p where p: "target s key = Some p" and dead: "key_of (entryPool s) (slot (table s) p) = None"
    by (rule unsafe_target [OF assms(5)])
  show ?thesis
  proof (rule kvs_set_stores [OF prep ok(1) free ok(2) assms(1) k p])
    fix s1 x c b
    assume run: "kvs_set z key val (hashFunc key) s = (Val True, s1)" "kvs_inv z s1"
      and s1: "contents (entryPool s1) = (contents (entryPool s))(x \<mapsto> (key, c, b))"
        "table s1 = write_slot (table s) (fst p) (snd p) x" "tableSize s1 = tableSize s"
      and x: "key_of (entryPool s) (slot (table s) p) = None \<Longrightarrow> key_of (entryPool s) x = None"
    from del_restores [OF kvs_okD(1) [OF ok(1)] p dead run(2) x [OF dead] s1] obtain s2 where
      s2: "kvs_del_key key s1 = (Val True, s2)" "kvs_inv z s2" "lookup z s2 key = Some old" using assms(4) by auto
    then show ?thesis
      using run(1) kvs_fetch_safe [OF s2(2), of key] by (auto simp: kvs_set_key_def)
  qed
qed

theorem deleted_key_returns_witness:
  "\<exists>s0 s1 s2 s3. run_ops ops10 [Put ''a'' ''1'', Put ''o'' ''old'', Del ''a''] store10 =
      (Val [Stored True, Stored True, Removed True], s0) \<and>
    kvs_set_key store_zlib ''o'' ''new'' s0 = (Val True, s1) \<and> kvs_del_key ''o'' s1 = (Val True, s2) \<and>
    kvs_fetch store_zlib ''o'' s2 = (Val (Some ''old''), s3)"
proof -
  let ?xs = "[Put ''a'' ''1'', Put ''o'' ''old'', Del ''a'']"
  have "(\<lambda>(r, s). (r, lookup store_zlib s ''o'', set_safe s ''o'', numEntries s, tableSize s))
      (run_ops ops10 ?xs store10) =
      (Val [Stored True, Stored True, Removed True], Some ''old'', False, 2, 10)" by code_simp
  then obtain s0 where r: "run_ops ops10 ?xs store10 = (Val [Stored True, Stored True, Removed True], s0)"
    and s0: "lookup store_zlib s0 ''o'' = Some ''old''" "\<not> set_safe s0 ''o''"
      "numEntries s0 < threshold (tableSize s0)"
    by (auto simp: threshold_def RESIZE_THRESHOLD_PERCENTAGE_def split: prod.splits)
  have "kvs_inv store_zlib s0" using after10_ok [OF r] by (simp add: set_args_def storable_def)
  moreover have "set_args ''o'' ''new''" by (simp add: set_args_def storable_def)
  ultimately show ?thesis
    using deleted_key_returns [OF zlib_ok_store _ _ s0] r by blast
qed

text \<open>
  \<open>numEntries\<close> counts successful sets, not entries: over any run it grows by the number of \<^verbatim>\<open>set\<close>
  calls that returned true, overwriting ones included, and no \<^verbatim>\<open>del\<close> lowers it. The table therefore
  grows after enough writes to the same few keys.
\<close>

fun stored_true :: "kv_res \<Rightarrow> bool" where
  "stored_true (Stored b) = b"
| "stored_true _ = False"

lemma exec_numEntries:
  assumes "zlib_ok z" "kvs_inv z s" "op_args_ok set_args x" "exec_op (kvs_ops z) x s = (Val r, s')"
  shows "numEntries s' = numEntries s + (if stored_true r then 1 else 0)"
proof (cases x)
  case (Put k v)
  with assms obtain b where r: "kvs_set_key z k v s = (Val b, s')" "r = Stored b"
    by (auto simp: and_then_def kvs_ops_def split: prod.splits cpp.splits)
  have more: "\<not> overdue s" using r(1) kvs_set_overdue [OF assms(2), of k v] by auto
  show ?thesis
    by (rule kvs_set_outcome [OF assms(1,2) _ more, of k v])
      (use assms(3) Put r prepare_numEntries [OF assms(2)] in auto)
next
  case (Get k)
  with assms(4) kvs_fetch_safe [OF assms(2), of k] show ?thesis by (auto simp: kvs_ops_def)
next
  case (Del k)
  with assms(4) kvs_del_safe [OF assms(2), of k] show ?thesis by (auto simp: kvs_ops_def)
qed

theorem numEntries_counts_sets:
  assumes "zlib_ok z" and "kvs_inv z s" and "list_all (op_args_ok set_args) xs"
    and "run_ops (kvs_ops z) xs s = (Val rs, s')"
  shows "numEntries s' = numEntries s + length (filter stored_true rs)"
  using assms(2-4)
proof (induction xs arbitrary: s rs)
  case (Cons x xs)
  have wf: "zlib_ok z \<and> kvs_inv z s" using assms(1) Cons.prems(1) by simp
  from kv.run_ops_ConsE [OF wf Cons.prems(2,3)] obtain r s1 rs1 where
    1: "exec_op (kvs_ops z) x s = (Val r, s1)" "kvs_inv z s1" "run_ops (kvs_ops z) xs s1 = (Val rs1, s')"
    "rs = r # rs1" by metis
  have "numEntries s1 = numEntries s + (if stored_true r then 1 else 0)"
    using exec_numEntries [OF assms(1) Cons.prems(1) _ 1(1)] Cons.prems(2) by simp
  with Cons.IH [OF 1(2) _ 1(3)] Cons.prems(2) 1(4) show ?case by simp
qed simp

theorem numEntries_counts_sets_witness:
  "\<exists>s'. run_ops (kvs_ops store_zlib) [Put ''a'' ''1'', Put ''a'' ''2'', Del ''a''] store10 =
     (Val [Stored True, Stored True, Removed True], s') \<and> numEntries s' = 2 \<and> lookup store_zlib s' ''a'' = None"
proof -
  let ?xs = "[Put ''a'' ''1'', Put ''a'' ''2'', Del ''a'']"
  have "(\<lambda>(r, s). (r, lookup store_zlib s ''a'')) (run_ops (kvs_ops store_zlib) ?xs store10) =
      (Val [Stored True, Stored True, Removed True], None)" by code_simp
  then obtain s' where r: "run_ops (kvs_ops store_zlib) ?xs store10 =
      (Val [Stored True, Stored True, Removed True], s')" "lookup store_zlib s' ''a'' = None"
    by (auto split: prod.splits)
  have "list_all (op_args_ok set_args) ?xs" by (simp add: set_args_def storable_def)
  from numEntries_counts_sets [OF zlib_ok_store store10_ok(1) this r(1)]
  have "numEntries s' = numEntries store10 + 2" by simp
  moreover have "numEntries store10 = 0" by code_simp
  ultimately show ?thesis using r by simp
qed

text \<open>
  A store that is built larger than the first size of the generator breaks when it first grows:
  if the next size is smaller than the table, \<^verbatim>\<open>resize\<close> copies the pool into a smaller array.
\<close>

theorem resize_to_smaller_is_undefined:
  assumes "capacity (entryPool s) = tableSize s" and "usePrimeNumbers s" and "primegen s = n # rest"
    and "n < tableSize s"
  shows "fst (resize s) = UB"
  using assms by (simp add: resize_def PopNext_def expandPool_def)

theorem resize_to_smaller_is_undefined_witness:
  "\<exists>s. KeyValueStore [11] \<lparr>initialSize = 13, set_compressionEnabled = False, set_usePrimeNumbers = True\<rparr> = Val s \<and>
     fst (resize s) = UB"
proof -
  let ?st = "\<lparr>initialSize = 13, set_compressionEnabled = False, set_usePrimeNumbers = True\<rparr>"
  obtain p where p: "MemoryPool [11] 13 = Val p" "capacity p = 13" using MemoryPool_ok [of 13 "[11]"] by auto
  then obtain s where s: "KeyValueStore [11] ?st = Val s" "entryPool s = p" "tableSize s = 13"
    "usePrimeNumbers s" "primegen s = [11]" by (simp add: KeyValueStore_def)
  have "fst (resize s) = UB"
    by (rule resize_to_smaller_is_undefined [of _ 11 "[]"]) (simp_all add: s p)
  with s(1) show ?thesis by blast
qed

text \<open>
  Reading a compressed value leaks: every \<^verbatim>\<open>get\<close> that hits a compressed entry returns a new
  buffer that no entry of the pool points to, so nothing in the store can free it.
\<close>

theorem compressed_get_leaks:
  assumes "kvs_inv z s" and "lookup_idx s key = Some i" and "contents (entryPool s) i = Some (key, True, b)"
  shows "\<exists>a s'. kvs_get_key z key s = (Val (Some a), s') \<and> mem (heap (entryPool s)) a = None \<and>
    mem (heap (entryPool s')) a \<noteq> None \<and> Some a \<notin> e_value ` set (pool (entryPool s'))"
proof -
  obtain free where ok: "kvs_ok z s free" using assms(1) by (auto simp: kvs_inv_def)
  note sh = shapeD [OF kvs_okD(1) [OF ok]]
  let ?p = "entryPool s" and ?a = "next_addr (heap (entryPool s))"
  obtain v where v: "decodes z True b v" using kvs_okD(2) [OF ok] assms(3) unfolding values_ok_def by blast
  obtain e a where e: "pool_get ?p i = Some e" "e_compressed e" "e_value e = Some a"
    "mem (heap ?p) a = Some b" "e_vSize e = length b"
    using pool_get_contents [OF sh(1) assms(3)] by metis
  let ?s' = "s\<lparr>entryPool := ?p\<lparr>heap := snd (new_buf (v @ [NUL]) (heap ?p))\<rparr>\<rparr>"
  have run: "kvs_get_key z key s = (Val (Some ?a), ?s')"
    using find_entry_lookup [OF kvs_okD(1) [OF ok], of key] assms(2) e v
    by (simp add: kvs_get_key_def kvs_get_def decompressEntry_def decodes_def OPERATION_SUCCESS_def new_buf_def)
  have fresh: "mem (heap ?p) ?a = None" using pool_invD(3) [OF sh(1)] by (rule new_buf_fresh)
  have "e_value (pool ?p ! j) \<noteq> Some ?a" if "j < capacity ?p" for j
    using pool_invD(4) [OF sh(1) that] fresh by (auto simp: entry_ok_def split: option.splits)
  then have "Some ?a \<notin> e_value ` set (pool ?p)"
    using pool_invD(1) [OF sh(1)] by (metis (no_types, lifting) imageE in_set_conv_nth)
  with run fresh show ?thesis by (auto simp: heap_simps)
qed

text \<open>A store whose slots all hold one compressed entry.\<close>

lemma positions_nonempty: "(calcIndex h 0 n, 0) \<in> set (positions n h)"
  by (simp add: positions_def positions_from_def MAX_READ_WRITE_ATTEMPTS_def BUCKET_SIZE_def upt_rec)

lemma compressed_store_exists:
  "\<exists>s b. kvs_inv store_zlib s \<and> lookup_idx s ''a'' = Some 1 \<and> contents (entryPool s) 1 = Some (''a'', True, b)"
proof -
  obtain b where b: "decodes store_zlib True b ''v''"
    using Decompress_Compress [OF store_zlib_contract, of "''v''"] by (auto simp: decodes_def)
  obtain p0 where p0: "MemoryPool [] 10 = Val p0" "pool_inv p0 [1..<10]" "contents p0 = Map.empty" "capacity p0 = 10"
    using MemoryPool_ok [of 10 "[]"] by auto
  have "[1..<10] = 1 # [2..<10 :: nat]" by (simp add: upt_rec)
  then obtain p where p: "pool_inv p [2..<10]" "contents p = [1 \<mapsto> (''a'', True, b)]" "capacity p = 10"
    using entry_pool.insert_new [of p0 1 "[2..<10]" "''a''" b True] p0 by auto
  define s where "s = store10\<lparr>entryPool := p, table := replicate 10 (replicate 4 1)\<rparr>"
  have size: "tableSize store10 = 10" by code_simp
  have t: "table_ok (replicate 10 (replicate 4 1)) 10" by (auto simp: table_ok_def BUCKET_SIZE_def)
  have "kvs_ok store_zlib s [2..<10]"
    using store10_ok(1) p b t size
    by (auto simp: kvs_inv_def kvs_ok_def shape_def values_ok_def s_def split: if_splits)
  moreover have "threshold (tableSize s) \<le> length [2..<10] + numEntries s"
    by (simp add: s_def size threshold_def RESIZE_THRESHOLD_PERCENTAGE_def)
  ultimately have inv: "kvs_inv store_zlib s" unfolding kvs_inv_def by blast
  have k: "key_of (entryPool s) i = Some ''a'' \<longleftrightarrow> i = 1" for i using p(2) by (auto simp: s_def key_of_def)
  let ?q = "(calcIndex (hashFunc ''a'') 0 10, 0 :: nat)"
  have "calcIndex (hashFunc ''a'') 0 10 < 10" by simp
  then have "slot (table s) ?q = 1" by (simp add: slot_def s_def)
  then have "lookup_idx s ''a'' \<noteq> None"
    using positions_nonempty [of "hashFunc ''a''" 10] k lookup_idx_None_iff [of s "''a''"] by (auto simp: s_def size)
  then have "lookup_idx s ''a'' = Some 1" using lookup_idx_SomeD [of s "''a''"] k by auto
  with inv p(2) show ?thesis by (intro exI [of _ s] exI [of _ b]) (simp add: s_def)
qed

theorem compressed_get_leaks_witness:
  "\<exists>s a s'. kvs_inv store_zlib s \<and> kvs_get_key store_zlib ''a'' s = (Val (Some a), s') \<and>
    mem (heap (entryPool s)) a = None \<and> mem (heap (entryPool s')) a \<noteq> None \<and>
    Some a \<notin> e_value ` set (pool (entryPool s'))"
  using compressed_store_exists compressed_get_leaks [of store_zlib _ "''a''" 1] by blast

end
