(* ===== verification/Resp.thy ===== *)
theory Resp
  imports Prelude
begin

section \<open>Parsing RESP requests (src/src/server/protocol.cpp)\<close>

text \<open>
  \<^verbatim>\<open>parseRespMessageLength\<close> finds the end of a RESP array in the read buffer, \<^verbatim>\<open>parseRespCommand\<close>
  splits it into at most three strings. Positions and lengths are \<^verbatim>\<open>size_t\<close>: their sums are taken
  modulo \<open>2 ^ 64\<close>, and an access outside the buffer is \<open>UB\<close>.
\<close>

abbreviation CR :: char where "CR \<equiv> CHR 0x0D"
abbreviation LF :: char where "LF \<equiv> CHR 0x0A"

definition RESP_ARRAY_PREFIX :: char where "RESP_ARRAY_PREFIX = CHR ''*''"
definition RESP_BULK_PREFIX :: char where "RESP_BULK_PREFIX = CHR ''$''"
definition MSG_SEPARATOR :: char where "MSG_SEPARATOR = CHR 0x1F"

definition size_mod :: "nat \<Rightarrow> nat" where
  "size_mod n = n mod 2 ^ 64"

datatype RespParseStatus = Incomplete | Complete | ParseError

record RespParseResult =
  status :: RespParseStatus
  msg_length :: nat

definition is_digit :: "char \<Rightarrow> bool" where
  "is_digit c \<longleftrightarrow> 48 \<le> (of_char c :: nat) \<and> (of_char c :: nat) \<le> 57"

definition digit_val :: "char \<Rightarrow> nat" where
  "digit_val c = of_char c - 48"

definition add_digit :: "nat \<Rightarrow> char \<Rightarrow> nat" where
  "add_digit val c = size_mod (val * 10 + digit_val c)"

text \<open>
  \<^verbatim>\<open>u64_to_ascii\<close>: the loop collects the digits from the lowest, the swapping loop reverses them.
\<close>

fun digits_rev :: "nat \<Rightarrow> bytes" where
  "digits_rev v = char_of (48 + v mod 10) # (if v div 10 = 0 then [] else digits_rev (v div 10))"

declare digits_rev.simps [simp del]

definition u64_to_ascii :: "nat \<Rightarrow> bytes" where
  "u64_to_ascii v = rev (digits_rev v)"

subsection \<open>Message length\<close>

text \<open>
  The two identical loops over the digits of an array or bulk length; \<open>None\<close> is the error return.
  A line that ends with the buffer is accepted as far as it goes.
\<close>

function read_len :: "bytes \<Rightarrow> nat \<Rightarrow> bool \<Rightarrow> nat \<Rightarrow> (nat \<times> nat) option" where
  "read_len buf idx any val =
     (if idx < length buf then
        let c = buf ! idx
        in if c = CR then
             (if length buf \<le> idx + 1 \<or> buf ! (idx + 1) \<noteq> LF \<or> \<not> any then None
              else Some (idx + 2, val))
           else if \<not> is_digit c then None
           else read_len buf (idx + 1) True (add_digit val c)
      else if \<not> any then None
      else Some (idx, val))"
  by pat_completeness auto
termination
  by (relation "measure (\<lambda>(buf, idx, any, val). length buf - idx)") auto

declare read_len.simps [simp del]

text \<open>The test of the two bytes after a bulk string.\<close>

definition crlf_at :: "bytes \<Rightarrow> nat \<Rightarrow> bool cpp" where
  "crlf_at buf idx =
     (if length buf \<le> idx then UB
      else if buf ! idx \<noteq> CR then Val False
      else if length buf \<le> size_mod (idx + 1) then UB
      else Val (buf ! size_mod (idx + 1) = LF))"

definition parse_status :: "RespParseStatus \<Rightarrow> RespParseResult cpp" where
  "parse_status st = Val \<lparr>status = st, msg_length = 0\<rparr>"

text \<open>The loop over the arguments; the first argument counts the ones left.\<close>

fun parse_args :: "nat \<Rightarrow> bytes \<Rightarrow> nat \<Rightarrow> nat \<Rightarrow> RespParseResult cpp" where
  "parse_args 0 buf start idx = Val \<lparr>status = Complete, msg_length = size_mod (idx + 2 ^ 64 - start)\<rparr>"
| "parse_args (Suc n) buf start idx =
     (if length buf \<le> idx then parse_status Incomplete
      else if buf ! idx \<noteq> RESP_BULK_PREFIX then parse_status ParseError
      else (case read_len buf (idx + 1) False 0 of
          None \<Rightarrow> parse_status ParseError
        | Some (idx, bulkLen) \<Rightarrow>
            if length buf < size_mod (idx + bulkLen + 2) then parse_status Incomplete
            else let idx = size_mod (idx + bulkLen)
              in (case crlf_at buf idx of
                  Val True \<Rightarrow> parse_args n buf start (size_mod (idx + 2))
                | Val False \<Rightarrow> parse_status ParseError
                | _ \<Rightarrow> UB)))"

definition parseRespMessageLength :: "bytes \<Rightarrow> nat \<Rightarrow> RespParseResult cpp" where
  "parseRespMessageLength buf start =
     (if length buf \<le> start \<or> buf ! start \<noteq> RESP_ARRAY_PREFIX then parse_status ParseError
      else (case read_len buf (start + 1) False 0 of
          None \<Rightarrow> parse_status ParseError
        | Some (idx, arrayLen) \<Rightarrow> parse_args arrayLen buf start idx))"

subsection \<open>Command parts\<close>

text \<open>
  \<^verbatim>\<open>read_crlf_decimal\<close> differs from the loop above at the end of the buffer, where it fails.
\<close>

function read_crlf_decimal :: "bytes \<Rightarrow> nat \<Rightarrow> bool \<Rightarrow> nat \<Rightarrow> (nat \<times> nat) option" where
  "read_crlf_decimal buf idx any val =
     (if idx < length buf then
        let c = buf ! idx
        in if c = CR then
             (if length buf \<le> idx + 1 \<or> buf ! (idx + 1) \<noteq> LF \<or> \<not> any then None
              else Some (idx + 2, val))
           else if \<not> is_digit c then None
           else read_crlf_decimal buf (idx + 1) True (add_digit val c)
      else None)"
  by pat_completeness auto
termination
  by (relation "measure (\<lambda>(buf, idx, any, val). length buf - idx)") auto

declare read_crlf_decimal.simps [simp del]

text \<open>
  \<^verbatim>\<open>parseRespCommand\<close> writes a NUL over the CR behind every string and stores pointers into the
  payload; the parts are positions, read as C strings from the payload it leaves behind. A part
  that starts at the end of the payload points behind it.
\<close>

record RespCommandParts =
  command :: "nat option"
  part_key :: "nat option"
  part_value :: "nat option"
  argc :: nat

definition no_parts :: RespCommandParts where
  "no_parts = \<lparr>command = None, part_key = None, part_value = None, argc = 0\<rparr>"

definition set_part :: "nat \<Rightarrow> nat \<Rightarrow> RespCommandParts \<Rightarrow> RespCommandParts" where
  "set_part i p parts =
     (if i = 0 then parts\<lparr>command := Some p\<rparr>
      else if i = 1 then parts\<lparr>part_key := Some p\<rparr>
      else parts\<lparr>part_value := Some p\<rparr>)"

fun command_loop :: "nat \<Rightarrow> nat \<Rightarrow> bytes \<Rightarrow> nat \<Rightarrow> RespCommandParts \<Rightarrow> (bytes \<times> RespCommandParts) option cpp" where
  "command_loop 0 i data idx parts = Val (Some (data, parts))"
| "command_loop (Suc n) i data idx parts =
     (if length data \<le> idx \<or> data ! idx \<noteq> RESP_BULK_PREFIX then Val None
      else (case read_crlf_decimal data (idx + 1) False 0 of
          None \<Rightarrow> Val None
        | Some (idx, len) \<Rightarrow>
            if length data < size_mod (idx + len + 2) then Val None
            else let startPtr = idx; idx = size_mod (idx + len)
              in if length data \<le> size_mod (idx + 1) then Val None
                 else (case crlf_at data idx of
                     Val True \<Rightarrow> command_loop n (i + 1) (data[idx := NUL]) (size_mod (idx + 2)) (set_part i startPtr parts)
                   | Val False \<Rightarrow> Val None
                   | _ \<Rightarrow> UB)))"

definition parseRespCommand :: "bytes \<Rightarrow> (bytes \<times> RespCommandParts) option cpp" where
  "parseRespCommand payload =
     (if payload = [] \<or> hd payload \<noteq> RESP_ARRAY_PREFIX then Val None
      else (case read_crlf_decimal payload 1 False 0 of
          None \<Rightarrow> Val None
        | Some (idx, elements) \<Rightarrow>
            if elements < 1 \<or> 3 < elements then Val None
            else (case command_loop elements 0 payload idx no_parts of
                Val (Some (data, parts)) \<Rightarrow> Val (Some (data, parts\<lparr>argc := elements\<rparr>))
              | r \<Rightarrow> r)))"

text \<open>
  The string a part points to. Without a NUL behind it the read leaves the payload, which is \<open>None\<close>.
\<close>

definition part_str :: "bytes \<Rightarrow> nat option \<Rightarrow> bytes option" where
  "part_str data p = (case p of
       None \<Rightarrow> None
     | Some i \<Rightarrow> if NUL \<in> set (drop i data) then Some (cstr (drop i data)) else None)"

end
