(* ===== verification/Resp_Props.thy ===== *)
theory Resp_Props
  imports Resp
begin

section \<open>Properties of the RESP parser\<close>

text \<open>
  \<open>resp_request\<close> is the encoding of a command as clients send it: an array of bulk strings. The
  parser finds its end wherever it lies in the buffer and gives back its parts; lengths that
  overflow \<^verbatim>\<open>size_t\<close> make it leave the buffer.
\<close>

definition bulk :: "bytes \<Rightarrow> bytes" where
  "bulk s = RESP_BULK_PREFIX # u64_to_ascii (length s) @ [CR, LF] @ s @ [CR, LF]"

definition resp_request :: "bytes list \<Rightarrow> bytes" where
  "resp_request args = RESP_ARRAY_PREFIX # u64_to_ascii (length args) @ [CR, LF] @ concat (map bulk args)"

subsection \<open>Decimal numbers\<close>

lemma size_mod_id [simp]: "n < 2 ^ 64 \<Longrightarrow> size_mod n = n"
  by (simp add: size_mod_def)

lemma size_mod_diff [simp]: "b \<le> a \<Longrightarrow> a < 2 ^ 64 \<Longrightarrow> size_mod (a + 2 ^ 64 - b) = a - b"
proof -
  assume "b \<le> a" "a < 2 ^ 64"
  then have "a + 2 ^ 64 - b = (a - b) + 2 ^ 64" "a - b < 2 ^ 64" by simp_all
  then show ?thesis by (simp only: size_mod_def mod_add_self2 mod_less)
qed

lemma u64_to_ascii_rec:
  "u64_to_ascii v = (if v < 10 then [] else u64_to_ascii (v div 10)) @ [char_of (48 + v mod 10)]"
  by (auto simp: u64_to_ascii_def digits_rev.simps [of v] div_eq_0_iff)

lemma digit_char: "d < 10 \<Longrightarrow> is_digit (char_of (48 + d)) \<and> digit_val (char_of (48 + d)) = d"
  by (simp add: is_digit_def digit_val_def)

lemma u64_to_ascii_digits: "list_all is_digit (u64_to_ascii v)"
proof (induction v rule: less_induct)
  case (less v)
  show ?case
    using less.IH [of "v div 10"] digit_char [of "v mod 10"]
    by (subst u64_to_ascii_rec) auto
qed

lemma u64_to_ascii_ne [simp]: "u64_to_ascii v \<noteq> []"
  by (subst u64_to_ascii_rec) simp

lemma foldl_add_digit: "v < 2 ^ 64 \<Longrightarrow> foldl add_digit 0 (u64_to_ascii v) = v"
proof (induction v rule: less_induct)
  case (less v)
  show ?case
  proof (cases "v < 10")
    case True
    then show ?thesis using digit_char [of v] by (subst u64_to_ascii_rec) (simp add: add_digit_def)
  next
    case False
    have "foldl add_digit 0 (u64_to_ascii (v div 10)) = v div 10"
      using less.IH [of "v div 10"] less.prems False by simp
    with False less.prems digit_char [of "v mod 10"] show ?thesis
      by (subst u64_to_ascii_rec) (simp add: add_digit_def)
  qed
qed

lemma CR_not_digit [simp]: "\<not> is_digit CR"
  by (simp add: is_digit_def)

lemma read_len_digits:
  assumes "list_all is_digit ds" "any \<or> ds \<noteq> []"
  shows "read_len (pre @ ds @ CR # LF # rest) (length pre) any val =
    Some (length pre + length ds + 2, foldl add_digit val ds)"
  using assms
proof (induction ds arbitrary: pre any val)
  case Nil
  then show ?case by (subst read_len.simps) (simp add: nth_append)
next
  case (Cons d ds)
  have "read_len (pre @ (d # ds) @ CR # LF # rest) (length pre) any val =
      read_len ((pre @ [d]) @ ds @ CR # LF # rest) (length (pre @ [d])) True (add_digit val d)"
    using Cons.prems by (subst read_len.simps) auto
  also have "\<dots> = Some (length (pre @ [d]) + length ds + 2, foldl add_digit (add_digit val d) ds)"
    using Cons.prems by (intro Cons.IH) simp_all
  finally show ?case by simp
qed

text \<open>The same number when the buffer ends behind it, or behind the CR.\<close>

lemma read_len_cut:
  assumes "list_all is_digit ds" "any \<or> ds \<noteq> []"
  shows "read_len (pre @ ds) (length pre) any val = Some (length pre + length ds, foldl add_digit val ds)"
    "read_len (pre @ ds @ [CR]) (length pre) any val = None"
  using assms
proof (induction ds arbitrary: pre any val)
  case Nil
  { case 1 then show ?case by (subst read_len.simps) simp }
  { case 2 then show ?case by (subst read_len.simps) simp }
next
  case (Cons d ds)
  have step: "read_len (pre @ (d # ds) @ tl) (length pre) any val =
      read_len ((pre @ [d]) @ ds @ tl) (length (pre @ [d])) True (add_digit val d)" if "is_digit d" for tl pre any val
    using that by (subst read_len.simps) auto
  { case 1
    then have "read_len (pre @ d # ds) (length pre) any val =
        read_len ((pre @ [d]) @ ds) (length (pre @ [d])) True (add_digit val d)"
      using step [of pre "[]" any val] by simp
    also have "\<dots> = Some (length (pre @ [d]) + length ds, foldl add_digit (add_digit val d) ds)"
      using 1 by (intro Cons.IH(1)) simp_all
    finally show ?case by simp }
  { case 2
    then have "read_len (pre @ (d # ds) @ [CR]) (length pre) any val =
        read_len ((pre @ [d]) @ ds @ [CR]) (length (pre @ [d])) True (add_digit val d)"
      using step [of pre "[CR]" any val] by simp
    also have "\<dots> = None" using 2 by (intro Cons.IH(2)) simp_all
    finally show ?case . }
qed

lemma read_crlf_decimal_digits:
  assumes "list_all is_digit ds" "any \<or> ds \<noteq> []"
  shows "read_crlf_decimal (pre @ ds @ CR # LF # rest) (length pre) any val =
    Some (length pre + length ds + 2, foldl add_digit val ds)"
  using assms
proof (induction ds arbitrary: pre any val)
  case Nil
  then show ?case by (subst read_crlf_decimal.simps) (simp add: nth_append)
next
  case (Cons d ds)
  have "read_crlf_decimal (pre @ (d # ds) @ CR # LF # rest) (length pre) any val =
      read_crlf_decimal ((pre @ [d]) @ ds @ CR # LF # rest) (length (pre @ [d])) True (add_digit val d)"
    using Cons.prems by (subst read_crlf_decimal.simps) auto
  also have "\<dots> = Some (length (pre @ [d]) + length ds + 2, foldl add_digit (add_digit val d) ds)"
    using Cons.prems by (intro Cons.IH) simp_all
  finally show ?case by simp
qed

text \<open>The number behind a prefix character, as both parsers read it.\<close>

lemma read_number:
  assumes "v < 2 ^ 64"
  shows "read_len (pre @ c # u64_to_ascii v @ CR # LF # rest) (length pre + 1) False 0 =
      Some (length pre + length (u64_to_ascii v) + 3, v)"
    "read_crlf_decimal (pre @ c # u64_to_ascii v @ CR # LF # rest) (length pre + 1) False 0 =
      Some (length pre + length (u64_to_ascii v) + 3, v)"
  using read_len_digits [OF u64_to_ascii_digits, of False v "pre @ [c]" rest 0]
    read_crlf_decimal_digits [OF u64_to_ascii_digits, of False v "pre @ [c]" rest 0] foldl_add_digit [OF assms]
  by simp_all

subsection \<open>Finding the end of a message\<close>

lemma crlf_at_found:
  "length (pre @ CR # LF # rest) < 2 ^ 64 \<Longrightarrow> crlf_at (pre @ CR # LF # rest) (length pre) = Val True"
  by (simp add: crlf_at_def nth_append)

lemma parse_args_step:
  assumes "idx < length buf" "buf ! idx = RESP_BULK_PREFIX" "read_len buf (idx + 1) False 0 = Some (i, n)"
    "i + n + 2 \<le> length buf" "length buf < 2 ^ 63" "crlf_at buf (i + n) = Val True"
  shows "parse_args (Suc k) buf start idx = parse_args k buf start (i + n + 2)"
  using assms by (simp add: Let_def)

lemma parse_args_bulks:
  assumes "length (pre @ concat (map bulk args) @ rest) < 2 ^ 63" "start \<le> length pre"
  shows "parse_args (length args) (pre @ concat (map bulk args) @ rest) start (length pre) =
    Val \<lparr>status = Complete, msg_length = length pre + length (concat (map bulk args)) - start\<rparr>"
  using assms
proof (induction args arbitrary: pre)
  case Nil
  then have "length pre < 2 ^ 64" by simp
  with Nil show ?case using size_mod_diff [of start "length pre"] by simp
next
  case (Cons s args)
  let ?n = "u64_to_ascii (length s)"
  let ?buf = "pre @ concat (map bulk (s # args)) @ rest"
  let ?pre2 = "pre @ RESP_BULK_PREFIX # ?n @ [CR, LF] @ s"
  have buf: "?buf = pre @ RESP_BULK_PREFIX # ?n @ CR # LF # (s @ CR # LF # concat (map bulk args) @ rest)"
    and buf2: "?buf = ?pre2 @ CR # LF # (concat (map bulk args) @ rest)"
    and buf3: "?buf = (pre @ bulk s) @ concat (map bulk args) @ rest"
    by (simp_all add: bulk_def)
  have len: "length s < 2 ^ 64" using Cons.prems(1) by (simp add: bulk_def)
  have num: "read_len ?buf (length pre + 1) False 0 = Some (length pre + length ?n + 3, length s)"
    unfolding buf by (rule read_number(1) [OF len])
  have crlf: "crlf_at ?buf (length ?pre2) = Val True"
    unfolding buf2 using Cons.prems(1) unfolding buf2 by (intro crlf_at_found) simp
  have pos: "length pre + length ?n + 3 + length s = length ?pre2" by simp
  have room: "length ?pre2 + 2 \<le> length ?buf" "length ?buf < 2 ^ 63"
    unfolding buf2 using Cons.prems(1) unfolding buf2 by simp_all
  have first: "length pre < length ?buf" "?buf ! length pre = RESP_BULK_PREFIX" by (simp_all add: bulk_def)
  have "parse_args (Suc (length args)) ?buf start (length pre) =
      parse_args (length args) ?buf start (length ?pre2 + 2)"
    using parse_args_step [OF first num, unfolded pos, OF room crlf] .
  also have "length ?pre2 + 2 = length (pre @ bulk s)" by (simp add: bulk_def)
  also have "parse_args (length args) ?buf start (length (pre @ bulk s)) =
      Val \<lparr>status = Complete, msg_length = length (pre @ bulk s) + length (concat (map bulk args)) - start\<rparr>"
    unfolding buf3 by (rule Cons.IH) (use Cons.prems in simp_all)
  finally show ?case by simp
qed

lemma parse_header_step:
  "start < length buf \<Longrightarrow> buf ! start = RESP_ARRAY_PREFIX \<Longrightarrow> read_len buf (start + 1) False 0 = Some (i, n) \<Longrightarrow>
   parseRespMessageLength buf start = parse_args n buf start i"
  by (simp add: parseRespMessageLength_def)

lemma length_args_bulks: "length args \<le> length (concat (map bulk args))"
proof (induction args)
  case (Cons s args)
  moreover have "1 \<le> length (bulk s)" by (simp add: bulk_def)
  ultimately show ?case by simp
qed simp

lemma parseRespMessageLength_request:
  assumes "length (pre @ resp_request args @ rest) < 2 ^ 63"
  shows "parseRespMessageLength (pre @ resp_request args @ rest) (length pre) =
    Val \<lparr>status = Complete, msg_length = length (resp_request args)\<rparr>"
proof -
  let ?n = "u64_to_ascii (length args)"
  let ?buf = "pre @ resp_request args @ rest"
  let ?pre2 = "pre @ RESP_ARRAY_PREFIX # ?n @ [CR, LF]"
  have buf: "?buf = pre @ RESP_ARRAY_PREFIX # ?n @ CR # LF # (concat (map bulk args) @ rest)"
    and buf2: "?buf = ?pre2 @ concat (map bulk args) @ rest" by (simp_all add: resp_request_def)
  have "length (concat (map bulk args)) < 2 ^ 63" using assms by (simp add: resp_request_def)
  then have n: "length args < 2 ^ 64" using length_args_bulks [of args] by simp
  have num: "read_len ?buf (length pre + 1) False 0 = Some (length pre + length ?n + 3, length args)"
    unfolding buf by (rule read_number(1) [OF n])
  have pos: "length pre + length ?n + 3 = length ?pre2" by simp
  have "parse_args (length args) ?buf (length pre) (length ?pre2) =
      Val \<lparr>status = Complete, msg_length = length ?pre2 + length (concat (map bulk args)) - length pre\<rparr>"
    unfolding buf2 using assms by (intro parse_args_bulks) (simp_all add: resp_request_def)
  moreover have "length ?pre2 + length (concat (map bulk args)) - length pre = length (resp_request args)"
    by (simp add: resp_request_def)
  moreover have "length pre < length ?buf" "?buf ! length pre = RESP_ARRAY_PREFIX"
    by (simp_all add: resp_request_def)
  ultimately show ?thesis using parse_header_step [of "length pre" ?buf] num unfolding pos by simp
qed

subsection \<open>Splitting a command\<close>

definition bulk0 :: "bytes \<Rightarrow> bytes" where
  "bulk0 s = RESP_BULK_PREFIX # u64_to_ascii (length s) @ [CR, LF] @ s @ [NUL, LF]"

text \<open>The parts that the loop records for the strings behind \<open>pre\<close>.\<close>

fun parts_from :: "nat \<Rightarrow> nat \<Rightarrow> bytes list \<Rightarrow> RespCommandParts \<Rightarrow> RespCommandParts" where
  "parts_from i pos [] parts = parts"
| "parts_from i pos (s # ss) parts =
     parts_from (i + 1) (pos + length (bulk s)) ss (set_part i (pos + length (u64_to_ascii (length s)) + 3) parts)"

lemma command_loop_step:
  assumes "idx < length buf" "buf ! idx = RESP_BULK_PREFIX" "read_crlf_decimal buf (idx + 1) False 0 = Some (j, n)"
    "j + n + 2 \<le> length buf" "length buf < 2 ^ 63" "crlf_at buf (j + n) = Val True"
  shows "command_loop (Suc k) i buf idx parts =
    command_loop k (i + 1) (buf[j + n := NUL]) (j + n + 2) (set_part i j parts)"
  using assms by (simp add: Let_def)

lemma command_loop_bulks:
  assumes "length (pre @ concat (map bulk args)) < 2 ^ 63"
  shows "command_loop (length args) i (pre @ concat (map bulk args)) (length pre) parts =
    Val (Some (pre @ concat (map bulk0 args), parts_from i (length pre) args parts))"
  using assms
proof (induction args arbitrary: pre i parts)
  case (Cons s args)
  let ?n = "u64_to_ascii (length s)"
  let ?buf = "pre @ concat (map bulk (s # args))"
  let ?pre2 = "pre @ RESP_BULK_PREFIX # ?n @ [CR, LF] @ s"
  have buf: "?buf = pre @ RESP_BULK_PREFIX # ?n @ CR # LF # (s @ CR # LF # concat (map bulk args))"
    and buf2: "?buf = ?pre2 @ CR # LF # concat (map bulk args)"
    by (simp_all add: bulk_def)
  have len: "length s < 2 ^ 64" using Cons.prems(1) by (simp add: bulk_def)
  have num: "read_crlf_decimal ?buf (length pre + 1) False 0 = Some (length pre + length ?n + 3, length s)"
    unfolding buf by (rule read_number(2) [OF len])
  have crlf: "crlf_at ?buf (length ?pre2) = Val True"
    unfolding buf2 using Cons.prems(1) unfolding buf2 by (intro crlf_at_found) simp
  have pos: "length pre + length ?n + 3 + length s = length ?pre2" by simp
  have room: "length ?pre2 + 2 \<le> length ?buf" "length ?buf < 2 ^ 63"
    unfolding buf2 using Cons.prems(1) unfolding buf2 by simp_all
  have first: "length pre < length ?buf" "?buf ! length pre = RESP_BULK_PREFIX" by (simp_all add: bulk_def)
  have upd: "?buf[length ?pre2 := NUL] = (pre @ bulk0 s) @ concat (map bulk args)"
    unfolding buf2 list_update_length by (simp add: bulk0_def)
  have next_pos: "length ?pre2 + 2 = length (pre @ bulk0 s)" "length (pre @ bulk0 s) = length pre + length (bulk s)"
    by (simp_all add: bulk0_def bulk_def)
  have "command_loop (Suc (length args)) i ?buf (length pre) parts =
      command_loop (length args) (i + 1) ((pre @ bulk0 s) @ concat (map bulk args)) (length (pre @ bulk0 s))
        (set_part i (length pre + length ?n + 3) parts)"
    using command_loop_step [OF first num, unfolded pos, OF room crlf] unfolding upd next_pos(1) .
  also have "\<dots> = Val (Some ((pre @ bulk0 s) @ concat (map bulk0 args),
      parts_from (i + 1) (length (pre @ bulk0 s)) args (set_part i (length pre + length ?n + 3) parts)))"
    using Cons.prems by (intro Cons.IH) (simp add: bulk0_def bulk_def)
  finally show ?case unfolding next_pos(2) by simp
qed simp


lemma cstr_until: "cstr (s @ NUL # t) = cstr s"
  by (induction s) (auto simp: cstr_def)

lemma part_str_at:
  "part_str (pre @ c # n @ [CR, LF] @ s @ NUL # rest) (Some (length pre + length n + 3)) = Some (cstr s)"
proof -
  have "pre @ c # n @ [CR, LF] @ s @ NUL # rest = (pre @ c # n @ [CR, LF]) @ s @ NUL # rest"
    "length pre + length n + 3 = length (pre @ c # n @ [CR, LF])" by simp_all
  then have "drop (length pre + length n + 3) (pre @ c # n @ [CR, LF] @ s @ NUL # rest) = s @ NUL # rest"
    by (metis append_eq_conv_conj)
  then show ?thesis by (simp add: part_str_def cstr_until)
qed

lemma part_str_bulk0:
  "part_str (pre @ bulk0 s @ rest) (Some (length pre + length (u64_to_ascii (length s)) + 3)) = Some (cstr s)"
  using part_str_at [of pre RESP_BULK_PREFIX "u64_to_ascii (length s)" s "LF # rest"] by (simp add: bulk0_def)

lemma length_bulk0: "length (bulk0 s) = length (bulk s)"
  by (simp add: bulk0_def bulk_def)

lemma parseRespCommand_request:
  assumes "1 \<le> length args" "length args \<le> 3" "length (resp_request args) < 2 ^ 63"
  shows "parseRespCommand (resp_request args) =
    (let pre = RESP_ARRAY_PREFIX # u64_to_ascii (length args) @ [CR, LF]
     in Val (Some (pre @ concat (map bulk0 args), (parts_from 0 (length pre) args no_parts)\<lparr>argc := length args\<rparr>)))"
proof -
  let ?n = "u64_to_ascii (length args)"
  let ?pre = "RESP_ARRAY_PREFIX # ?n @ [CR, LF]"
  have buf: "resp_request args = [] @ RESP_ARRAY_PREFIX # ?n @ CR # LF # concat (map bulk args)"
    "resp_request args = ?pre @ concat (map bulk args)" by (simp_all add: resp_request_def)
  have "length args < 2 ^ 64" using assms(2) by simp
  from read_number(2) [OF this, of "[]" RESP_ARRAY_PREFIX "concat (map bulk args)"]
  have num: "read_crlf_decimal (resp_request args) 1 False 0 = Some (length ?pre, length args)"
    unfolding buf(1) by simp
  have "command_loop (length args) 0 (resp_request args) (length ?pre) no_parts =
      Val (Some (?pre @ concat (map bulk0 args), parts_from 0 (length ?pre) args no_parts))"
    unfolding buf(2) using assms(3) unfolding buf(2) by (rule command_loop_bulks)
  moreover have "resp_request args \<noteq> []" "hd (resp_request args) = RESP_ARRAY_PREFIX"
    by (simp_all add: resp_request_def)
  ultimately show ?thesis using num assms(1,2) unfolding parseRespCommand_def by auto
qed

lemma three_args:
  assumes "1 \<le> length args" "length args \<le> 3"
  obtains a where "args = [a]" | a b where "args = [a, b]" | a b c where "args = [a, b, c]"
proof -
  consider "length args = 1" | "length args = 2" | "length args = 3" using assms by linarith
  then show thesis using that by cases (auto simp: length_Suc_conv numeral_2_eq_2 numeral_3_eq_3)
qed

lemma command_parts:
  assumes "1 \<le> length args" and "length args \<le> 3" and "length (resp_request args) < 2 ^ 63"
  shows "\<exists>data parts. parseRespCommand (resp_request args) = Val (Some (data, parts)) \<and>
    argc parts = length args \<and>
    map (part_str data) (take (length args) [command parts, part_key parts, part_value parts]) =
      map (\<lambda>a. Some (cstr a)) args"
proof -
  define pre where "pre = RESP_ARRAY_PREFIX # u64_to_ascii (length args) @ [CR, LF]"
  define parts where "parts = (parts_from 0 (length pre) args no_parts)\<lparr>argc := length args\<rparr>"
  define data where "data = pre @ concat (map bulk0 args)"
  have "parseRespCommand (resp_request args) = Val (Some (data, parts))"
    using parseRespCommand_request [OF assms] by (simp add: pre_def data_def parts_def)
  moreover have "map (part_str data) (take (length args) [command parts, part_key parts, part_value parts]) =
      map (\<lambda>a. Some (cstr a)) args"
  proof (rule three_args [OF assms(1,2)])
    fix a assume a: "args = [a]"
    show ?thesis using part_str_bulk0 [of pre a "[]"] by (simp add: a data_def parts_def set_part_def)
  next
    fix a b assume a: "args = [a, b]"
    show ?thesis using part_str_bulk0 [of pre a "bulk0 b"] part_str_bulk0 [of "pre @ bulk0 a" b "[]"]
      by (simp add: a data_def parts_def set_part_def length_bulk0)
  next
    fix a b c assume a: "args = [a, b, c]"
    show ?thesis using part_str_bulk0 [of pre a "bulk0 b @ bulk0 c"] part_str_bulk0 [of "pre @ bulk0 a" b "bulk0 c"]
        part_str_bulk0 [of "pre @ bulk0 a @ bulk0 b" c "[]"]
      by (simp add: a data_def parts_def set_part_def length_bulk0 numeral_3_eq_3 add.assoc)
  qed
  ultimately show ?thesis by (auto simp: parts_def)
qed

lemma parseRespCommand_many:
  assumes "length args = 0 \<or> 3 < length args" "length (resp_request args) < 2 ^ 63"
  shows "parseRespCommand (resp_request args) = Val None"
proof -
  have buf: "resp_request args = [] @ RESP_ARRAY_PREFIX # u64_to_ascii (length args) @ CR # LF # concat (map bulk args)"
    by (simp add: resp_request_def)
  have "length args < 2 ^ 64" using length_args_bulks [of args] assms(2) by (simp add: resp_request_def)
  from read_number(2) [OF this, of "[]" RESP_ARRAY_PREFIX "concat (map bulk args)"]
  have "\<exists>idx. read_crlf_decimal (resp_request args) 1 False 0 = Some (idx, length args)"
    unfolding buf by simp
  then show ?thesis using assms(1) unfolding parseRespCommand_def by (auto simp: resp_request_def)
qed

subsection \<open>Staying inside the buffer\<close>

text \<open>A buffer in which no decimal number has more than 18 digits.\<close>

definition short_numbers :: "bytes \<Rightarrow> bool" where
  "short_numbers buf \<longleftrightarrow> (\<forall>i. i + 19 \<le> length buf \<longrightarrow> \<not> list_all is_digit (take 19 (drop i buf)))"

lemma add_digit_bound:
  assumes "val < 10 ^ k" "k < 18" "is_digit c"
  shows "add_digit val c < 10 ^ Suc k"
proof -
  have d: "digit_val c \<le> 9" using assms(3) by (auto simp: is_digit_def digit_val_def)
  have "val * 10 + digit_val c < 10 ^ Suc k" using assms(1) d by simp
  moreover have "(10 :: nat) ^ Suc k \<le> 10 ^ 18" using assms(2) by (intro power_increasing) auto
  ultimately have "val * 10 + digit_val c < 2 ^ 64" by (rule less_le_trans [THEN less_trans]) simp
  then show ?thesis using \<open>val * 10 + digit_val c < 10 ^ Suc k\<close> by (simp add: add_digit_def)
qed

lemma take_drop_snoc: "i + k < length xs \<Longrightarrow> take (Suc k) (drop i xs) = take k (drop i xs) @ [xs ! (i + k)]"
  by (simp add: take_Suc_conv_app_nth)

lemma read_len_bounds:
  assumes "read_len buf (i0 + k) any val = Some (i, v)" "short_numbers buf" "i0 + k \<le> length buf"
    and "list_all is_digit (take k (drop i0 buf))" "k \<le> 18" "val < 10 ^ k"
  shows "i0 + k \<le> i \<and> i \<le> length buf \<and> v < 10 ^ 18"
  using assms
proof (induction "length buf - (i0 + k)" arbitrary: k any val)
  case 0
  then have "i = i0 + k" "v = val" by (simp_all add: read_len.simps split: if_splits)
  moreover have "(10 :: nat) ^ k \<le> 10 ^ 18" using 0 by (intro power_increasing) auto
  ultimately show ?case using 0 by simp
next
  case (Suc m)
  let ?c = "buf ! (i0 + k)"
  have in_buf: "i0 + k < length buf" using Suc.hyps(2) by simp
  show ?case
  proof (cases "?c = CR")
    case True
    then have "i = i0 + k + 2" "v = val" "i0 + k + 1 < length buf"
      using Suc.prems(1) in_buf by (auto simp: read_len.simps [of buf "i0 + k"] Let_def split: if_splits)
    moreover have "(10 :: nat) ^ k \<le> 10 ^ 18" using Suc.prems by (intro power_increasing) auto
    ultimately show ?thesis using Suc.prems by simp
  next
    case False
    then have c: "is_digit ?c" and rest: "read_len buf (i0 + Suc k) True (add_digit val ?c) = Some (i, v)"
      using Suc.prems(1) in_buf by (auto simp: read_len.simps [of buf "i0 + k"] Let_def split: if_splits)
    have digits: "list_all is_digit (take (Suc k) (drop i0 buf))"
      using Suc.prems(4) c take_drop_snoc [OF in_buf] by simp
    have "k < 18"
    proof (rule ccontr)
      assume "\<not> k < 18"
      then have "k = 18" using Suc.prems(5) by simp
      then show False using digits Suc.prems(2) in_buf by (simp add: short_numbers_def)
    qed
    moreover have "m = length buf - (i0 + Suc k)" using Suc.hyps(2) by simp
    ultimately have "i0 + Suc k \<le> i \<and> i \<le> length buf \<and> v < 10 ^ 18"
      using in_buf add_digit_bound [OF Suc.prems(6) _ c]
      by (intro Suc.hyps(1) [OF _ rest Suc.prems(2) _ digits]) simp_all
    then show ?thesis by simp
  qed
qed

lemma parse_args_in_bounds:
  assumes "short_numbers buf" "length buf < 2 ^ 62" "start \<le> idx" "idx \<le> length buf"
  shows "\<exists>r. parse_args n buf start idx = Val r \<and>
    (status r = Complete \<longrightarrow> idx \<le> start + msg_length r \<and> start + msg_length r \<le> length buf)"
  using assms(3,4)
proof (induction n arbitrary: idx)
  case 0
  then have "idx < 2 ^ 64" using assms(2) by simp
  with 0 show ?case using size_mod_diff [of start idx] by simp
next
  case (Suc n)
  show ?case
  proof (cases "length buf \<le> idx \<or> buf ! idx \<noteq> RESP_BULK_PREFIX \<or> read_len buf (idx + 1) False 0 = None")
    case True
    then show ?thesis by (auto simp: parse_status_def)
  next
    case False
    then obtain i v where r: "read_len buf (idx + 1) False 0 = Some (i, v)" "idx < length buf"
      "buf ! idx = RESP_BULK_PREFIX" by auto
    from read_len_bounds [of buf "idx + 1" 0 False 0 i v] r assms(1)
    have b: "idx + 1 \<le> i" "i \<le> length buf" "v < 10 ^ 18" by auto
    then have sz: "size_mod (i + v + 2) = i + v + 2" "size_mod (i + v) = i + v" "size_mod (i + v + 1) = i + v + 1"
      using assms(2) by simp_all
    show ?thesis
    proof (cases "length buf < i + v + 2")
      case True
      then show ?thesis using r sz by (simp add: parse_status_def)
    next
      case room: False
      then have "crlf_at buf (i + v) \<in> {Val True, Val False}" using sz by (auto simp: crlf_at_def)
      then show ?thesis
        using Suc.IH [of "i + v + 2"] Suc.prems r sz room b by (auto simp: Let_def parse_status_def)
    qed
  qed
qed

lemma parse_length_in_bounds:
  assumes "short_numbers buf" and "length buf < 2 ^ 62" and "start \<le> length buf"
  shows "\<exists>r. parseRespMessageLength buf start = Val r \<and>
    (if status r = Complete then 0 < msg_length r \<and> start + msg_length r \<le> length buf else msg_length r = 0)"
proof (cases "length buf \<le> start \<or> buf ! start \<noteq> RESP_ARRAY_PREFIX \<or> read_len buf (start + 1) False 0 = None")
  case True
  then show ?thesis by (auto simp: parseRespMessageLength_def parse_status_def)
next
  case False
  then obtain i v where r: "read_len buf (start + 1) False 0 = Some (i, v)" "start < length buf"
    "buf ! start = RESP_ARRAY_PREFIX" by auto
  from read_len_bounds [of buf "start + 1" 0 False 0 i v] r assms(1)
  have b: "start + 1 \<le> i" "start \<le> i" "i \<le> length buf" by auto
  have "status r = Complete \<or> msg_length r = 0" if "parse_args n buf start j = Val r" for n j r
    using that by (induction n arbitrary: j)
      (auto simp: parse_status_def Let_def split: if_splits option.splits prod.splits cpp.splits bool.splits)
  with parse_args_in_bounds [OF assms(1,2) b(2,3), of v] parse_header_step [OF r(2,3,1)] b(1)
  show ?thesis by fastforce
qed

subsection \<open>Properties\<close>

text \<open>
  The parser finds the end of every request: an encoded command at any position of the read
  buffer, followed by anything, is reported complete with its exact length.
\<close>

theorem request_length_found:
  assumes "length (pre @ resp_request args @ rest) < 2 ^ 63"
  shows "parseRespMessageLength (pre @ resp_request args @ rest) (length pre) =
    Val \<lparr>status = Complete, msg_length = length (resp_request args)\<rparr>"
  using assms by (rule parseRespMessageLength_request)

theorem request_length_found_witness:
  "parseRespMessageLength ([MSG_SEPARATOR] @ resp_request [''GET'', ''a''] @ ''*1'') (length [MSG_SEPARATOR]) =
    Val \<lparr>status = Complete, msg_length = length (resp_request [''GET'', ''a''])\<rparr>"
proof (rule request_length_found)
  have "length ([MSG_SEPARATOR] @ resp_request [''GET'', ''a''] @ ''*1'') = 23" by code_simp
  then show "length ([MSG_SEPARATOR] @ resp_request [''GET'', ''a''] @ ''*1'') < 2 ^ 63" by simp
qed



text \<open>
  C25: The length parser stays inside the buffer: on any bytes in which no number has more than 18
  digits, from any start, it returns a result without reading outside the buffer, and a message it
  reports complete is not empty and ends inside the buffer.
\<close>

theorem parse_in_bounds:
  assumes "short_numbers buf" and "length buf < 2 ^ 62" and "start \<le> length buf"
  shows "\<exists>r. parseRespMessageLength buf start = Val r \<and>
    (if status r = Complete then 0 < msg_length r \<and> start + msg_length r \<le> length buf else msg_length r = 0)"
  using assms by (rule parse_length_in_bounds)

theorem parse_in_bounds_witness:
  "\<exists>r. parseRespMessageLength ''*2 garbage'' 0 = Val r \<and>
    (if status r = Complete then 0 < msg_length r \<and> 0 + msg_length r \<le> length ''*2 garbage'' else msg_length r = 0)"
  by (rule parse_in_bounds) (simp_all add: short_numbers_def)

definition overflow_request :: bytes where
  "overflow_request = ''*1'' @ [CR, LF] @ ''$18446744073709551587'' @ [CR, LF]"

lemma ascii_overflow: "u64_to_ascii 18446744073709551587 = ''18446744073709551587''"
  by (simp add: u64_to_ascii_def digits_rev.simps char_of_def bit_0)

text \<open>
  A bulk length that overflows \<^verbatim>\<open>size_t\<close> takes the length parser outside the buffer: for the
  27 bytes \<^verbatim>\<open>*1 CRLF $18446744073709551587 CRLF\<close> the sum of position and length wraps to 0, passes
  the test against the buffer size, and the byte at position \<open>2 ^ 64 - 2\<close> is read.
\<close>

theorem overflow_reads_outside:
  "parseRespMessageLength overflow_request 0 = UB"
proof -
  let ?v = "18446744073709551587 :: nat"
  have buf: "overflow_request = [] @ CHR ''*'' # u64_to_ascii 1 @ CR # LF # (CHR ''$'' # u64_to_ascii ?v @ [CR, LF])"
    "overflow_request = (''*1'' @ [CR, LF]) @ CHR ''$'' # u64_to_ascii ?v @ CR # LF # []"
    by (simp_all add: overflow_request_def ascii_overflow, simp add: u64_to_ascii_def digits_rev.simps char_of_def bit_0)
  have len: "length overflow_request = 27" by (simp add: overflow_request_def)
  have n1: "read_len overflow_request (0 + 1) False 0 = Some (4, 1)"
    using read_number(1) [of 1 "[]" "CHR ''*''"] unfolding buf(1) by (simp add: u64_to_ascii_def digits_rev.simps)
  have n2: "read_len overflow_request (4 + 1) False 0 = Some (27, ?v)"
  proof -
    have l: "length (''*1'' @ [CR, LF]) = 4" "length (u64_to_ascii ?v) = 20" by (simp_all add: ascii_overflow)
    show ?thesis
      using read_number(1) [of ?v "''*1'' @ [CR, LF]" "CHR ''$''" "[]", unfolded l, folded buf(2)] by simp
  qed
  have "parse_args (Suc 0) overflow_request 0 4 = UB"
    using n2 len
    by (simp add: crlf_at_def size_mod_def Let_def RESP_BULK_PREFIX_def) (simp add: overflow_request_def)
  then show ?thesis
    using parse_header_step [of 0 overflow_request 4 1] n1 len
    by (simp add: RESP_ARRAY_PREFIX_def) (simp add: overflow_request_def)
qed

text \<open>
  A request that arrives in pieces can be taken for a malformed one: of every request, the
  pieces that end behind the \<^verbatim>\<open>*\<close> or behind the CR of the first line are reported as errors, for
  which the server closes the connection, while the piece without the CR is reported incomplete.
\<close>

theorem split_request_rejected:
  assumes "args \<noteq> []" and "length (resp_request args) < 2 ^ 63"
  shows "parseRespMessageLength (take 1 (resp_request args)) 0 = parse_status ParseError \<and>
    parseRespMessageLength (take (length (u64_to_ascii (length args)) + 2) (resp_request args)) 0 =
      parse_status ParseError \<and>
    parseRespMessageLength (take (length (u64_to_ascii (length args)) + 1) (resp_request args)) 0 =
      parse_status Incomplete"
proof -
  let ?n = "u64_to_ascii (length args)"
  have req: "resp_request args = CHR ''*'' # ?n @ CR # LF # concat (map bulk args)"
    by (simp add: resp_request_def RESP_ARRAY_PREFIX_def)
  have "length args < 2 ^ 64" using assms(2) length_args_bulks [of args] by (simp add: resp_request_def)
  then have num: "foldl add_digit 0 ?n = length args" by (rule foldl_add_digit)
  have t: "take 1 (resp_request args) = ''*''" "take (length ?n + 2) (resp_request args) = CHR ''*'' # ?n @ [CR]"
    "take (length ?n + 1) (resp_request args) = CHR ''*'' # ?n"
    by (simp_all add: req)
  have "read_len (''*'' @ ?n @ [CR]) (length ''*'') False 0 = None"
    "read_len (''*'' @ ?n) (length ''*'') False 0 = Some (length ''*'' + length ?n, length args)"
    using read_len_cut [OF u64_to_ascii_digits, of False "length args" "''*''" 0] num by simp_all
  then have "parseRespMessageLength (''*'' @ ?n @ [CR]) 0 = parse_status ParseError"
    "parseRespMessageLength (''*'' @ ?n) 0 = parse_args (length args) (''*'' @ ?n) 0 (length (''*'' @ ?n))"
    by (simp_all add: parseRespMessageLength_def RESP_ARRAY_PREFIX_def)
  moreover have "parse_args (length args) (''*'' @ ?n) 0 (length (''*'' @ ?n)) = parse_status Incomplete"
    using assms(1) by (cases args) simp_all
  moreover have "parseRespMessageLength ''*'' 0 = parse_status ParseError"
    by (simp add: parseRespMessageLength_def read_len.simps RESP_ARRAY_PREFIX_def)
  ultimately show ?thesis unfolding t by simp
qed

theorem split_request_rejected_witness:
  "parseRespMessageLength ''*'' 0 = parse_status ParseError \<and>
   parseRespMessageLength (''*2'' @ [CR]) 0 = parse_status ParseError \<and>
   parseRespMessageLength ''*2'' 0 = parse_status Incomplete"
proof -
  let ?args = "[''GET'', ''a'']"
  have "length (resp_request ?args) = 20" by code_simp
  then have "length (resp_request ?args) < 2 ^ 63" by simp
  moreover have "length (u64_to_ascii (length ?args)) + 2 = 3" "length (u64_to_ascii (length ?args)) + 1 = 2"
    "take 1 (resp_request ?args) = ''*''" "take 3 (resp_request ?args) = ''*2'' @ [CR]"
    "take 2 (resp_request ?args) = ''*2''"
    by code_simp+
  ultimately show ?thesis using split_request_rejected [of ?args] by (simp only: list.distinct simp_thms)
qed

end
