(* ===== verification/Response.thy ===== *)
theory Response
  imports Resp_Props
begin

section \<open>Responses and their inline storage (src/src/server/protocol.cpp)\<close>

text \<open>
  A \<^verbatim>\<open>ResponsePacket\<close> refers to static text, to a buffer it owns, to a slot of the thread's inline
  arena, or to a string of its caller. The arena is a stack of free slot numbers over one storage
  block; its atomic capacity is a field of the state. A write past the end of a slot is \<open>UB\<close>.
\<close>

definition RESP_INLINE_INVALID :: nat where "RESP_INLINE_INVALID = 65535"
definition RESP_INLINE_SLOTS :: nat where "RESP_INLINE_SLOTS = 256"

definition OK :: bytes where "OK = ''OK''"
definition QUEUED_STR :: bytes where "QUEUED_STR = ''QUEUED''"
definition NOTHING :: bytes where "NOTHING = ''(nil)''"
definition KEY_NOT_EXISTS :: bytes where "KEY_NOT_EXISTS = ''ERROR: Key does not exist''"
definition INTERNAL_ERROR :: bytes where "INTERNAL_ERROR = ''ERROR: Internal error''"
definition INVALID_COMMAND_CODE :: bytes where "INVALID_COMMAND_CODE = ''ERROR: Invalid command code''"
definition INVALID_QUERY_CODE :: bytes where "INVALID_QUERY_CODE = ''ERROR: Invalid query code''"
definition UNKNOWN_COMMAND :: bytes where "UNKNOWN_COMMAND = ''ERROR: Unknown command''"
definition UNABLE_TO_PARSE_REQUEST_ERROR :: bytes where
  "UNABLE_TO_PARSE_REQUEST_ERROR = ''ERROR: Unable to parse request''"
definition INVALID_COMMAND_FORMAT :: bytes where "INVALID_COMMAND_FORMAT = ''ERROR: Invalid command format''"
definition RESP_ERR_MULTI_NESTED :: bytes where "RESP_ERR_MULTI_NESTED = ''ERR MULTI calls can not be nested''"
definition RESP_ERR_EXEC_NO_MULTI :: bytes where "RESP_ERR_EXEC_NO_MULTI = ''ERR EXEC without MULTI''"
definition RESP_ERR_DISCARD_NO_MULTI :: bytes where "RESP_ERR_DISCARD_NO_MULTI = ''ERR DISCARD without MULTI''"
definition RESP_ERR_EXEC_ABORTED :: bytes where
  "RESP_ERR_EXEC_ABORTED = ''EXECABORT Transaction discarded because of previous errors.''"
definition RESP_ERROR_PREFIX :: bytes where "RESP_ERROR_PREFIX = ''-ERR ''"
definition RESP_NULL_BULK :: bytes where "RESP_NULL_BULK = ''$-1'' @ [CR, LF]"

lemmas message_defs = OK_def QUEUED_STR_def NOTHING_def KEY_NOT_EXISTS_def INTERNAL_ERROR_def
  INVALID_COMMAND_CODE_def INVALID_QUERY_CODE_def UNKNOWN_COMMAND_def UNABLE_TO_PARSE_REQUEST_ERROR_def
  INVALID_COMMAND_FORMAT_def RESP_ERR_MULTI_NESTED_def RESP_ERR_EXEC_NO_MULTI_def
  RESP_ERR_DISCARD_NO_MULTI_def RESP_ERR_EXEC_ABORTED_def

subsection \<open>Prebuilt responses\<close>

definition SIMPLE_STRING_RESPONSES :: "(bytes \<times> bytes) list" where
  "SIMPLE_STRING_RESPONSES =
     [(OK, ''+OK'' @ [CR, LF]),
      (QUEUED_STR, ''+QUEUED'' @ [CR, LF])]"

definition ERROR_RESPONSES :: "(bytes \<times> bytes) list" where
  "ERROR_RESPONSES =
     [(RESP_ERR_MULTI_NESTED, ''-ERR ERR MULTI calls can not be nested'' @ [CR, LF]),
      (RESP_ERR_EXEC_NO_MULTI, ''-ERR ERR EXEC without MULTI'' @ [CR, LF]),
      (RESP_ERR_DISCARD_NO_MULTI, ''-ERR ERR DISCARD without MULTI'' @ [CR, LF]),
      (RESP_ERR_EXEC_ABORTED, ''-ERR EXECABORT Transaction discarded because of previous errors.'' @ [CR, LF]),
      (INTERNAL_ERROR, ''-ERR ERROR: Internal error'' @ [CR, LF]),
      (INVALID_COMMAND_CODE, ''-ERR ERROR: Invalid command code'' @ [CR, LF]),
      (INVALID_QUERY_CODE, ''-ERR ERROR: Invalid query code'' @ [CR, LF]),
      (UNKNOWN_COMMAND, ''-ERR ERROR: Unknown command'' @ [CR, LF]),
      (UNABLE_TO_PARSE_REQUEST_ERROR, ''-ERR ERROR: Unable to parse request'' @ [CR, LF]),
      (INVALID_COMMAND_FORMAT, ''-ERR ERROR: Invalid command format'' @ [CR, LF])]"

definition findStaticResponse :: "(bytes \<times> bytes) list \<Rightarrow> bytes \<Rightarrow> bytes option" where
  "findStaticResponse responses message =
     map_option snd (find (\<lambda>r. cstr (fst r) = cstr message) responses)"

subsection \<open>The inline arena\<close>

record RespInlineArena =
  freelist :: "nat list"
  storage :: "nat \<Rightarrow> bytes"
  slotSize :: nat
  freeCount :: nat
  g_respInlineCapacity :: nat

definition sanitizeCapacity :: "nat \<Rightarrow> nat" where
  "sanitizeCapacity v = (if v = 0 then 1 else v)"

definition currentCapacity :: "RespInlineArena \<Rightarrow> nat" where
  "currentCapacity a = sanitizeCapacity (g_respInlineCapacity a)"

definition setRespInlineCapacity :: "nat \<Rightarrow> RespInlineArena \<Rightarrow> RespInlineArena" where
  "setRespInlineCapacity c a = a\<lparr>g_respInlineCapacity := sanitizeCapacity c\<rparr>"

definition resetStorage :: "nat \<Rightarrow> RespInlineArena \<Rightarrow> RespInlineArena" where
  "resetStorage c a = a\<lparr>slotSize := sanitizeCapacity c, storage := (\<lambda>_. []),
     freeCount := RESP_INLINE_SLOTS,
     freelist := map (\<lambda>i. RESP_INLINE_SLOTS - 1 - i) [0..<RESP_INLINE_SLOTS]\<rparr>"

text \<open>The constructor has run, so \<open>storage\<close> is never null.\<close>

definition ensureCapacity :: "RespInlineArena \<Rightarrow> RespInlineArena" where
  "ensureCapacity a =
     (if currentCapacity a \<noteq> slotSize a \<and> freeCount a = RESP_INLINE_SLOTS
      then resetStorage (currentCapacity a) a else a)"

definition acquire :: "nat \<Rightarrow> RespInlineArena \<Rightarrow> nat option \<times> RespInlineArena" where
  "acquire required a0 =
     (let a = ensureCapacity a0
      in if slotSize a < required \<or> freeCount a = 0 then (None, a)
         else (Some (freelist a ! (freeCount a - 1)), a\<lparr>freeCount := freeCount a - 1\<rparr>))"

definition release :: "nat \<Rightarrow> RespInlineArena \<Rightarrow> RespInlineArena" where
  "release index a =
     (if index < RESP_INLINE_SLOTS \<and> freeCount a < RESP_INLINE_SLOTS then
        let a = a\<lparr>freelist := (freelist a)[freeCount a := index], freeCount := freeCount a + 1\<rparr>
        in if freeCount a = RESP_INLINE_SLOTS \<and> currentCapacity a \<noteq> slotSize a
           then resetStorage (currentCapacity a) a else a
      else a)"

subsection \<open>Packets\<close>

datatype RequestProtocol = Custom | RESP

text \<open>
  A \<^verbatim>\<open>const char*\<close> that the server passes on: constant text, or a buffer of the store of a shard, given
  by the number of the shard and the address.
\<close>

datatype cptr = ConstPtr bytes | HeapPtr nat addr

datatype packet_data = NullData | StaticData bytes | OwnedData bytes | InlineData nat | CallerData cptr

record ResponsePacket =
  protocol :: RequestProtocol
  data :: packet_data
  psize :: nat
  inlineIndex :: nat

definition new_packet :: "RequestProtocol \<Rightarrow> ResponsePacket" where
  "new_packet pr = \<lparr>protocol = pr, data = NullData, psize = 0, inlineIndex = RESP_INLINE_INVALID\<rparr>"

text \<open>
  The bytes that are sent for a packet, and \<open>sent_bytes\<close>, which also reads the buffers of the
  stores: \<open>None\<close> when the buffer has been freed since.
\<close>

definition packet_bytes :: "RespInlineArena \<Rightarrow> ResponsePacket \<Rightarrow> bytes" where
  "packet_bytes a p = take (psize p) (case data p of
       NullData \<Rightarrow> []
     | StaticData b \<Rightarrow> b
     | OwnedData b \<Rightarrow> b
     | InlineData i \<Rightarrow> storage a i
     | CallerData (ConstPtr b) \<Rightarrow> b
     | CallerData (HeapPtr _ _) \<Rightarrow> [])"

definition sent_bytes :: "(nat \<Rightarrow> addr \<Rightarrow> bytes option) \<Rightarrow> RespInlineArena \<Rightarrow> ResponsePacket \<Rightarrow> bytes option" where
  "sent_bytes heaps a p = (case data p of
       CallerData (HeapPtr i x) \<Rightarrow> map_option (take (psize p)) (heaps i x)
     | _ \<Rightarrow> Some (packet_bytes a p))"

text \<open>What the setters and the destructor do with the slot a packet holds.\<close>

definition drop_inline :: "ResponsePacket \<Rightarrow> RespInlineArena \<Rightarrow> RespInlineArena" where
  "drop_inline p a = (if inlineIndex p \<noteq> RESP_INLINE_INVALID then release (inlineIndex p) a else a)"

definition tryUseInline :: "nat \<Rightarrow> ResponsePacket \<Rightarrow> RespInlineArena \<Rightarrow> bool \<times> ResponsePacket \<times> RespInlineArena" where
  "tryUseInline required p a =
     (let p' = p\<lparr>inlineIndex := RESP_INLINE_INVALID, data := NullData, psize := 0\<rparr>
      in case acquire required (drop_inline p a) of
           (None, a) \<Rightarrow> (False, p', a)
         | (Some i, a) \<Rightarrow> (True, p'\<lparr>inlineIndex := i, data := InlineData i, psize := required\<rparr>, a))"

definition setOwnedBuffer :: "bytes \<Rightarrow> nat \<Rightarrow> ResponsePacket \<Rightarrow> RespInlineArena \<Rightarrow> ResponsePacket \<times> RespInlineArena" where
  "setOwnedBuffer b n p a =
     (p\<lparr>inlineIndex := RESP_INLINE_INVALID, data := OwnedData b, psize := n\<rparr>, drop_inline p a)"

definition setStaticData :: "bytes \<Rightarrow> nat \<Rightarrow> ResponsePacket \<Rightarrow> RespInlineArena \<Rightarrow> ResponsePacket \<times> RespInlineArena" where
  "setStaticData b n p a =
     (p\<lparr>inlineIndex := RESP_INLINE_INVALID, data := StaticData b, psize := n\<rparr>, drop_inline p a)"

definition destroy_packet :: "ResponsePacket \<Rightarrow> RespInlineArena \<Rightarrow> RespInlineArena" where
  "destroy_packet p a = drop_inline p a"

text \<open>
  The move assignment \<^verbatim>\<open>this = other\<close> of two different packets, and the packet left behind: the
  slot changes its owner, the pointer is recomputed by \<^verbatim>\<open>pointer\<close>.
\<close>

definition move_packet ::
  "ResponsePacket \<Rightarrow> ResponsePacket \<Rightarrow> RespInlineArena \<Rightarrow> ResponsePacket \<times> ResponsePacket \<times> RespInlineArena" where
  "move_packet this other a =
     (let a = drop_inline this a;
          gone = other\<lparr>data := NullData, psize := 0, inlineIndex := RESP_INLINE_INVALID\<rparr>
      in if inlineIndex other \<noteq> RESP_INLINE_INVALID then
           (\<lparr>protocol = protocol other,
             data = (if inlineIndex other < RESP_INLINE_SLOTS then InlineData (inlineIndex other) else NullData),
             psize = psize other, inlineIndex = inlineIndex other\<rparr>, gone, ensureCapacity a)
         else (other, gone, a))"

text \<open>
  The common pattern of the builders: space for \<open>required\<close> bytes in the arena or on the heap, into
  which the bytes \<open>payload\<close> are then written (those of other packets are read at that moment).
\<close>

definition build :: "nat \<Rightarrow> (RespInlineArena \<Rightarrow> bytes) \<Rightarrow> RespInlineArena \<Rightarrow> ResponsePacket cpp \<times> RespInlineArena" where
  "build required payload a =
     (case tryUseInline required (new_packet RESP) a of
        (True, p, a) \<Rightarrow>
          if slotSize a < length (payload a) then (UB, a)
          else (Val p, a\<lparr>storage := (storage a)(inlineIndex p := payload a)\<rparr>)
      | (False, p, a) \<Rightarrow>
          if required < length (payload a) then (UB, a)
          else (case setOwnedBuffer (payload a) required p a of (p, a) \<Rightarrow> (Val p, a)))"

text \<open>\<open>message\<close> is the pointer, \<open>str\<close> the bytes that \<^verbatim>\<open>strlen\<close> finds behind it.\<close>

definition makeCustomResponse :: "cptr \<Rightarrow> bytes \<Rightarrow> ResponsePacket" where
  "makeCustomResponse message str = (new_packet Custom)\<lparr>data := CallerData message, psize := length (cstr str)\<rparr>"

definition use_static :: "bytes \<Rightarrow> RespInlineArena \<Rightarrow> ResponsePacket cpp \<times> RespInlineArena" where
  "use_static b a = (case setStaticData b (length b) (new_packet RESP) a of (p, a) \<Rightarrow> (Val p, a))"

definition makeRespSimpleString :: "bytes \<Rightarrow> RespInlineArena \<Rightarrow> ResponsePacket cpp \<times> RespInlineArena" where
  "makeRespSimpleString message a =
     (case findStaticResponse SIMPLE_STRING_RESPONSES message of
        Some payload \<Rightarrow> use_static payload a
      | None \<Rightarrow> let len = length (cstr message); required = len + 3
          in build required (\<lambda>a. ''+'' @ cstr message @ [CR, LF]) a)"

definition magnitude :: "int \<Rightarrow> nat" where
  "magnitude v = (if v < 0 then nat (- (v + 1)) + 1 else nat v)"

definition makeRespInteger :: "int \<Rightarrow> RespInlineArena \<Rightarrow> ResponsePacket cpp \<times> RespInlineArena" where
  "makeRespInteger v a =
     (let digits = u64_to_ascii (magnitude v);
          required = 1 + (if v < 0 then 1 else 0) + length digits + 2
      in build required (\<lambda>a. '':'' @ (if v < 0 then ''-'' else []) @ digits @ [CR, LF]) a)"

text \<open>\<open>None\<close> is the pointer to the constant \<^verbatim>\<open>NOTHING\<close>, which is compared by address.\<close>

definition makeRespBulkString :: "bytes option \<Rightarrow> RespInlineArena \<Rightarrow> ResponsePacket cpp \<times> RespInlineArena" where
  "makeRespBulkString val a = (case val of
       None \<Rightarrow> use_static RESP_NULL_BULK a
     | Some s \<Rightarrow>
         let len = length (cstr s); digits = u64_to_ascii len; required = 1 + length digits + 2 + len + 2
         in build required (\<lambda>a. ''$'' @ digits @ [CR, LF] @ cstr s @ [CR, LF]) a)"

definition makeRespArray :: "ResponsePacket list \<Rightarrow> RespInlineArena \<Rightarrow> ResponsePacket cpp \<times> RespInlineArena" where
  "makeRespArray elements a =
     (let digits = u64_to_ascii (length elements);
          required = 1 + length digits + 2 + sum_list (map psize elements)
      in build required (\<lambda>a. ''*'' @ digits @ [CR, LF] @ concat (map (packet_bytes a) elements)) a)"

definition makeRespError :: "bytes \<Rightarrow> RespInlineArena \<Rightarrow> ResponsePacket cpp \<times> RespInlineArena" where
  "makeRespError message a =
     (case findStaticResponse ERROR_RESPONSES message of
        Some payload \<Rightarrow> use_static payload a
      | None \<Rightarrow> let prefixLen = length RESP_ERROR_PREFIX; msgLen = length (cstr message); required = prefixLen + msgLen + 2
          in build required (\<lambda>a. RESP_ERROR_PREFIX @ cstr message @ [CR, LF]) a)"

definition makeErrorResponse :: "RequestProtocol \<Rightarrow> bytes \<Rightarrow> RespInlineArena \<Rightarrow> ResponsePacket cpp \<times> RespInlineArena" where
  "makeErrorResponse pr message a =
     (if pr = RESP then makeRespError message a else (Val (makeCustomResponse (ConstPtr message) message), a))"

end
