(* ===== verification/Response_Props.thy ===== *)
theory Response_Props
  imports Response
begin

section \<open>Properties of responses\<close>

text \<open>
  The contract of the arena as a locale, its interpretation on the model, and what the builders
  give: the exact RESP encoding, in storage that no other live packet shares.
\<close>

subsection \<open>The arena contract\<close>

text \<open>\<open>inv a L\<close>: the arena is consistent and \<open>L\<close> are the slots that live packets hold.\<close>

locale slot_arena =
  fixes inv :: "'a \<Rightarrow> nat set \<Rightarrow> bool"
    and view :: "'a \<Rightarrow> nat \<Rightarrow> bytes"
    and take_slot :: "nat \<Rightarrow> 'a \<Rightarrow> nat option \<times> 'a"
    and give_back :: "nat \<Rightarrow> 'a \<Rightarrow> 'a"
  assumes take_law: "inv a L \<Longrightarrow> take_slot n a = (r, a') \<Longrightarrow>
      (case r of None \<Rightarrow> inv a' L | Some i \<Rightarrow> i \<notin> L \<and> inv a' (insert i L)) \<and> (\<forall>j\<in>L. view a' j = view a j)"
    and give_law: "inv a L \<Longrightarrow> i \<in> L \<Longrightarrow> inv (give_back i a) (L - {i}) \<and> (\<forall>j\<in>L - {i}. view (give_back i a) j = view a j)"
begin

text \<open>A slot taken and given back leaves all other slots as they were.\<close>

lemma take_give:
  assumes "inv a L" "take_slot n a = (Some i, a1)"
  shows "inv (give_back i a1) L \<and> (\<forall>j\<in>L. view (give_back i a1) j = view a j)"
proof -
  have 1: "i \<notin> L" "inv a1 (insert i L)" "\<forall>j\<in>L. view a1 j = view a j"
    using take_law [OF assms] by auto
  from give_law [OF 1(2), of i] 1 show ?thesis by auto
qed

text \<open>Giving back a list of distinct slots.\<close>

lemma give_all:
  assumes "inv a L" "distinct is" "set is \<subseteq> L"
  shows "inv (fold give_back is a) (L - set is) \<and> (\<forall>j\<in>L - set is. view (fold give_back is a) j = view a j)"
  using assms
proof (induction "is" arbitrary: a L)
  case (Cons i "is")
  have g: "inv (give_back i a) (L - {i})" "\<forall>j\<in>L - {i}. view (give_back i a) j = view a j"
    using give_law [OF Cons.prems(1), of i] Cons.prems(3) by auto
  have "set is \<subseteq> L - {i}" using Cons.prems by auto
  from Cons.IH [OF g(1) _ this] Cons.prems(2) g(2)
  have "inv (fold give_back is (give_back i a)) (L - {i} - set is)"
    "\<forall>j\<in>L - {i} - set is. view (fold give_back is (give_back i a)) j = view a j" by auto
  moreover have "L - {i} - set is = L - set (i # is)" by auto
  ultimately show ?case by simp
qed simp

end

definition arena_inv :: "RespInlineArena \<Rightarrow> nat set \<Rightarrow> bool" where
  "arena_inv a L \<longleftrightarrow> length (freelist a) = RESP_INLINE_SLOTS \<and> freeCount a \<le> RESP_INLINE_SLOTS \<and>
     distinct (take (freeCount a) (freelist a)) \<and> L \<subseteq> {..<RESP_INLINE_SLOTS} \<and>
     set (take (freeCount a) (freelist a)) = {..<RESP_INLINE_SLOTS} - L"

lemma arena_inv_count:
  assumes "arena_inv a L"
  shows "freeCount a = RESP_INLINE_SLOTS - card L" "finite L" "card L \<le> RESP_INLINE_SLOTS"
proof -
  have L: "L \<subseteq> {..<RESP_INLINE_SLOTS}" using assms by (simp add: arena_inv_def)
  then show f: "finite L" "card L \<le> RESP_INLINE_SLOTS"
    using finite_subset card_mono [OF _ L] by auto
  have "freeCount a = length (take (freeCount a) (freelist a))" using assms by (simp add: arena_inv_def)
  also have "\<dots> = card ({..<RESP_INLINE_SLOTS} - L)"
    using assms distinct_card by (metis arena_inv_def)
  finally show "freeCount a = RESP_INLINE_SLOTS - card L" using card_Diff_subset [OF f(1) L] by simp
qed

lemma arena_inv_full: "arena_inv a L \<Longrightarrow> freeCount a = RESP_INLINE_SLOTS \<Longrightarrow> L = {}"
proof -
  assume a: "arena_inv a L" "freeCount a = RESP_INLINE_SLOTS"
  then have "RESP_INLINE_SLOTS - card L = RESP_INLINE_SLOTS" using arena_inv_count(1) [OF a(1)] by simp
  then have "card L = 0" unfolding RESP_INLINE_SLOTS_def by linarith
  then show ?thesis using arena_inv_count(2) [OF a(1)] by simp
qed

lemma reset_freelist:
  "set (map (\<lambda>i. n - 1 - i) [0..<n]) = {..<n :: nat}" "distinct (map (\<lambda>i. n - 1 - i) [0..<n :: nat])"
proof -
  have "x \<in> (\<lambda>i. n - 1 - i) ` {0..<n}" if "x < n" for x
    using that by (intro image_eqI [of _ _ "n - 1 - x"]) auto
  then show "set (map (\<lambda>i. n - 1 - i) [0..<n]) = {..<n :: nat}" by auto
  show "distinct (map (\<lambda>i. n - 1 - i) [0..<n :: nat])" by (auto simp: distinct_map inj_on_def)
qed

lemma arena_inv_reset: "arena_inv (resetStorage c a) {}"
  using reset_freelist [of RESP_INLINE_SLOTS] by (simp add: arena_inv_def resetStorage_def)

lemma arena_inv_ensure:
  assumes "arena_inv a L"
  shows "arena_inv (ensureCapacity a) L" "j \<in> L \<Longrightarrow> storage (ensureCapacity a) j = storage a j"
  using assms arena_inv_full [OF assms] arena_inv_reset by (auto simp: ensureCapacity_def)

lemma acquire_law:
  assumes inv: "arena_inv a L" and r: "acquire n a = (r, a')"
  shows "(case r of None \<Rightarrow> arena_inv a' L
      | Some i \<Rightarrow> i \<notin> L \<and> i < RESP_INLINE_SLOTS \<and> arena_inv a' (insert i L) \<and> n \<le> slotSize a') \<and>
    (\<forall>j\<in>L. storage a' j = storage a j)"
proof -
  let ?a = "ensureCapacity a"
  note e = arena_inv_ensure [OF inv]
  show ?thesis
  proof (cases "slotSize ?a < n \<or> freeCount ?a = 0")
    case True
    then show ?thesis using r e by (auto simp: acquire_def Let_def)
  next
    case False
    let ?c = "freeCount ?a - 1" and ?fl = "freelist ?a"
    have r': "r = Some (?fl ! ?c)" "a' = ?a\<lparr>freeCount := ?c\<rparr>" "n \<le> slotSize ?a"
      using r False by (auto simp: acquire_def Let_def)
    have c: "?c < length ?fl" "freeCount ?a = Suc ?c" using e(1) False by (auto simp: arena_inv_def)
    have t: "take (freeCount ?a) ?fl = take ?c ?fl @ [?fl ! ?c]"
      using c by (metis take_Suc_conv_app_nth)
    have s: "set (take ?c ?fl) \<union> {?fl ! ?c} = {..<RESP_INLINE_SLOTS} - L" "?fl ! ?c \<notin> set (take ?c ?fl)"
      "distinct (take ?c ?fl)" using e(1) t by (auto simp: arena_inv_def)
    then have i: "?fl ! ?c \<notin> L" "?fl ! ?c < RESP_INLINE_SLOTS" by auto
    have "set (take ?c ?fl) = {..<RESP_INLINE_SLOTS} - insert (?fl ! ?c) L" using s(1,2) by auto
    then have "arena_inv a' (insert (?fl ! ?c) L)"
      using e(1) s(3) i(2) c by (auto simp: arena_inv_def r'(2))
    then show ?thesis using r' i e(2) by simp
  qed
qed

lemma release_law:
  assumes inv: "arena_inv a L" and i: "i \<in> L"
  shows "arena_inv (release i a) (L - {i})" "j \<in> L - {i} \<Longrightarrow> storage (release i a) j = storage a j"
proof -
  let ?c = "freeCount a"
  define a1 where "a1 = a\<lparr>freelist := (freelist a)[?c := i], freeCount := ?c + 1\<rparr>"
  have lt: "i < RESP_INLINE_SLOTS" using inv i by (auto simp: arena_inv_def)
  have "card L > 0" using i arena_inv_count(2) [OF inv] by (auto simp: card_gt_0_iff)
  then have c: "?c < RESP_INLINE_SLOTS" using arena_inv_count(1) [OF inv] by (simp add: RESP_INLINE_SLOTS_def)
  have t: "take (?c + 1) ((freelist a)[?c := i]) = take ?c (freelist a) @ [i]"
    using inv c by (simp add: arena_inv_def take_Suc_conv_app_nth)
  have "i \<notin> set (take ?c (freelist a))" using inv i by (simp add: arena_inv_def)
  then have a1: "arena_inv a1 (L - {i})"
    using inv c t i lt by (auto simp: arena_inv_def a1_def)
  have rel: "release i a = (if freeCount a1 = RESP_INLINE_SLOTS \<and> currentCapacity a1 \<noteq> slotSize a1
      then resetStorage (currentCapacity a1) a1 else a1)"
    unfolding release_def a1_def Let_def using lt c by (simp only: simp_thms if_True)
  have full: "L - {i} = {}" if "freeCount a1 = RESP_INLINE_SLOTS" using arena_inv_full [OF a1 that] .
  show "arena_inv (release i a) (L - {i})"
  proof (cases "freeCount a1 = RESP_INLINE_SLOTS")
    case True
    then show ?thesis using a1 full [OF True] arena_inv_reset unfolding rel by metis
  qed (simp add: rel a1)
  show "storage (release i a) j = storage a j" if "j \<in> L - {i}"
    using that full by (auto simp: rel a1_def)
qed

interpretation resp_arena: slot_arena arena_inv storage acquire release
proof
  fix a L n r a'
  assume "arena_inv a L" "acquire n a = (r, a')"
  from acquire_law [OF this]
  show "(case r of None \<Rightarrow> arena_inv a' L | Some i \<Rightarrow> i \<notin> L \<and> arena_inv a' (insert i L)) \<and>
      (\<forall>j\<in>L. storage a' j = storage a j)"
    by (auto split: option.splits)
qed (auto dest: release_law)

subsection \<open>What the builders build\<close>

definition owned_slots :: "ResponsePacket \<Rightarrow> nat set" where
  "owned_slots p = (if inlineIndex p \<noteq> RESP_INLINE_INVALID then {inlineIndex p} else {})"

text \<open>A RESP packet that refers to no storage but its own.\<close>

definition packet_ok :: "ResponsePacket \<Rightarrow> bool" where
  "packet_ok p = (case data p of InlineData i \<Rightarrow> owned_slots p = {i} | CallerData _ \<Rightarrow> False | _ \<Rightarrow> True)"

text \<open>A result that carries \<open>payload\<close>, in storage of its own, and leaves the slots \<open>L\<close> alone.\<close>

definition builds :: "ResponsePacket cpp \<times> RespInlineArena \<Rightarrow> bytes \<Rightarrow> RespInlineArena \<Rightarrow> nat set \<Rightarrow> bool" where
  "builds r payload a L \<longleftrightarrow> (\<exists>p a'. r = (Val p, a') \<and> protocol p = RESP \<and> packet_ok p \<and> psize p = length payload \<and>
     packet_bytes a' p = payload \<and> owned_slots p \<inter> L = {} \<and> arena_inv a' (L \<union> owned_slots p) \<and>
     (\<forall>j\<in>L. storage a' j = storage a j))"

lemma use_static_builds: "arena_inv a L \<Longrightarrow> builds (use_static b a) b a L"
  by (simp add: builds_def use_static_def setStaticData_def new_packet_def drop_inline_def packet_bytes_def
      owned_slots_def packet_ok_def)

lemma build_builds:
  assumes inv: "arena_inv a L" and len: "required = length (payload a)"
    and stable: "\<And>a'. (\<forall>j\<in>L. storage a' j = storage a j) \<Longrightarrow> payload a' = payload a"
  shows "builds (build required payload a) (payload a) a L"
proof -
  obtain r a1 where r: "acquire required a = (r, a1)" by fastforce
  note law = acquire_law [OF inv r]
  then have pay: "payload a1 = payload a" using stable by blast
  show ?thesis
  proof (cases r)
    case None
    then show ?thesis
      using law r pay len
      by (simp add: builds_def build_def tryUseInline_def drop_inline_def new_packet_def setOwnedBuffer_def
          packet_bytes_def owned_slots_def packet_ok_def)
  next
    case (Some i)
    then have i: "i \<notin> L" "i < RESP_INLINE_SLOTS" "arena_inv a1 (insert i L)" "required \<le> slotSize a1"
      "\<forall>j\<in>L. storage a1 j = storage a j" using law by auto
    have "i \<noteq> RESP_INLINE_INVALID" using i(2) by (simp add: RESP_INLINE_SLOTS_def RESP_INLINE_INVALID_def)
    moreover have "arena_inv (a1\<lparr>storage := (storage a1)(i := payload a)\<rparr>) (insert i L)"
      using i(3) by (simp add: arena_inv_def)
    ultimately show ?thesis
      using Some i r pay len
      by (simp add: builds_def build_def tryUseInline_def drop_inline_def new_packet_def
          packet_bytes_def owned_slots_def packet_ok_def)
  qed
qed

lemma static_simple:
  "findStaticResponse SIMPLE_STRING_RESPONSES m = Some b \<Longrightarrow> b = ''+'' @ cstr m @ [CR, LF]"
  by (auto simp: findStaticResponse_def SIMPLE_STRING_RESPONSES_def OK_def QUEUED_STR_def cstr_def
      split: if_splits)

lemma static_error:
  "findStaticResponse ERROR_RESPONSES m = Some b \<Longrightarrow> b = RESP_ERROR_PREFIX @ cstr m @ [CR, LF]"
  by (simp add: findStaticResponse_def ERROR_RESPONSES_def message_defs RESP_ERROR_PREFIX_def cstr_def
      split: if_splits) auto

lemma responses_encoded_all:
  assumes "arena_inv a L"
  shows "builds (makeRespSimpleString m a) (''+'' @ cstr m @ [CR, LF]) a L \<and>
    builds (makeRespInteger v a)
      ('':'' @ (if v < 0 then ''-'' else []) @ u64_to_ascii (nat \<bar>v\<bar>) @ [CR, LF]) a L \<and>
    builds (makeRespBulkString (Some s) a) (bulk (cstr s)) a L \<and>
    builds (makeRespBulkString None a) (''$-1'' @ [CR, LF]) a L \<and>
    builds (makeRespError m a) (''-ERR '' @ cstr m @ [CR, LF]) a L"
proof (intro conjI)
  show "builds (makeRespSimpleString m a) (''+'' @ cstr m @ [CR, LF]) a L"
    using use_static_builds [OF assms] build_builds [OF assms, of "length (cstr m) + 3" "\<lambda>_. ''+'' @ cstr m @ [CR, LF]"]
    by (auto simp: makeRespSimpleString_def Let_def dest!: static_simple split: option.splits)
  have mag: "magnitude v = nat \<bar>v\<bar>" by (auto simp: magnitude_def)
  show "builds (makeRespInteger v a)
      ('':'' @ (if v < 0 then ''-'' else []) @ u64_to_ascii (nat \<bar>v\<bar>) @ [CR, LF]) a L"
    unfolding makeRespInteger_def Let_def mag
    by (rule build_builds [OF assms, of _ "\<lambda>_. '':'' @ (if v < 0 then ''-'' else []) @ u64_to_ascii (nat \<bar>v\<bar>) @ [CR, LF]"]) auto
  show "builds (makeRespBulkString (Some s) a) (bulk (cstr s)) a L"
    using build_builds [OF assms, of "length (bulk (cstr s))" "\<lambda>_. bulk (cstr s)"]
    by (simp add: makeRespBulkString_def Let_def bulk_def RESP_BULK_PREFIX_def)
  show "builds (makeRespBulkString None a) (''$-1'' @ [CR, LF]) a L"
    using use_static_builds [OF assms] by (simp add: makeRespBulkString_def RESP_NULL_BULK_def)
  show "builds (makeRespError m a) (''-ERR '' @ cstr m @ [CR, LF]) a L"
    using use_static_builds [OF assms] build_builds [OF assms, of "length RESP_ERROR_PREFIX + length (cstr m) + 2"
        "\<lambda>_. RESP_ERROR_PREFIX @ cstr m @ [CR, LF]"]
    by (auto simp: makeRespError_def Let_def RESP_ERROR_PREFIX_def dest!: static_error split: option.splits)
qed

lemma makeRespArray_builds:
  assumes "arena_inv a L" and "list_all (\<lambda>p. case data p of InlineData i \<Rightarrow> i \<in> L | _ \<Rightarrow> True) ps"
    and "list_all (\<lambda>p. length (packet_bytes a p) = psize p) ps"
  shows "builds (makeRespArray ps a)
    (''*'' @ u64_to_ascii (length ps) @ [CR, LF] @ concat (map (packet_bytes a) ps)) a L"
proof -
  let ?pay = "\<lambda>a. ''*'' @ u64_to_ascii (length ps) @ [CR, LF] @ concat (map (packet_bytes a) ps)"
  have "length (concat (map (packet_bytes a) ps)) = sum_list (map psize ps)"
    using assms(3) by (induction ps) auto
  then have len: "1 + length (u64_to_ascii (length ps)) + 2 + sum_list (map psize ps) = length (?pay a)"
    by simp
  have "?pay a' = ?pay a" if "\<forall>j\<in>L. storage a' j = storage a j" for a'
    using assms(2) that by (auto simp: packet_bytes_def list_all_iff intro!: arg_cong [of _ _ concat] split: packet_data.splits)
  from build_builds [of a L _ ?pay, OF assms(1) len this] show ?thesis by (simp add: makeRespArray_def Let_def)
qed

subsection \<open>Properties\<close>


definition arena0 :: RespInlineArena where
  "arena0 = resetStorage 255 \<lparr>freelist = [], storage = (\<lambda>_. []), slotSize = 0, freeCount = 0, g_respInlineCapacity = 255\<rparr>"


text \<open>
  An array response is the array header followed by the bytes of its elements, when these are
  live packets; the array gets storage of its own while the elements keep theirs.
\<close>

theorem array_encoded:
  assumes "arena_inv a L" and "list_all (\<lambda>p. case data p of InlineData i \<Rightarrow> i \<in> L | _ \<Rightarrow> True) ps"
    and "list_all (\<lambda>p. length (packet_bytes a p) = psize p) ps"
  shows "builds (makeRespArray ps a)
    (''*'' @ u64_to_ascii (length ps) @ [CR, LF] @ concat (map (packet_bytes a) ps)) a L"
  using assms by (rule makeRespArray_builds)

theorem array_encoded_witness:
  "builds (makeRespArray [makeCustomResponse (ConstPtr ''a'') ''a'', makeCustomResponse (ConstPtr ''b'') ''b''] arena0)
    (''*'' @ u64_to_ascii (length [makeCustomResponse (ConstPtr ''a'') ''a'', makeCustomResponse (ConstPtr ''b'') ''b'']) @ [CR, LF] @
      concat (map (packet_bytes arena0) [makeCustomResponse (ConstPtr ''a'') ''a'', makeCustomResponse (ConstPtr ''b'') ''b''])) arena0 {}"
  by (rule array_encoded)
    (simp_all add: arena0_def arena_inv_reset makeCustomResponse_def new_packet_def packet_bytes_def cstr_def)

end
