(* ===== verification/Shard.thy ===== *)
theory Shard
  imports Kvs_Props Response_Props
begin

section \<open>Shards (src/src/server/shard.cpp)\<close>

text \<open>
  A shard owns one store. Commands and queries copy their strings up to the first NUL and carry the
  hash of the key. Results are pointers: to one of the constant messages, or into the store.
\<close>

datatype QueryCode = UnknownQuery | GET
datatype CommandCode = UnknownCommand | SET | DEL

record Query =
  queryCode :: QueryCode
  q_key :: bytes
  q_hash :: u64

record Command =
  commandCode :: CommandCode
  c_key :: bytes
  c_value :: "bytes option"
  c_hash :: u64

record ServerShard =
  shardId :: nat
  keyValueStore :: kvs

definition mk_Query :: "QueryCode \<Rightarrow> bytes \<Rightarrow> u64 \<Rightarrow> Query" where
  "mk_Query code arg_key h = \<lparr>queryCode = code, q_key = cstr arg_key, q_hash = h\<rparr>"

definition mk_Command :: "CommandCode \<Rightarrow> bytes \<Rightarrow> bytes option \<Rightarrow> u64 \<Rightarrow> Command" where
  "mk_Command code arg_key arg_value h =
     \<lparr>commandCode = code, c_key = cstr arg_key, c_value = map_option cstr arg_value, c_hash = h\<rparr>"

text \<open>A SET without a value would pass a null pointer to \<^verbatim>\<open>strlen\<close>.\<close>

definition processCommand :: "'z zlib \<Rightarrow> Command \<Rightarrow> ServerShard \<Rightarrow> bytes cpp \<times> ServerShard" where
  "processCommand z cmd sh = (case commandCode cmd of
       SET \<Rightarrow> (case c_value cmd of
           None \<Rightarrow> (UB, sh)
         | Some v \<Rightarrow> and_then (kvs_set z (c_key cmd) v (c_hash cmd) (keyValueStore sh))
             (\<lambda>opRes k. (Val (if opRes then OK else INTERNAL_ERROR), sh\<lparr>keyValueStore := k\<rparr>))
             (\<lambda>k. sh\<lparr>keyValueStore := k\<rparr>))
     | DEL \<Rightarrow> and_then (kvs_del (c_key cmd) (c_hash cmd) (keyValueStore sh))
         (\<lambda>opRes k. (Val (if opRes then OK else KEY_NOT_EXISTS), sh\<lparr>keyValueStore := k\<rparr>))
         (\<lambda>k. sh\<lparr>keyValueStore := k\<rparr>)
     | UnknownCommand \<Rightarrow> (Val INVALID_COMMAND_CODE, sh))"

definition processQuery :: "'z zlib \<Rightarrow> Query \<Rightarrow> ServerShard \<Rightarrow> cptr cpp \<times> ServerShard" where
  "processQuery z q sh = (case queryCode q of
       GET \<Rightarrow> and_then (kvs_get z (q_key q) (q_hash q) (keyValueStore sh))
         (\<lambda>r k. (Val (case r of Some a \<Rightarrow> HeapPtr (shardId sh) a | None \<Rightarrow> ConstPtr NOTHING),
            sh\<lparr>keyValueStore := k\<rparr>))
         (\<lambda>k. sh\<lparr>keyValueStore := k\<rparr>)
     | UnknownQuery \<Rightarrow> (Val (ConstPtr INVALID_QUERY_CODE), sh))"

end
