(* ===== verification/Server.thy ===== *)
theory Server
  imports Shard
begin

section \<open>Handling requests (\<open>CacheServer::processRequestSync\<close> of src/src/server/server.cpp)\<close>

text \<open>
  The state that a request touches: the shards, the inline arena of the handling thread, the error
  counter, and the transaction of the connection. A request is the bytes of its payload. In a custom
  request the byte behind the payload is the NUL that the reader wrote over the separator, so that a
  pointer into it is read to the next NUL or to the end; in a RESP request the parser writes NULs
  into the payload, and a pointer that finds none behind it is read outside, which is \<open>UB\<close>.
\<close>

datatype CommandType = TxGet | TxSet | TxDel

record QueuedCommand =
  qtype :: CommandType
  qkey :: bytes
  qvalue :: bytes

record RespTransactionState =
  active :: bool
  aborted :: bool
  queue :: "QueuedCommand list"

definition new_transaction :: RespTransactionState where
  "new_transaction = \<lparr>active = False, aborted = False, queue = []\<rparr>"

definition persistString :: "bytes option \<Rightarrow> bytes" where
  "persistString input = (case input of None \<Rightarrow> [] | Some s \<Rightarrow> cstr s)"

definition clearQueue :: "RespTransactionState \<Rightarrow> RespTransactionState" where
  "clearQueue tx = tx\<lparr>queue := []\<rparr>"

record CacheServer =
  serverShards :: "ServerShard list"
  numShards :: nat
  arena :: RespInlineArena
  numErrors :: nat

record conn_state =
  server :: CacheServer
  respTransaction :: "RespTransactionState option"

record RequestView =
  payload :: bytes
  req_protocol :: RequestProtocol

type_synonym reply = "ResponsePacket cpp \<times> conn_state"

subsection \<open>Pointers and packets\<close>

definition store_heap :: "CacheServer \<Rightarrow> nat \<Rightarrow> addr \<Rightarrow> bytes option" where
  "store_heap sv i a =
     (if i < length (serverShards sv) then mem (heap (entryPool (keyValueStore (serverShards sv ! i)))) a else None)"

definition ptr_str :: "CacheServer \<Rightarrow> cptr \<Rightarrow> bytes option" where
  "ptr_str sv p = (case p of ConstPtr b \<Rightarrow> Some b | HeapPtr i a \<Rightarrow> store_heap sv i a)"

text \<open>Running a response builder on the arena, and on the state of a connection.\<close>

definition on_arena ::
  "(RespInlineArena \<Rightarrow> ResponsePacket cpp \<times> RespInlineArena) \<Rightarrow> CacheServer \<Rightarrow> ResponsePacket cpp \<times> CacheServer" where
  "on_arena f sv = (case f (arena sv) of (r, a) \<Rightarrow> (r, sv\<lparr>arena := a\<rparr>))"

definition respond :: "(RespInlineArena \<Rightarrow> ResponsePacket cpp \<times> RespInlineArena) \<Rightarrow> conn_state \<Rightarrow> reply" where
  "respond f c = (case on_arena f (server c) of (r, sv) \<Rightarrow> (r, c\<lparr>server := sv\<rparr>))"

definition count_error :: "conn_state \<Rightarrow> conn_state" where
  "count_error c = c\<lparr>server := (server c)\<lparr>numErrors := numErrors (server c) + 1\<rparr>\<rparr>"

subsection \<open>The three handlers\<close>

definition shard_index :: "u64 \<Rightarrow> nat \<Rightarrow> nat" where
  "shard_index h n = nat (uint h mod int n)"

text \<open>The call on the shard that the hash selects; with no shards the modulus is undefined.\<close>

definition on_shard ::
  "u64 \<Rightarrow> (ServerShard \<Rightarrow> 'r cpp \<times> ServerShard) \<Rightarrow> CacheServer \<Rightarrow> 'r cpp \<times> CacheServer" where
  "on_shard h f sv =
     (let i = shard_index h (numShards sv)
      in if numShards sv = 0 \<or> length (serverShards sv) \<le> i then (UB, sv)
         else (case f (serverShards sv ! i) of
           (r, sh) \<Rightarrow> (r, sv\<lparr>serverShards := (serverShards sv)[i := sh]\<rparr>)))"

definition handleGet :: "'z zlib \<Rightarrow> bytes \<Rightarrow> RequestProtocol \<Rightarrow> CacheServer \<Rightarrow> ResponsePacket cpp \<times> CacheServer" where
  "handleGet z key pr sv =
     (let h = hashFunc key
      in and_then (on_shard h (processQuery z (mk_Query GET key h)) sv)
           (\<lambda>result sv. case ptr_str sv result of
               None \<Rightarrow> (UB, sv)
             | Some str \<Rightarrow>
                 if pr = RESP
                 then on_arena (makeRespBulkString (if result = ConstPtr NOTHING then None else Some str)) sv
                 else (Val (makeCustomResponse result str), sv)) id)"

definition handleSet ::
  "'z zlib \<Rightarrow> bytes \<Rightarrow> bytes \<Rightarrow> RequestProtocol \<Rightarrow> CacheServer \<Rightarrow> ResponsePacket cpp \<times> CacheServer" where
  "handleSet z key val pr sv =
     (let h = hashFunc key
      in and_then (on_shard h (processCommand z (mk_Command SET key (Some val) h)) sv)
           (\<lambda>result sv.
             if pr = RESP
             then on_arena (if result = OK then makeRespSimpleString result else makeRespError result) sv
             else (Val (makeCustomResponse (ConstPtr result) result), sv)) id)"

definition handleDel :: "'z zlib \<Rightarrow> bytes \<Rightarrow> RequestProtocol \<Rightarrow> CacheServer \<Rightarrow> ResponsePacket cpp \<times> CacheServer" where
  "handleDel z key pr sv =
     (let h = hashFunc key
      in and_then (on_shard h (processCommand z (mk_Command DEL key None h)) sv)
           (\<lambda>result sv.
             if pr = RESP
             then on_arena (if result = OK then makeRespInteger 1
                            else if result = KEY_NOT_EXISTS then makeRespInteger 0
                            else makeRespError result) sv
             else (Val (makeCustomResponse (ConstPtr result) result), sv)) id)"

subsection \<open>Transactions\<close>

definition in_transaction :: "conn_state \<Rightarrow> bool" where
  "in_transaction c = (case respTransaction c of None \<Rightarrow> False | Some tx \<Rightarrow> active tx)"

definition markRespTransactionError :: "conn_state \<Rightarrow> conn_state" where
  "markRespTransactionError c = (case respTransaction c of
       None \<Rightarrow> c
     | Some tx \<Rightarrow> if active tx then c\<lparr>respTransaction := Some (tx\<lparr>aborted := True\<rparr>)\<rparr> else c)"

definition ensureRespTransaction :: "conn_state \<Rightarrow> RespTransactionState" where
  "ensureRespTransaction c = (case respTransaction c of None \<Rightarrow> new_transaction | Some tx \<Rightarrow> tx)"

definition queueRespCommand :: "CommandType \<Rightarrow> bytes \<Rightarrow> bytes option \<Rightarrow> conn_state \<Rightarrow> reply" where
  "queueRespCommand ty key val c =
     (let tx = ensureRespTransaction c; c = c\<lparr>respTransaction := Some tx\<rparr>
      in if \<not> active tx then respond (makeRespError RESP_ERR_EXEC_NO_MULTI) (count_error c)
         else let queued = \<lparr>qtype = ty, qkey = persistString (Some key), qvalue = persistString val\<rparr>
           in respond (makeRespSimpleString QUEUED_STR)
                (c\<lparr>respTransaction := Some (tx\<lparr>queue := queue tx @ [queued]\<rparr>)\<rparr>))"

definition exec_queued :: "'z zlib \<Rightarrow> QueuedCommand \<Rightarrow> CacheServer \<Rightarrow> ResponsePacket cpp \<times> CacheServer" where
  "exec_queued z q sv = (case qtype q of
       TxGet \<Rightarrow> handleGet z (qkey q) RESP sv
     | TxSet \<Rightarrow> handleSet z (qkey q) (qvalue q) RESP sv
     | TxDel \<Rightarrow> handleDel z (qkey q) RESP sv)"

fun exec_queue :: "'z zlib \<Rightarrow> QueuedCommand list \<Rightarrow> CacheServer \<Rightarrow> ResponsePacket list cpp \<times> CacheServer" where
  "exec_queue z [] sv = (Val [], sv)"
| "exec_queue z (q # qs) sv =
     and_then (exec_queued z q sv)
       (\<lambda>p sv. and_then (exec_queue z qs sv) (\<lambda>ps sv. (Val (p # ps), sv)) id) id"

text \<open>The vector of results is destroyed after the array has been built from it.\<close>

definition destroy_all :: "ResponsePacket list \<Rightarrow> RespInlineArena \<Rightarrow> RespInlineArena" where
  "destroy_all ps a = fold destroy_packet ps a"

definition end_transaction :: "RespTransactionState \<Rightarrow> RespTransactionState" where
  "end_transaction tx = (clearQueue tx)\<lparr>active := False, aborted := False\<rparr>"

definition handleMulti :: "conn_state \<Rightarrow> reply" where
  "handleMulti c =
     (let tx = ensureRespTransaction c; c = c\<lparr>respTransaction := Some tx\<rparr>
      in if active tx
         then respond (makeRespError RESP_ERR_MULTI_NESTED) (markRespTransactionError (count_error c))
         else respond (makeRespSimpleString OK)
           (c\<lparr>respTransaction := Some (clearQueue (tx\<lparr>active := True, aborted := False\<rparr>))\<rparr>))"

definition handleDiscard :: "conn_state \<Rightarrow> reply" where
  "handleDiscard c = (case respTransaction c of
       Some tx \<Rightarrow>
         if active tx
         then respond (makeRespSimpleString OK) (c\<lparr>respTransaction := Some (end_transaction tx)\<rparr>)
         else respond (makeRespError RESP_ERR_DISCARD_NO_MULTI) (count_error c)
     | None \<Rightarrow> respond (makeRespError RESP_ERR_DISCARD_NO_MULTI) (count_error c))"

definition handleExec :: "'z zlib \<Rightarrow> conn_state \<Rightarrow> reply" where
  "handleExec z c = (case respTransaction c of
       Some tx \<Rightarrow>
         if \<not> active tx then respond (makeRespError RESP_ERR_EXEC_NO_MULTI) (count_error c)
         else if aborted tx
         then respond (makeRespError RESP_ERR_EXEC_ABORTED)
                (count_error (c\<lparr>respTransaction := Some (end_transaction tx)\<rparr>))
         else and_then (exec_queue z (queue tx) (server c))
           (\<lambda>results sv.
              and_then (on_arena (makeRespArray results) sv)
                (\<lambda>p sv. (Val p, c\<lparr>server := sv\<lparr>arena := destroy_all results (arena sv)\<rparr>,
                            respTransaction := Some (end_transaction tx)\<rparr>))
                (\<lambda>sv. c\<lparr>server := sv\<rparr>))
           (\<lambda>sv. c\<lparr>server := sv\<rparr>)
     | None \<Rightarrow> respond (makeRespError RESP_ERR_EXEC_NO_MULTI) (count_error c))"

subsection \<open>RESP requests\<close>

definition resp_error :: "bytes \<Rightarrow> conn_state \<Rightarrow> reply" where
  "resp_error msg c = respond (makeErrorResponse RESP msg) (markRespTransactionError (count_error c))"

definition run_handler :: "(CacheServer \<Rightarrow> ResponsePacket cpp \<times> CacheServer) \<Rightarrow> conn_state \<Rightarrow> reply" where
  "run_handler f c = (case f (server c) of (r, sv) \<Rightarrow> (r, c\<lparr>server := sv\<rparr>))"

text \<open>
  \<open>cmd\<close>, \<open>key\<close> and \<open>val\<close> are the strings behind the pointers of the parts; \<open>None\<close> for a pointer whose
  string cannot be read inside the payload, or that the command does not have. With two parts there is
  a key pointer, with three also a value pointer.
\<close>

definition respCommand ::
  "'z zlib \<Rightarrow> nat \<Rightarrow> bytes \<Rightarrow> bytes option \<Rightarrow> bytes option \<Rightarrow> conn_state \<Rightarrow> reply" where
  "respCommand z n cmd key val c =
     (if cmd = ''MULTI'' then handleMulti c
      else if cmd = ''DISCARD'' then handleDiscard c
      else if cmd = ''EXEC'' then handleExec z c
      else if cmd = ''GET'' then
        (if n \<noteq> 2 then resp_error INVALID_COMMAND_FORMAT c
         else (case key of
             None \<Rightarrow> (UB, c)
           | Some k \<Rightarrow>
               if in_transaction c then queueRespCommand TxGet k None c
               else run_handler (handleGet z k RESP) c))
      else if cmd = ''SET'' then
        (if n \<noteq> 3 then resp_error INVALID_COMMAND_FORMAT c
         else (case (key, val) of
             (Some k, Some v) \<Rightarrow>
               if in_transaction c then queueRespCommand TxSet k (Some v) c
               else run_handler (handleSet z k v RESP) c
           | _ \<Rightarrow> (UB, c)))
      else if cmd = ''DEL'' then
        (if n \<noteq> 2 then resp_error INVALID_COMMAND_FORMAT c
         else (case key of
             None \<Rightarrow> (UB, c)
           | Some k \<Rightarrow>
               if in_transaction c then queueRespCommand TxDel k None c
               else run_handler (handleDel z k RESP) c))
      else resp_error UNKNOWN_COMMAND c)"

definition processResp :: "'z zlib \<Rightarrow> bytes \<Rightarrow> conn_state \<Rightarrow> reply" where
  "processResp z pl c = (case parseRespCommand pl of
       Val None \<Rightarrow> resp_error UNABLE_TO_PARSE_REQUEST_ERROR c
     | Val (Some (d, parts)) \<Rightarrow>
         (case part_str d (command parts) of
             None \<Rightarrow> (UB, c)
           | Some cmd \<Rightarrow> respCommand z (argc parts) cmd (part_str d (part_key parts)) (part_str d (part_value parts)) c)
     | Exn m \<Rightarrow> (Exn m, c)
     | UB \<Rightarrow> (UB, c)
     | Hang \<Rightarrow> (Hang, c))"

subsection \<open>Custom requests\<close>

definition custom_error :: "bytes \<Rightarrow> conn_state \<Rightarrow> reply" where
  "custom_error msg c = respond (makeErrorResponse Custom msg) (count_error c)"

text \<open>\<open>split_space s\<close>: the text before the first space and behind it, if there is a space.\<close>

definition split_space :: "bytes \<Rightarrow> (bytes \<times> bytes) option" where
  "split_space s =
     (if CHR '' '' \<in> set s
      then Some (takeWhile (\<lambda>ch. ch \<noteq> CHR '' '') s, tl (dropWhile (\<lambda>ch. ch \<noteq> CHR '' '') s))
      else None)"

definition processCustom :: "'z zlib \<Rightarrow> bytes \<Rightarrow> conn_state \<Rightarrow> reply" where
  "processCustom z pl c = (case split_space pl of
       None \<Rightarrow> custom_error UNABLE_TO_PARSE_REQUEST_ERROR c
     | Some (cmd, remainder) \<Rightarrow>
         if remainder = [] then custom_error INVALID_COMMAND_FORMAT c
         else let (key, val) = (case split_space remainder of
                 None \<Rightarrow> (cstr remainder, None)
               | Some (k, v) \<Rightarrow> (cstr k, Some (cstr v)))
           in if cmd = ''GET'' then run_handler (handleGet z key Custom) c
              else if cmd = ''SET'' then (case val of
                  None \<Rightarrow> custom_error INVALID_COMMAND_FORMAT c
                | Some v \<Rightarrow> run_handler (handleSet z key v Custom) c)
              else if cmd = ''DEL'' then run_handler (handleDel z key Custom) c
              else custom_error UNKNOWN_COMMAND c)"

definition processRequestSync :: "'z zlib \<Rightarrow> RequestView \<Rightarrow> conn_state \<Rightarrow> reply" where
  "processRequestSync z req c =
     (if req_protocol req = RESP then processResp z (payload req) c else processCustom z (payload req) c)"

end
