(* ===== verification/Server_Inv.thy ===== *)
theory Server_Inv
  imports Server
begin

section \<open>Invariant of the server and what its handlers answer\<close>

text \<open>
  The server maps a key through the shard its hash selects. Under the invariant, with \<open>L\<close> the arena
  slots of the packets already waiting, every handler answers with a packet of its own, leaves the
  waiting packets alone and keeps the invariant; \<open>slookup\<close> is what the server holds for a key.
\<close>

definition shard_of :: "CacheServer \<Rightarrow> bytes \<Rightarrow> nat" where
  "shard_of sv key = shard_index (hashFunc key) (numShards sv)"

definition store_of :: "CacheServer \<Rightarrow> nat \<Rightarrow> kvs" where
  "store_of sv i = keyValueStore (serverShards sv ! i)"

definition slookup :: "'z zlib \<Rightarrow> CacheServer \<Rightarrow> bytes \<rightharpoonup> bytes" where
  "slookup z sv key = lookup z (store_of sv (shard_of sv key)) key"

definition shards_inv :: "'z zlib \<Rightarrow> CacheServer \<Rightarrow> bool" where
  "shards_inv z sv \<longleftrightarrow> zlib_ok z \<and> 0 < numShards sv \<and> length (serverShards sv) = numShards sv \<and>
     (\<forall>i<numShards sv. shardId (serverShards sv ! i) = i \<and> kvs_inv z (store_of sv i))"

definition server_inv :: "'z zlib \<Rightarrow> CacheServer \<Rightarrow> nat set \<Rightarrow> bool" where
  "server_inv z sv L \<longleftrightarrow> shards_inv z sv \<and> arena_inv (arena sv) L"

definition server_clean :: "CacheServer \<Rightarrow> bool" where
  "server_clean sv \<longleftrightarrow> (\<forall>i<numShards sv. clean (store_of sv i))"

subsection \<open>One store\<close>

lemma cstr_cstr [simp]: "cstr (cstr s) = cstr s"
  by simp

lemma hashFunc_cstr [simp]: "hashFunc (cstr k) = hashFunc k"
  by (simp add: hashFunc_def)

lemma lookup_new_pool:
  assumes "contents p = contents (entryPool s)"
  shows "lookup z (s\<lparr>entryPool := p\<rparr>) = lookup z s" "clean (s\<lparr>entryPool := p\<rparr>) = clean s"
proof -
  have ko: "key_of p = key_of (entryPool s)" using assms by (simp add: key_of_def fun_eq_iff)
  have "hit (s\<lparr>entryPool := p\<rparr>) = hit s" by (simp add: hit_def fun_eq_iff ko)
  then have idx: "lookup_idx (s\<lparr>entryPool := p\<rparr>) k = lookup_idx s k" for k by (simp add: lookup_idx_def)
  then show "lookup z (s\<lparr>entryPool := p\<rparr>) = lookup z s"
    using assms by (intro ext lookup_same_contents) simp_all
  show "clean (s\<lparr>entryPool := p\<rparr>) = clean s" by (simp add: clean_def idx ko)
qed

lemma kvs_get_full:
  assumes inv: "kvs_inv z s"
  shows "\<exists>r s'. kvs_get z key (hashFunc key) s = (Val r, s') \<and> kvs_inv z s' \<and> lookup z s' = lookup z s \<and>
    clean s' = clean s \<and>
    (case r of None \<Rightarrow> lookup z s key = None
     | Some a \<Rightarrow> \<exists>b. mem (heap (entryPool s')) a = Some b \<and> lookup z s key = Some (cstr b))"
proof -
  obtain free where ok: "kvs_ok z s free" and thr: "threshold (tableSize s) \<le> length free + numEntries s"
    using inv by (auto simp: kvs_inv_def)
  obtain r p where r: "kvs_get z key (hashFunc key) s = (Val r, s\<lparr>entryPool := p\<rparr>)"
    "read_str (s\<lparr>entryPool := p\<rparr>) r = lookup z s key" and p: "pool_inv p free"
    "contents p = contents (entryPool s)" "capacity p = capacity (entryPool s)"
    and v: "case r of None \<Rightarrow> lookup z s key = None | Some a \<Rightarrow> \<exists>b. mem (heap p) a = Some b \<and> lookup z s key = Some (cstr b)"
    by (rule kvs_get_ok [OF ok])
  have "kvs_ok z (s\<lparr>entryPool := p\<rparr>) free" using ok p by (simp add: kvs_ok_def shape_def)
  then have "kvs_inv z (s\<lparr>entryPool := p\<rparr>)" using thr unfolding kvs_inv_def by auto
  then show ?thesis using r lookup_new_pool [OF p(2)] v
    by (intro exI [of _ r] exI [of _ "s\<lparr>entryPool := p\<rparr>"]) (auto split: option.splits)
qed

lemma lookup_is_cstr: "kvs_inv z s \<Longrightarrow> lookup z s key = Some v \<Longrightarrow> is_cstr v"
  using kvs_get_full [of z s key] by (auto split: option.splits)

text \<open>The string arguments of a SET: short enough for the store.\<close>

definition set_sizes :: "bytes \<Rightarrow> bytes \<Rightarrow> bool" where
  "set_sizes key val \<longleftrightarrow> length (cstr val) < 2 ^ 30"

lemma set_args_cstr: "set_sizes key val \<Longrightarrow> set_args (cstr key) (cstr val)"
  by (simp add: set_args_def storable_def set_sizes_def)

subsection \<open>One shard\<close>

lemma processQuery_ok:
  assumes inv: "kvs_inv z (keyValueStore sh)"
  shows "\<exists>ptr k. processQuery z (mk_Query GET key (hashFunc key)) sh = (Val ptr, sh\<lparr>keyValueStore := k\<rparr>) \<and>
    kvs_inv z k \<and> lookup z k = lookup z (keyValueStore sh) \<and> clean k = clean (keyValueStore sh) \<and>
    (case lookup z (keyValueStore sh) (cstr key) of
       None \<Rightarrow> ptr = ConstPtr NOTHING
     | Some v \<Rightarrow> \<exists>a b. ptr = HeapPtr (shardId sh) a \<and> mem (heap (entryPool k)) a = Some b \<and> cstr b = v)"
proof -
  obtain r k where r: "kvs_get z (cstr key) (hashFunc key) (keyValueStore sh) = (Val r, k)"
    and k: "kvs_inv z k" "lookup z k = lookup z (keyValueStore sh)" "clean k = clean (keyValueStore sh)"
    and v: "case r of None \<Rightarrow> lookup z (keyValueStore sh) (cstr key) = None
     | Some a \<Rightarrow> \<exists>b. mem (heap (entryPool k)) a = Some b \<and> lookup z (keyValueStore sh) (cstr key) = Some (cstr b)"
    using kvs_get_full [OF inv, of "cstr key"] by (simp only: hashFunc_cstr) blast
  let ?ptr = "case r of Some a \<Rightarrow> HeapPtr (shardId sh) a | None \<Rightarrow> ConstPtr NOTHING"
  have "processQuery z (mk_Query GET key (hashFunc key)) sh = (Val ?ptr, sh\<lparr>keyValueStore := k\<rparr>)"
    using r by (simp add: processQuery_def mk_Query_def)
  then show ?thesis using k v by (intro exI [of _ ?ptr] exI [of _ k]) (cases r; auto)
qed

subsection \<open>The shard a key selects\<close>

lemma shard_index_less: "0 < n \<Longrightarrow> shard_index h n < n"
  by (simp add: shard_index_def nat_less_iff)

lemma shard_of_cstr [simp]: "shard_of sv (cstr key) = shard_of sv key"
  by (simp add: shard_of_def)

definition put_shard :: "CacheServer \<Rightarrow> nat \<Rightarrow> kvs \<Rightarrow> CacheServer" where
  "put_shard sv i k = sv\<lparr>serverShards := (serverShards sv)[i := (serverShards sv ! i)\<lparr>keyValueStore := k\<rparr>]\<rparr>"

lemma on_shard_eq:
  assumes "shards_inv z sv" "f (serverShards sv ! shard_of sv key) = (r, (serverShards sv ! shard_of sv key)\<lparr>keyValueStore := k\<rparr>)"
  shows "on_shard (hashFunc key) f sv = (r, put_shard sv (shard_of sv key) k)"
  using assms shard_index_less [of "numShards sv" "hashFunc key"]
  by (simp add: on_shard_def shards_inv_def put_shard_def shard_of_def Let_def)

lemma shards_invD:
  assumes "shards_inv z sv"
  shows "shard_of sv key < numShards sv" "length (serverShards sv) = numShards sv"
    "i < numShards sv \<Longrightarrow> kvs_inv z (store_of sv i)" "i < numShards sv \<Longrightarrow> shardId (serverShards sv ! i) = i" "zlib_ok z"
  using assms shard_index_less by (auto simp: shards_inv_def shard_of_def)

lemma put_shard_inv:
  assumes "shards_inv z sv" "i < numShards sv" "kvs_inv z k"
  shows "shards_inv z (put_shard sv i k)" "arena (put_shard sv i k) = arena sv"
    "numShards (put_shard sv i k) = numShards sv" "numErrors (put_shard sv i k) = numErrors sv"
    "shard_of (put_shard sv i k) key = shard_of sv key"
    "j < numShards sv \<Longrightarrow> store_of (put_shard sv i k) j = (if j = i then k else store_of sv j)"
  using assms by (auto simp: shards_inv_def put_shard_def store_of_def shard_of_def nth_list_update)

lemma slookup_put_shard:
  assumes "shards_inv z sv" "kvs_inv z k" "lookup z k = f (lookup z (store_of sv (shard_of sv key)))"
  shows "slookup z (put_shard sv (shard_of sv key) k) key' =
    (if shard_of sv key' = shard_of sv key then f (lookup z (store_of sv (shard_of sv key))) key' else slookup z sv key')"
  using assms put_shard_inv [OF assms(1) shards_invD(1) [OF assms(1)] assms(2)] shards_invD(1) [OF assms(1)]
  by (simp add: slookup_def)

lemma put_shard_clean:
  assumes "shards_inv z sv" "server_clean sv" "clean k" "kvs_inv z k"
  shows "server_clean (put_shard sv (shard_of sv key) k)"
  using assms put_shard_inv [OF assms(1) shards_invD(1) [OF assms(1)] assms(4)]
  by (simp add: server_clean_def)

subsection \<open>Replies\<close>

text \<open>
  \<open>replies r pl sv L sv1\<close>: the result \<open>r\<close> is a RESP packet with the bytes \<open>pl\<close>, next to the packets
  of \<open>L\<close>, and the server \<open>sv1\<close> up to its arena.
\<close>

definition replies :: "ResponsePacket cpp \<times> CacheServer \<Rightarrow> bytes \<Rightarrow> CacheServer \<Rightarrow> nat set \<Rightarrow> CacheServer \<Rightarrow> bool" where
  "replies r pl sv L sv1 \<longleftrightarrow> (\<exists>p a. r = (Val p, sv1\<lparr>arena := a\<rparr>) \<and> protocol p = RESP \<and> packet_ok p \<and>
     psize p = length pl \<and> packet_bytes a p = pl \<and> owned_slots p \<inter> L = {} \<and> arena_inv a (L \<union> owned_slots p) \<and>
     (\<forall>j\<in>L. storage a j = storage (arena sv) j))"

lemma on_arena_replies:
  assumes "builds (f (arena sv)) pl (arena sv) L" "arena sv1 = arena sv"
  shows "replies (on_arena f sv1) pl sv L sv1"
  using assms by (auto simp: replies_def builds_def on_arena_def)

definition get_payload :: "bytes option \<Rightarrow> bytes" where
  "get_payload r = (case r of None \<Rightarrow> ''$-1'' @ [CR, LF] | Some v \<Rightarrow> bulk v)"

definition set_payload :: "bool \<Rightarrow> bytes" where
  "set_payload b = (if b then ''+OK'' @ [CR, LF] else ''-ERR ERROR: Internal error'' @ [CR, LF])"

definition del_payload :: "bool \<Rightarrow> bytes" where
  "del_payload b = (if b then '':1'' @ [CR, LF] else '':0'' @ [CR, LF])"

lemma handleGet_RESP:
  fixes key :: bytes
  assumes inv: "server_inv z sv L"
  defines "i \<equiv> shard_of sv key"
  defines "k \<equiv> snd (kvs_get_key z (cstr key) (store_of sv i))"
  shows "replies (handleGet z key RESP sv) (get_payload (lookup z (store_of sv i) (cstr key))) sv L (put_shard sv i k)"
    "kvs_inv z k" "lookup z k = lookup z (store_of sv i)" "clean k = clean (store_of sv i)"
proof -
  have sh: "shards_inv z sv" and ar: "arena_inv (arena sv) L" using inv by (auto simp: server_inv_def)
  note D = shards_invD [OF sh]
  have i: "i < numShards sv" using D(1) by (simp add: i_def)
  let ?sh = "serverShards sv ! i"
  have st: "keyValueStore ?sh = store_of sv i" by (simp add: store_of_def)
  obtain ptr k' where q: "processQuery z (mk_Query GET key (hashFunc key)) ?sh = (Val ptr, ?sh\<lparr>keyValueStore := k'\<rparr>)"
    and k': "kvs_inv z k'" "lookup z k' = lookup z (store_of sv i)" "clean k' = clean (store_of sv i)"
    and v: "case lookup z (store_of sv i) (cstr key) of None \<Rightarrow> ptr = ConstPtr NOTHING
      | Some v \<Rightarrow> \<exists>a b. ptr = HeapPtr (shardId ?sh) a \<and> mem (heap (entryPool k')) a = Some b \<and> cstr b = v"
    using processQuery_ok [of z ?sh key] D(3) [OF i] unfolding st by blast
  have kk: "k = k'"
  proof -
    obtain r s' where g: "kvs_get z (cstr key) (hashFunc key) (store_of sv i) = (Val r, s')"
      using kvs_get_full [OF D(3) [OF i], of "cstr key"] by (auto simp: hashFunc_cstr)
    have "snd (processQuery z (mk_Query GET key (hashFunc key)) ?sh) = ?sh\<lparr>keyValueStore := s'\<rparr>"
      using g by (simp add: processQuery_def mk_Query_def st)
    then have "?sh\<lparr>keyValueStore := s'\<rparr> = ?sh\<lparr>keyValueStore := k'\<rparr>" using q by simp
    from arg_cong [OF this, of keyValueStore] have "s' = k'" by simp
    then show ?thesis using g by (simp add: k_def kvs_get_key_def)
  qed
  show "kvs_inv z k" "lookup z k = lookup z (store_of sv i)" "clean k = clean (store_of sv i)"
    using k' kk by simp_all
  have on: "on_shard (hashFunc key) (processQuery z (mk_Query GET key (hashFunc key))) sv = (Val ptr, put_shard sv i k)"
    using on_shard_eq [OF sh, of _ key] q unfolding i_def kk by blast
  note put = put_shard_inv [OF sh i k'(1), folded kk]
  show "replies (handleGet z key RESP sv) (get_payload (lookup z (store_of sv i) (cstr key))) sv L (put_shard sv i k)"
  proof (cases "lookup z (store_of sv i) (cstr key)")
    case None
    then have "ptr = ConstPtr NOTHING" using v by simp
    then show ?thesis
      using on None responses_encoded_all [OF ar] put(2)
      by (auto simp: handleGet_def Let_def ptr_str_def get_payload_def intro!: on_arena_replies)
  next
    case (Some v')
    then obtain a b where ptr: "ptr = HeapPtr i a" "mem (heap (entryPool k)) a = Some b" "cstr b = v'"
      using v D(4) [OF i] kk by auto
    have "ptr_str (put_shard sv i k) ptr = Some b"
      using ptr put(6) [of i] i D(2) by (simp add: ptr_str_def store_heap_def put_shard_def)
    then show ?thesis
      using on Some ptr responses_encoded_all [OF ar] put(2)
      by (auto simp: handleGet_def Let_def get_payload_def intro!: on_arena_replies)
  qed
qed

end
