(* ===== verification/Server_Ops.thy ===== *)
theory Server_Ops
  imports Server_Inv
begin

section \<open>The shards together are one cache\<close>

text \<open>
  The three calls on the store of the shard that the hash of a key selects, as a second provider of
  the cache interface: the contract that one store meets, \<open>safe_cache\<close> and \<open>map_cache\<close>, is met by all
  shards together, so that every lemma on runs of calls also holds for the whole server.
\<close>

definition on_store :: "(kvs \<Rightarrow> 'r cpp \<times> kvs) \<Rightarrow> bytes \<Rightarrow> CacheServer \<Rightarrow> 'r cpp \<times> CacheServer" where
  "on_store f key sv = (case f (store_of sv (shard_of sv key)) of (r, k) \<Rightarrow> (r, put_shard sv (shard_of sv key) k))"

definition server_ops :: "'z zlib \<Rightarrow> CacheServer cache_ops" where
  "server_ops z = \<lparr>c_put = (\<lambda>k v. on_store (kvs_set_key z k v) k), c_fetch = (\<lambda>k. on_store (kvs_fetch z k) k),
     c_remove = (\<lambda>k. on_store (kvs_del_key k) k)\<rparr>"

definition server_lost :: "CacheServer \<Rightarrow> nat" where
  "server_lost sv = (\<Sum>i<numShards sv. length (cerr (store_of sv i)))"

definition server_fits :: "bytes \<Rightarrow> CacheServer \<Rightarrow> bool" where
  "server_fits key sv = kvs_fits key (store_of sv (shard_of sv key))"

definition server_tidy :: "CacheServer \<Rightarrow> bool" where
  "server_tidy sv \<longleftrightarrow> (\<forall>i<numShards sv. tidy (store_of sv i))"

lemma sum_upd:
  fixes f :: "nat \<Rightarrow> nat"
  assumes "i < n" "\<And>j. j < n \<Longrightarrow> j \<noteq> i \<Longrightarrow> g j = f j"
  shows "(\<Sum>j<n. g j) + f i = (\<Sum>j<n. f j) + g i"
proof -
  have "(\<Sum>j<n. g j) = g i + (\<Sum>j\<in>{..<n} - {i}. g j)" "(\<Sum>j<n. f j) = f i + (\<Sum>j\<in>{..<n} - {i}. f j)"
    using assms(1) by (auto intro: sum.remove)
  moreover have "(\<Sum>j\<in>{..<n} - {i}. g j) = (\<Sum>j\<in>{..<n} - {i}. f j)" using assms(2) by (intro sum.cong) auto
  ultimately show ?thesis by simp
qed

lemma lost_put_shard:
  assumes "shards_inv z sv" "kvs_inv z k"
  shows "server_lost (put_shard sv (shard_of sv key) k) + length (cerr (store_of sv (shard_of sv key))) =
    server_lost sv + length (cerr k)"
proof -
  note i = shards_invD(1) [OF assms(1), of key]
  note put = put_shard_inv [OF assms(1) i assms(2)]
  show ?thesis
    using sum_upd [OF i, of "\<lambda>j. length (cerr (store_of (put_shard sv (shard_of sv key) k) j))" "\<lambda>j. length (cerr (store_of sv j))"]
      put i by (simp add: server_lost_def)
qed

lemma put_shard_tidy:
  assumes "shards_inv z sv" "server_tidy sv" "tidy k" "kvs_inv z k"
  shows "server_tidy (put_shard sv (shard_of sv key) k)"
  using assms put_shard_inv [OF assms(1) shards_invD(1) [OF assms(1)] assms(4)]
  by (simp add: server_tidy_def)

lemma store_wf: "shards_inv z sv \<Longrightarrow> zlib_ok z \<and> kvs_inv z (store_of sv (shard_of sv key))"
  using shards_invD by blast

lemma slookup_upd:
  assumes "shards_inv z sv" "kvs_inv z k" "lookup z k = (lookup z (store_of sv (shard_of sv key)))(key := r)"
  shows "slookup z (put_shard sv (shard_of sv key) k) = (slookup z sv)(key := r)"
  using slookup_put_shard [OF assms(1,2), of "\<lambda>m. m(key := r)" key] assms(3) by (auto simp: slookup_def fun_eq_iff)

lemma slookup_same:
  assumes "shards_inv z sv" "kvs_inv z k" "lookup z k = lookup z (store_of sv (shard_of sv key))"
  shows "slookup z (put_shard sv (shard_of sv key) k) = slookup z sv"
  using slookup_upd [OF assms(1,2), of key "lookup z (store_of sv (shard_of sv key)) key"] assms(3)
  by (simp add: slookup_def fun_eq_iff)

text \<open>A call on the server is the call on one store.\<close>

lemma on_storeD:
  assumes "on_store f key sv = (r, sv')"
  obtains k where "f (store_of sv (shard_of sv key)) = (r, k)" "sv' = put_shard sv (shard_of sv key) k"
  using assms by (auto simp: on_store_def split: prod.splits)

interpretation sv: safe_cache "server_ops z" "shards_inv z" set_args server_lost limit_message
  for z :: "'z zlib"
proof
  fix s k v
  assume wf: "shards_inv z s" and args: "set_args k v"
  let ?st = "store_of s (shard_of s k)"
  note w = store_wf [OF wf, of k]
  consider b k' where "kvs_set_key z k v ?st = (Val b, k')" "kvs_inv z k'" "length (cerr ?st) \<le> length (cerr k')"
    | k' where "kvs_set_key z k v ?st = (Exn limit_message, k')"
    using kv.put_safe [OF w args] by (auto simp: kvs_ops_def)
  then show "(\<exists>b s'. c_put (server_ops z) k v s = (Val b, s') \<and> shards_inv z s' \<and> server_lost s \<le> server_lost s') \<or>
      (\<exists>s'. c_put (server_ops z) k v s = (Exn limit_message, s'))"
  proof cases
    case 1
    then show ?thesis
      using lost_put_shard [OF wf, of k' k] put_shard_inv(1) [OF wf shards_invD(1) [OF wf]]
      by (simp add: server_ops_def on_store_def)
  qed (simp add: server_ops_def on_store_def)
next
  fix s k
  assume wf: "shards_inv z s"
  let ?st = "store_of s (shard_of s k)"
  note w = store_wf [OF wf, of k]
  obtain r k' where k': "kvs_fetch z k ?st = (Val r, k')" "kvs_inv z k'" "length (cerr k') = length (cerr ?st)"
    using kv.fetch_safe [OF w, of k] by (auto simp: kvs_ops_def)
  then show "\<exists>r s'. c_fetch (server_ops z) k s = (Val r, s') \<and> shards_inv z s' \<and> server_lost s' = server_lost s"
    using lost_put_shard [OF wf k'(2), of k] put_shard_inv(1) [OF wf shards_invD(1) [OF wf]]
    by (simp add: server_ops_def on_store_def)
  obtain b k' where k': "kvs_del_key k ?st = (Val b, k')" "kvs_inv z k'" "length (cerr k') = length (cerr ?st)"
    using kv.remove_safe [OF w, of k] by (auto simp: kvs_ops_def)
  then show "\<exists>b s'. c_remove (server_ops z) k s = (Val b, s') \<and> shards_inv z s' \<and> server_lost s' = server_lost s"
    using lost_put_shard [OF wf k'(2), of k] put_shard_inv(1) [OF wf shards_invD(1) [OF wf]]
    by (simp add: server_ops_def on_store_def)
qed

interpretation sv: map_cache "server_ops z" "shards_inv z" set_args server_lost limit_message
  "slookup z" server_clean server_fits server_tidy
  for z :: "'z zlib"
proof
  fix s k v b s'
  assume wf: "shards_inv z s" and cl: "server_clean s" and args: "set_args k v"
    and run: "c_put (server_ops z) k v s = (Val b, s')" and lost: "server_lost s' = server_lost s"
  let ?i = "shard_of s k"
  let ?st = "store_of s ?i"
  note i = shards_invD(1) [OF wf, of k]
  note w = store_wf [OF wf, of k]
  have c: "clean ?st" using cl i by (simp add: server_clean_def)
  from run obtain k' where k': "kvs_set_key z k v ?st = (Val b, k')" "s' = put_shard s ?i k'"
    by (auto simp: server_ops_def elim: on_storeD)
  then have run': "c_put (kvs_ops z) k v ?st = (Val b, k')" by (simp add: kvs_ops_def)
  have inv': "kvs_inv z k'" using kv.put_safe [OF w args] run' by auto
  have lost': "length (cerr k') = length (cerr ?st)" using lost_put_shard [OF wf inv', of k] lost k'(2) by simp
  {
    assume "server_fits k s"
    then have v: "clean k'" "lookup z k' = (if b then (lookup z ?st)(k \<mapsto> v) else lookup z ?st)"
      using kv.put_view [OF w c args _ run' lost'] by (simp_all add: server_fits_def)
    then show "server_clean s' \<and> slookup z s' = (if b then (slookup z s)(k \<mapsto> v) else slookup z s)"
      using slookup_upd [OF wf inv', of k] slookup_same [OF wf inv', of k] put_shard_clean [OF wf cl v(1) inv', of k] k'(2)
      by (cases b) simp_all
  }
  assume t: "server_tidy s"
  then have "tidy ?st" using i by (simp add: server_tidy_def)
  from kv.put_neat [OF w c args this run' lost'] have "kvs_fits k ?st" "tidy k'" by auto
  then show "server_fits k s \<and> server_tidy s'"
    using put_shard_tidy [OF wf t _ inv', of k] k'(2) by (simp add: server_fits_def)
next
  fix s k r s'
  assume wf: "shards_inv z s" and cl: "server_clean s" and run: "c_fetch (server_ops z) k s = (Val r, s')"
  let ?st = "store_of s (shard_of s k)"
  note w = store_wf [OF wf, of k]
  have c: "clean ?st" using cl shards_invD(1) [OF wf, of k] by (simp add: server_clean_def)
  from run obtain k' where k': "kvs_fetch z k ?st = (Val r, k')" "s' = put_shard s (shard_of s k) k'"
    by (auto simp: server_ops_def elim: on_storeD)
  then have run': "c_fetch (kvs_ops z) k ?st = (Val r, k')" by (simp add: kvs_ops_def)
  have inv': "kvs_inv z k'" using kv.fetch_safe [OF w, of k] run' by auto
  from kv.fetch_view [OF w c run'] have v: "clean k'" "r = lookup z ?st k" "lookup z k' = lookup z ?st" by auto
  then show "server_clean s' \<and> r = slookup z s k \<and> slookup z s' = slookup z s"
    using slookup_same [OF wf inv' v(3)] put_shard_clean [OF wf cl v(1) inv', of k] k'(2) by (simp add: slookup_def)
  assume t: "server_tidy s"
  then have "tidy ?st" using shards_invD(1) [OF wf, of k] by (simp add: server_tidy_def)
  from kv.fetch_neat [OF w c this run'] show "server_tidy s'"
    using put_shard_tidy [OF wf t _ inv', of k] k'(2) by simp
next
  fix s k b s'
  assume wf: "shards_inv z s" and cl: "server_clean s" and run: "c_remove (server_ops z) k s = (Val b, s')"
  let ?st = "store_of s (shard_of s k)"
  note w = store_wf [OF wf, of k]
  have c: "clean ?st" using cl shards_invD(1) [OF wf, of k] by (simp add: server_clean_def)
  from run obtain k' where k': "kvs_del_key k ?st = (Val b, k')" "s' = put_shard s (shard_of s k) k'"
    by (auto simp: server_ops_def elim: on_storeD)
  then have run': "c_remove (kvs_ops z) k ?st = (Val b, k')" by (simp add: kvs_ops_def)
  have inv': "kvs_inv z k'" using kv.remove_safe [OF w, of k] run' by auto
  from kv.remove_view [OF w c run']
  have v: "clean k'" "b = (lookup z ?st k \<noteq> None)" "lookup z k' = (lookup z ?st)(k := None)" by auto
  then show "server_clean s' \<and> b = (slookup z s k \<noteq> None) \<and> slookup z s' = (slookup z s)(k := None)"
    using slookup_upd [OF wf inv' v(3)] put_shard_clean [OF wf cl v(1) inv', of k] k'(2) by (simp add: slookup_def)
qed

end
