(* ===== verification/Server_Exec.thy ===== *)
theory Server_Exec
  imports Server_Ops
begin

section \<open>Handlers and transactions against runs of calls\<close>

text \<open>
  Each handler answers with the encoding of the result that the call gives on the shards, and the
  loop of EXEC gives the encodings of a run of calls, in packets that share no storage.
\<close>

fun encode_res :: "kv_res \<Rightarrow> bytes" where
  "encode_res (Stored b) = set_payload b"
| "encode_res (Found r) = get_payload r"
| "encode_res (Removed b) = del_payload b"

text \<open>The result of a handler, a packet or an exception, follows the result of a call.\<close>

definition follows ::
  "ResponsePacket cpp \<times> CacheServer \<Rightarrow> kv_res cpp \<times> CacheServer \<Rightarrow> CacheServer \<Rightarrow> nat set \<Rightarrow> bool" where
  "follows h e sv L = (case e of
       (Val r, sv1) \<Rightarrow> replies h (encode_res r) sv L sv1
     | (Exn m, sv1) \<Rightarrow> h = (Exn m, sv1)
     | _ \<Rightarrow> False)"

text \<open>The calls of the handlers on the shard of a key, as calls on its store.\<close>

lemma on_shard_SET:
  assumes "shards_inv z sv"
  shows "on_shard (hashFunc key) (processCommand z (mk_Command SET key (Some val) (hashFunc key))) sv =
    and_then (on_store (kvs_set_key z (cstr key) (cstr val)) (cstr key) sv)
      (\<lambda>b sv. (Val (if b then OK else INTERNAL_ERROR), sv)) id"
proof -
  let ?sh = "serverShards sv ! shard_of sv key"
  obtain r k where r: "kvs_set_key z (cstr key) (cstr val) (store_of sv (shard_of sv key)) = (r, k)" by fastforce
  define r' where "r' = (case r of Val b \<Rightarrow> Val (if b then OK else INTERNAL_ERROR) | Exn m \<Rightarrow> Exn m | UB \<Rightarrow> UB | Hang \<Rightarrow> Hang)"
  have "processCommand z (mk_Command SET key (Some val) (hashFunc key)) ?sh = (r', ?sh\<lparr>keyValueStore := k\<rparr>)"
    using r by (cases r) (simp_all add: processCommand_def mk_Command_def kvs_set_key_def store_of_def r'_def)
  then have "on_shard (hashFunc key) (processCommand z (mk_Command SET key (Some val) (hashFunc key))) sv =
      (r', put_shard sv (shard_of sv key) k)"
    using on_shard_eq [OF assms, where f = "processCommand z (mk_Command SET key (Some val) (hashFunc key))"] by blast
  then show ?thesis using r by (cases r) (simp_all add: on_store_def r'_def)
qed

lemma on_shard_DEL:
  assumes "shards_inv z sv"
  shows "on_shard (hashFunc key) (processCommand z (mk_Command DEL key None (hashFunc key))) sv =
    and_then (on_store (kvs_del_key (cstr key)) (cstr key) sv) (\<lambda>b sv. (Val (if b then OK else KEY_NOT_EXISTS), sv)) id"
proof -
  let ?sh = "serverShards sv ! shard_of sv key"
  obtain r k where r: "kvs_del_key (cstr key) (store_of sv (shard_of sv key)) = (r, k)" by fastforce
  define r' where "r' = (case r of Val b \<Rightarrow> Val (if b then OK else KEY_NOT_EXISTS) | Exn m \<Rightarrow> Exn m | UB \<Rightarrow> UB | Hang \<Rightarrow> Hang)"
  have "processCommand z (mk_Command DEL key None (hashFunc key)) ?sh = (r', ?sh\<lparr>keyValueStore := k\<rparr>)"
    using r by (cases r) (simp_all add: processCommand_def mk_Command_def kvs_del_key_def store_of_def r'_def)
  then have "on_shard (hashFunc key) (processCommand z (mk_Command DEL key None (hashFunc key))) sv =
      (r', put_shard sv (shard_of sv key) k)"
    using on_shard_eq [OF assms, where f = "processCommand z (mk_Command DEL key None (hashFunc key))"] by blast
  then show ?thesis using r by (cases r) (simp_all add: on_store_def r'_def)
qed

lemma message_differs: "INTERNAL_ERROR \<noteq> OK" "KEY_NOT_EXISTS \<noteq> OK"
  by (simp_all add: message_defs)

lemma handleSet_eq:
  assumes "shards_inv z sv"
  shows "handleSet z key val RESP sv =
    and_then (on_store (kvs_set_key z (cstr key) (cstr val)) (cstr key) sv)
      (\<lambda>b. on_arena (if b then makeRespSimpleString OK else makeRespError INTERNAL_ERROR)) id"
proof -
  obtain r sv1 where "on_store (kvs_set_key z (cstr key) (cstr val)) (cstr key) sv = (r, sv1)" by fastforce
  then show ?thesis using message_differs by (cases r) (auto simp: handleSet_def Let_def on_shard_SET [OF assms])
qed

lemma handleDel_eq:
  assumes "shards_inv z sv"
  shows "handleDel z key RESP sv =
    and_then (on_store (kvs_del_key (cstr key)) (cstr key) sv)
      (\<lambda>b. on_arena (if b then makeRespInteger 1 else makeRespInteger 0)) id"
proof -
  obtain r sv1 where "on_store (kvs_del_key (cstr key)) (cstr key) sv = (r, sv1)" by fastforce
  then show ?thesis using message_differs by (cases r) (auto simp: handleDel_def Let_def on_shard_DEL [OF assms])
qed

lemma fetch_of_get:
  assumes "kvs_inv z s"
  shows "kvs_fetch z key s = (Val (lookup z s key), snd (kvs_get_key z key s))"
  using kvs_fetch_safe [OF assms, of key]
  by (auto simp: kvs_fetch_def and_then_def split: prod.splits cpp.splits)

lemma ascii_bit: "u64_to_ascii 0 = ''0''" "u64_to_ascii 1 = ''1''"
  by code_simp+

lemma on_store_arena: "on_store f key sv = (r, sv1) \<Longrightarrow> arena sv1 = arena sv"
  by (auto simp: put_shard_def elim: on_storeD)

lemma handleGet_follows:
  assumes inv: "server_inv z sv L"
  shows "follows (handleGet z key RESP sv) (exec_op (server_ops z) (Get (cstr key)) sv) sv L"
proof -
  have "shards_inv z sv" using inv by (simp add: server_inv_def)
  then have "kvs_inv z (store_of sv (shard_of sv key))" using shards_invD by blast
  from fetch_of_get [OF this] handleGet_RESP(1) [OF inv, of key] show ?thesis
    by (simp add: follows_def server_ops_def on_store_def)
qed

lemma handleSet_follows:
  assumes inv: "server_inv z sv L" and args: "set_sizes key val"
  shows "follows (handleSet z key val RESP sv) (exec_op (server_ops z) (Put (cstr key) (cstr val)) sv) sv L"
proof -
  have sh: "shards_inv z sv" and ar: "arena_inv (arena sv) L" using inv by (auto simp: server_inv_def)
  let ?e = "on_store (kvs_set_key z (cstr key) (cstr val)) (cstr key) sv"
  consider b sv1 where "?e = (Val b, sv1)" | sv1 where "?e = (Exn limit_message, sv1)"
    using sv.put_safe [OF sh set_args_cstr [OF args]] by (auto simp: server_ops_def)
  then show ?thesis
  proof cases
    case 1
    have "cstr OK = ''OK''" "cstr INTERNAL_ERROR = ''ERROR: Internal error''" by (simp_all add: message_defs cstr_def)
    then have "builds ((if b then makeRespSimpleString OK else makeRespError INTERNAL_ERROR) (arena sv)) (set_payload b) (arena sv) L"
      using responses_encoded_all [OF ar, of OK] responses_encoded_all [OF ar, of INTERNAL_ERROR]
      by (cases b) (simp_all add: set_payload_def)
    then have "replies (on_arena (if b then makeRespSimpleString OK else makeRespError INTERNAL_ERROR) sv1) (set_payload b) sv L sv1"
      using on_store_arena [OF 1] by (rule on_arena_replies)
    with 1 show ?thesis by (simp add: follows_def handleSet_eq [OF sh] server_ops_def)
  qed (simp add: follows_def handleSet_eq [OF sh] server_ops_def)
qed

lemma handleDel_follows:
  assumes inv: "server_inv z sv L"
  shows "follows (handleDel z key RESP sv) (exec_op (server_ops z) (Del (cstr key)) sv) sv L"
proof -
  have sh: "shards_inv z sv" and ar: "arena_inv (arena sv) L" using inv by (auto simp: server_inv_def)
  obtain b sv1 where e: "on_store (kvs_del_key (cstr key)) (cstr key) sv = (Val b, sv1)"
    using sv.remove_safe [OF sh, of "cstr key"] by (auto simp: server_ops_def)
  have "builds ((if b then makeRespInteger 1 else makeRespInteger 0) (arena sv)) (del_payload b) (arena sv) L"
    using responses_encoded_all [OF ar, of undefined 1] responses_encoded_all [OF ar, of undefined 0] ascii_bit
    by (cases b) (simp_all add: del_payload_def)
  then have "replies (on_arena (if b then makeRespInteger 1 else makeRespInteger 0) sv1) (del_payload b) sv L sv1"
    using on_store_arena [OF e] by (rule on_arena_replies)
  with e show ?thesis by (simp add: follows_def handleDel_eq [OF sh] server_ops_def)
qed

subsection \<open>The arena does not matter to the shards\<close>

lemma arena_irrelevant [simp]:
  "store_of (sv\<lparr>arena := a\<rparr>) i = store_of sv i" "shard_of (sv\<lparr>arena := a\<rparr>) key = shard_of sv key"
  "put_shard (sv\<lparr>arena := a\<rparr>) i k = (put_shard sv i k)\<lparr>arena := a\<rparr>"
  "shards_inv z (sv\<lparr>arena := a\<rparr>) = shards_inv z sv" "server_lost (sv\<lparr>arena := a\<rparr>) = server_lost sv"
  "slookup z (sv\<lparr>arena := a\<rparr>) = slookup z sv" "server_clean (sv\<lparr>arena := a\<rparr>) = server_clean sv"
  by (simp_all add: store_of_def shard_of_def put_shard_def shards_inv_def server_lost_def slookup_def
      server_clean_def fun_eq_iff)

lemma on_store_arena_upd: "on_store f key (sv\<lparr>arena := a\<rparr>) = apsnd (arena_update (\<lambda>_. a)) (on_store f key sv)"
  by (simp add: on_store_def split: prod.splits)

lemma exec_op_arena: "exec_op (server_ops z) x (sv\<lparr>arena := a\<rparr>) = apsnd (arena_update (\<lambda>_. a)) (exec_op (server_ops z) x sv)"
  by (cases x) (auto simp: server_ops_def on_store_arena_upd and_then_def split: prod.splits cpp.splits)

lemma run_ops_arena: "run_ops (server_ops z) xs (sv\<lparr>arena := a\<rparr>) = apsnd (arena_update (\<lambda>_. a)) (run_ops (server_ops z) xs sv)"
proof (induction xs arbitrary: sv)
  case (Cons x xs)
  obtain r sv1 where e: "exec_op (server_ops z) x sv = (r, sv1)" by fastforce
  obtain rs sv2 where es: "run_ops (server_ops z) xs sv1 = (rs, sv2)" by fastforce
  show ?case using e es Cons.IH [of sv1] by (cases r; cases rs) (simp_all add: exec_op_arena)
qed simp

subsection \<open>Packets that wait to be sent\<close>

definition slots_of :: "ResponsePacket list \<Rightarrow> nat list" where
  "slots_of ps = map inlineIndex (filter (\<lambda>p. inlineIndex p \<noteq> RESP_INLINE_INVALID) ps)"

text \<open>The packets \<open>ps\<close> carry the bytes \<open>bs\<close>, share no slots with each other or with \<open>L\<close>.\<close>

definition live :: "RespInlineArena \<Rightarrow> nat set \<Rightarrow> ResponsePacket list \<Rightarrow> bytes list \<Rightarrow> bool" where
  "live a L ps bs \<longleftrightarrow> arena_inv a (L \<union> set (slots_of ps)) \<and> distinct (slots_of ps) \<and> set (slots_of ps) \<inter> L = {} \<and>
     list_all packet_ok ps \<and> list_all (\<lambda>p. protocol p = RESP) ps \<and> map psize ps = map length bs \<and>
     map (packet_bytes a) ps = bs"

definition keeps :: "nat set \<Rightarrow> RespInlineArena \<Rightarrow> RespInlineArena \<Rightarrow> bool" where
  "keeps L a a' \<longleftrightarrow> (\<forall>j\<in>L. storage a' j = storage a j)"

lemma slots_of_simps [simp]:
  "slots_of [] = []"
  "slots_of (p # ps) = (if inlineIndex p \<noteq> RESP_INLINE_INVALID then inlineIndex p # slots_of ps else slots_of ps)"
  by (simp_all add: slots_of_def)

lemma packet_bytes_kept:
  "packet_ok p \<Longrightarrow> keeps (owned_slots p) a a' \<Longrightarrow> packet_bytes a' p = packet_bytes a p"
  by (auto simp: packet_bytes_def packet_ok_def keeps_def split: packet_data.splits cptr.splits)

lemma live_Cons:
  assumes p: "protocol p = RESP" "packet_ok p" "psize p = length pl" "packet_bytes a p = pl" "owned_slots p \<inter> L = {}"
    and rest: "live a' (L \<union> owned_slots p) ps bs" "keeps (L \<union> owned_slots p) a a'"
  shows "live a' L (p # ps) (pl # bs)"
proof -
  have "packet_bytes a' p = pl" using packet_bytes_kept [OF p(2), of a a'] p(4) rest(2) by (auto simp: keeps_def)
  moreover have "L \<union> owned_slots p \<union> set (slots_of ps) = L \<union> set (slots_of (p # ps))" by (auto simp: owned_slots_def)
  ultimately show ?thesis using p rest(1) by (auto simp: live_def owned_slots_def split: if_splits)
qed

lemma keeps_trans: "keeps L a b \<Longrightarrow> keeps (L \<union> M) b c \<Longrightarrow> keeps L a c"
  by (auto simp: keeps_def)

lemma repliesE:
  assumes "replies h pl sv L sv1"
  obtains p a where "h = (Val p, sv1\<lparr>arena := a\<rparr>)" "protocol p = RESP" "packet_ok p" "psize p = length pl"
    "packet_bytes a p = pl" "owned_slots p \<inter> L = {}" "arena_inv a (L \<union> owned_slots p)" "keeps L (arena sv) a"
  using assms by (auto simp: replies_def keeps_def)

subsection \<open>The loop of EXEC\<close>

definition op_of :: "QueuedCommand \<Rightarrow> kv_op" where
  "op_of q = (case qtype q of
       TxGet \<Rightarrow> Get (cstr (qkey q))
     | TxSet \<Rightarrow> Put (cstr (qkey q)) (cstr (qvalue q))
     | TxDel \<Rightarrow> Del (cstr (qkey q)))"

definition queued_ok :: "QueuedCommand \<Rightarrow> bool" where
  "queued_ok q \<longleftrightarrow> set_sizes (qkey q) (qvalue q)"

lemma exec_queued_follows:
  assumes "server_inv z sv L" "queued_ok q"
  shows "follows (exec_queued z q sv) (exec_op (server_ops z) (op_of q) sv) sv L"
  using assms handleGet_follows handleSet_follows handleDel_follows
  by (cases "qtype q") (simp_all add: exec_queued_def op_of_def queued_ok_def)

lemma op_of_args: "queued_ok q \<Longrightarrow> op_args_ok set_args (op_of q)"
  by (cases "qtype q") (simp_all add: op_of_def queued_ok_def set_args_cstr)

lemma exec_op_arena_same: "exec_op (server_ops z) x sv = (r, sv1) \<Longrightarrow> arena sv1 = arena sv"
  by (cases x) (auto simp: server_ops_def and_then_def split: prod.splits cpp.splits dest!: on_store_arena)

lemma exec_queue_follows:
  assumes "server_inv z sv L" "list_all queued_ok qs"
  shows "(\<exists>rs sv1 ps a. run_ops (server_ops z) (map op_of qs) sv = (Val rs, sv1) \<and> shards_inv z sv1 \<and>
      exec_queue z qs sv = (Val ps, sv1\<lparr>arena := a\<rparr>) \<and> live a L ps (map encode_res rs) \<and> keeps L (arena sv) a) \<or>
    (\<exists>sv1 a. run_ops (server_ops z) (map op_of qs) sv = (Exn limit_message, sv1) \<and>
      exec_queue z qs sv = (Exn limit_message, sv1\<lparr>arena := a\<rparr>))"
  using assms
proof (induction qs arbitrary: sv L)
  case Nil
  then show ?case by (auto simp: server_inv_def live_def keeps_def intro: exI [of _ "arena sv"])
next
  case (Cons q qs)
  have sh: "shards_inv z sv" using Cons.prems by (simp add: server_inv_def)
  have f: "follows (exec_queued z q sv) (exec_op (server_ops z) (op_of q) sv) sv L"
    using exec_queued_follows Cons.prems by auto
  consider r sv1 where "exec_op (server_ops z) (op_of q) sv = (Val r, sv1)" "shards_inv z sv1"
    | sv1 where "exec_op (server_ops z) (op_of q) sv = (Exn limit_message, sv1)"
    using sv.exec_safe [OF sh op_of_args, of q] Cons.prems by auto
  then show ?case
  proof cases
    case 1
    from f have "replies (exec_queued z q sv) (encode_res r) sv L sv1" by (simp add: follows_def 1)
    then obtain p a where p: "exec_queued z q sv = (Val p, sv1\<lparr>arena := a\<rparr>)" "protocol p = RESP" "packet_ok p"
      "psize p = length (encode_res r)" "packet_bytes a p = encode_res r" "owned_slots p \<inter> L = {}"
      "arena_inv a (L \<union> owned_slots p)" "keeps L (arena sv) a" by (rule repliesE)
    have inv: "server_inv z (sv1\<lparr>arena := a\<rparr>) (L \<union> owned_slots p)" using 1(2) p(7) by (simp add: server_inv_def)
    from Cons.IH [OF inv] Cons.prems(2) consider
      rs sv2 ps a' where "run_ops (server_ops z) (map op_of qs) (sv1\<lparr>arena := a\<rparr>) = (Val rs, sv2)" "shards_inv z sv2"
        "exec_queue z qs (sv1\<lparr>arena := a\<rparr>) = (Val ps, sv2\<lparr>arena := a'\<rparr>)" "live a' (L \<union> owned_slots p) ps (map encode_res rs)"
        "keeps (L \<union> owned_slots p) a a'"
      | sv2 a' where "run_ops (server_ops z) (map op_of qs) (sv1\<lparr>arena := a\<rparr>) = (Exn limit_message, sv2)"
        "exec_queue z qs (sv1\<lparr>arena := a\<rparr>) = (Exn limit_message, sv2\<lparr>arena := a'\<rparr>)" by auto
    then show ?thesis
    proof cases
      case 2: 1
      obtain rs' sv2' where r': "run_ops (server_ops z) (map op_of qs) sv1 = (rs', sv2')" by fastforce
      with 2(1) have eqs: "rs' = Val rs" "sv2 = sv2'\<lparr>arena := a\<rparr>" by (auto simp: run_ops_arena)
      have "live a' L (p # ps) (map encode_res (r # rs))"
        using live_Cons [OF p(2-6) 2(4,5)] by simp
      moreover have "keeps L (arena sv) a'" using keeps_trans [OF p(8) 2(5)] .
      moreover have "shards_inv z sv2'" using 2(2) eqs(2) by simp
      ultimately show ?thesis using 1(1) r' eqs 2(3) p(1) by (intro disjI1) auto
    next
      case 2
      obtain rs' sv2' where r': "run_ops (server_ops z) (map op_of qs) sv1 = (rs', sv2')" by fastforce
      with 2(1) have eqs: "rs' = Exn limit_message" "sv2 = sv2'\<lparr>arena := a\<rparr>" by (auto simp: run_ops_arena)
      show ?thesis using 1(1) r' eqs 2(2) p(1) by (intro disjI2) auto
    qed
  next
    case 2
    then have "exec_queued z q sv = (Exn limit_message, sv1\<lparr>arena := arena sv1\<rparr>)" using f by (simp add: follows_def)
    then show ?thesis using 2 by (intro disjI2 exI [of _ sv1] exI [of _ "arena sv1"]) simp
  qed
qed

end
