(* ===== verification/Server_Spec.thy ===== *)
theory Server_Spec
  imports Server_Exec
begin

section \<open>The session of a connection: specification and simulation\<close>

text \<open>
  What a client may rely on when it sends RESP commands over one connection. The specification keeps
  the state of the transaction as idle, open with the calls queued so far, or failed, and the shards
  as the cache they form together; it answers bytes. It knows nothing of parsing, packets, slots
  or persisted strings. \<open>processRequestSync\<close> simulates it, request by request.
\<close>

datatype cmd = CMulti | CDiscard | CExec | COp kv_op | CBad bytes

datatype tx_view = Idle | Open "kv_op list" | Failed

text \<open>The command that a list of arguments stands for.\<close>

definition command_of :: "bytes list \<Rightarrow> cmd" where
  "command_of args =
     (if args = [] \<or> 3 < length args then CBad UNABLE_TO_PARSE_REQUEST_ERROR
      else let name = cstr (hd args)
        in if name = ''MULTI'' then CMulti
           else if name = ''DISCARD'' then CDiscard
           else if name = ''EXEC'' then CExec
           else if name = ''GET'' then (case tl args of [k] \<Rightarrow> COp (Get (cstr k)) | _ \<Rightarrow> CBad INVALID_COMMAND_FORMAT)
           else if name = ''SET'' then (case tl args of [k, v] \<Rightarrow> COp (Put (cstr k) (cstr v)) | _ \<Rightarrow> CBad INVALID_COMMAND_FORMAT)
           else if name = ''DEL'' then (case tl args of [k] \<Rightarrow> COp (Del (cstr k)) | _ \<Rightarrow> CBad INVALID_COMMAND_FORMAT)
           else CBad UNKNOWN_COMMAND)"

definition simple_reply :: "bytes \<Rightarrow> bytes" where
  "simple_reply m = ''+'' @ cstr m @ [CR, LF]"

definition error_reply :: "bytes \<Rightarrow> bytes" where
  "error_reply m = ''-ERR '' @ cstr m @ [CR, LF]"

definition array_reply :: "bytes list \<Rightarrow> bytes" where
  "array_reply bs = ''*'' @ u64_to_ascii (length bs) @ [CR, LF] @ concat bs"

definition bump :: "CacheServer \<Rightarrow> CacheServer" where
  "bump sv = sv\<lparr>numErrors := numErrors sv + 1\<rparr>"

fun spec_step :: "'z zlib \<Rightarrow> cmd \<Rightarrow> tx_view \<times> CacheServer \<Rightarrow> bytes cpp \<times> tx_view \<times> CacheServer" where
  "spec_step z CMulti (tx, sv) = (case tx of
       Idle \<Rightarrow> (Val (simple_reply OK), Open [], sv)
     | _ \<Rightarrow> (Val (error_reply RESP_ERR_MULTI_NESTED), Failed, bump sv))"
| "spec_step z CDiscard (tx, sv) = (case tx of
       Idle \<Rightarrow> (Val (error_reply RESP_ERR_DISCARD_NO_MULTI), Idle, bump sv)
     | _ \<Rightarrow> (Val (simple_reply OK), Idle, sv))"
| "spec_step z CExec (tx, sv) = (case tx of
       Idle \<Rightarrow> (Val (error_reply RESP_ERR_EXEC_NO_MULTI), Idle, bump sv)
     | Failed \<Rightarrow> (Val (error_reply RESP_ERR_EXEC_ABORTED), Idle, bump sv)
     | Open xs \<Rightarrow> and_then (run_ops (server_ops z) xs sv)
         (\<lambda>rs sv. (Val (array_reply (map encode_res rs)), Idle, sv)) (\<lambda>sv. (Open xs, sv)))"
| "spec_step z (COp x) (tx, sv) = (case tx of
       Idle \<Rightarrow> and_then (exec_op (server_ops z) x sv) (\<lambda>r sv. (Val (encode_res r), Idle, sv)) (\<lambda>sv. (Idle, sv))
     | Open xs \<Rightarrow> (Val (simple_reply QUEUED_STR), Open (xs @ [x]), sv)
     | Failed \<Rightarrow> (Val (simple_reply QUEUED_STR), Failed, sv))"
| "spec_step z (CBad m) (tx, sv) = (Val (error_reply m), if tx = Idle then Idle else Failed, bump sv)"

subsection \<open>The abstraction of a connection\<close>

definition tx_of :: "RespTransactionState option \<Rightarrow> tx_view" where
  "tx_of t = (case t of
       None \<Rightarrow> Idle
     | Some tx \<Rightarrow> if \<not> active tx then Idle else if aborted tx then Failed else Open (map op_of (queue tx)))"

definition tx_ok :: "RespTransactionState option \<Rightarrow> bool" where
  "tx_ok t = (case t of None \<Rightarrow> True | Some tx \<Rightarrow> list_all queued_ok (queue tx))"

definition conn_inv :: "'z zlib \<Rightarrow> conn_state \<Rightarrow> nat set \<Rightarrow> bool" where
  "conn_inv z c L \<longleftrightarrow> server_inv z (server c) L \<and> tx_ok (respTransaction c)"

text \<open>A packet with the bytes \<open>pl\<close> in storage of its own, next to the packets that hold \<open>L\<close>.\<close>

definition carries :: "RespInlineArena \<Rightarrow> RespInlineArena \<Rightarrow> nat set \<Rightarrow> ResponsePacket \<Rightarrow> bytes \<Rightarrow> bool" where
  "carries a0 a L p pl \<longleftrightarrow> protocol p = RESP \<and> packet_ok p \<and> psize p = length pl \<and> packet_bytes a p = pl \<and>
     owned_slots p \<inter> L = {} \<and> arena_inv a (L \<union> owned_slots p) \<and> keeps L a0 a"

definition simulates :: "'z zlib \<Rightarrow> RespInlineArena \<Rightarrow> nat set \<Rightarrow> reply \<Rightarrow> bytes cpp \<times> tx_view \<times> CacheServer \<Rightarrow> bool" where
  "simulates z a0 L rep spec = (case spec of
       (Val pl, tx, sv1) \<Rightarrow> (\<exists>p a t. rep = (Val p, \<lparr>server = sv1\<lparr>arena := a\<rparr>, respTransaction = t\<rparr>) \<and>
          carries a0 a L p pl \<and> tx_of t = tx \<and> tx_ok t \<and> shards_inv z sv1)
     | (Exn m, tx, sv1) \<Rightarrow> m = limit_message \<and>
          (\<exists>a t. rep = (Exn m, \<lparr>server = sv1\<lparr>arena := a\<rparr>, respTransaction = t\<rparr>) \<and> tx_of t = tx)
     | _ \<Rightarrow> False)"

lemma replies_carries: "replies h pl sv L sv1 \<longleftrightarrow> (\<exists>p a. h = (Val p, sv1\<lparr>arena := a\<rparr>) \<and> carries (arena sv) a L p pl)"
  by (auto simp: replies_def carries_def keeps_def)

lemma bump_simps [simp]: "arena (bump sv) = arena sv" "shards_inv z (bump sv) = shards_inv z sv"
  "server_inv z (bump sv) L = server_inv z sv L" "server (count_error c) = bump (server c)"
  "respTransaction (count_error c) = respTransaction c"
  by (simp_all add: bump_def shards_inv_def store_of_def server_inv_def count_error_def)

text \<open>Answering with a builder.\<close>

lemma respond_simulates:
  assumes "builds (f (arena (server c))) pl (arena (server c)) L" "shards_inv z (server c)" "tx_ok (respTransaction c)"
  shows "simulates z (arena (server c)) L (respond f c) (Val pl, tx_of (respTransaction c), server c)"
proof -
  have "replies (on_arena f (server c)) pl (server c) L (server c)" using assms(1) refl by (rule on_arena_replies)
  then obtain p a where p: "on_arena f (server c) = (Val p, (server c)\<lparr>arena := a\<rparr>)" "carries (arena (server c)) a L p pl"
    by (auto simp: replies_carries)
  have "respond f c = (Val p, \<lparr>server = (server c)\<lparr>arena := a\<rparr>, respTransaction = respTransaction c\<rparr>)"
    using p(1) by (simp add: respond_def)
  then show ?thesis using p(2) assms(2,3) by (auto simp: simulates_def)
qed

lemma respond_builders:
  assumes "conn_inv z c L"
  shows "simulates z (arena (server c)) L (respond (makeRespSimpleString m) c) (Val (simple_reply m), tx_of (respTransaction c), server c)"
    "simulates z (arena (server c)) L (respond (makeRespError m) c) (Val (error_reply m), tx_of (respTransaction c), server c)"
  using assms responses_encoded_all [of "arena (server c)" L m]
  by (auto simp: conn_inv_def server_inv_def simple_reply_def error_reply_def intro!: respond_simulates)

subsection \<open>Transactions\<close>

lemma handleMulti_simulates:
  assumes "conn_inv z c L"
  shows "simulates z (arena (server c)) L (handleMulti c) (spec_step z CMulti (tx_of (respTransaction c), server c))"
proof (cases "tx_of (respTransaction c) = Idle")
  case True
  let ?c = "c\<lparr>respTransaction := Some (clearQueue ((ensureRespTransaction c)\<lparr>active := True, aborted := False\<rparr>))\<rparr>"
  have "handleMulti c = respond (makeRespSimpleString OK) ?c"
    using True by (auto simp: handleMulti_def ensureRespTransaction_def tx_of_def new_transaction_def Let_def split: option.splits if_splits)
  moreover have "conn_inv z ?c L" "tx_of (respTransaction ?c) = Open []"
    using assms by (simp_all add: conn_inv_def tx_ok_def tx_of_def clearQueue_def)
  ultimately show ?thesis using respond_builders(1) [of z ?c L OK] True by simp
next
  case False
  then obtain tx where tx: "respTransaction c = Some tx" "active tx" by (auto simp: tx_of_def split: option.splits if_splits)
  let ?c = "markRespTransactionError (count_error c)"
  have "handleMulti c = respond (makeRespError RESP_ERR_MULTI_NESTED) ?c"
    using tx by (simp add: handleMulti_def ensureRespTransaction_def Let_def)
      (metis conn_state.surjective conn_state.update_convs(2) tx(1))
  moreover have "conn_inv z ?c L" "tx_of (respTransaction ?c) = Failed" "server ?c = bump (server c)"
    using assms tx by (simp_all add: conn_inv_def tx_ok_def tx_of_def markRespTransactionError_def)
  ultimately show ?thesis
    using respond_builders(2) [of z ?c L RESP_ERR_MULTI_NESTED] False by (cases "tx_of (respTransaction c)") simp_all
qed

lemma not_active_Idle: "tx_of (respTransaction c) = Idle \<longleftrightarrow> \<not> in_transaction c"
  by (simp add: tx_of_def in_transaction_def split: option.splits)

lemma end_transaction_view: "tx_of (Some (end_transaction tx)) = Idle" "tx_ok (Some (end_transaction tx))"
  by (simp_all add: tx_of_def tx_ok_def end_transaction_def clearQueue_def)

lemma handleDiscard_simulates:
  assumes "conn_inv z c L"
  shows "simulates z (arena (server c)) L (handleDiscard c) (spec_step z CDiscard (tx_of (respTransaction c), server c))"
proof (cases "tx_of (respTransaction c) = Idle")
  case True
  have "handleDiscard c = respond (makeRespError RESP_ERR_DISCARD_NO_MULTI) (count_error c)"
    using True by (auto simp: handleDiscard_def tx_of_def split: option.splits if_splits)
  moreover have "conn_inv z (count_error c) L" using assms by (simp add: conn_inv_def)
  ultimately show ?thesis using respond_builders(2) [of z "count_error c" L RESP_ERR_DISCARD_NO_MULTI] True by simp
next
  case False
  then obtain tx where tx: "respTransaction c = Some tx" "active tx" by (auto simp: tx_of_def split: option.splits if_splits)
  let ?c = "c\<lparr>respTransaction := Some (end_transaction tx)\<rparr>"
  have "conn_inv z ?c L" using assms by (simp add: conn_inv_def end_transaction_view)
  then show ?thesis
    using respond_builders(1) [of z ?c L OK] False tx end_transaction_view
    by (cases "tx_of (respTransaction c)") (simp_all add: handleDiscard_def)
qed

lemma live_packets:
  assumes "live a L ps bs"
  shows "list_all (\<lambda>p. case data p of InlineData i \<Rightarrow> i \<in> L \<union> set (slots_of ps) | _ \<Rightarrow> True) ps"
    "list_all (\<lambda>p. length (packet_bytes a p) = psize p) ps" "length ps = length bs"
proof -
  have "i \<in> set (slots_of ps)" if "p \<in> set ps" "data p = InlineData i" for p i
  proof -
    have "packet_ok p" using that(1) assms by (simp add: live_def list_all_iff)
    then have "inlineIndex p \<noteq> RESP_INLINE_INVALID" "inlineIndex p = i"
      using that(2) by (auto simp: packet_ok_def owned_slots_def split: if_splits)
    then show ?thesis using that(1) by (auto simp: slots_of_def)
  qed
  then show "list_all (\<lambda>p. case data p of InlineData i \<Rightarrow> i \<in> L \<union> set (slots_of ps) | _ \<Rightarrow> True) ps"
    by (auto simp: list_all_iff split: packet_data.splits)
  have "map psize ps = map length bs" "map (packet_bytes a) ps = bs" using assms by (simp_all add: live_def)
  then have "map psize ps = map (\<lambda>p. length (packet_bytes a p)) ps" "length ps = length bs" by auto
  then show "list_all (\<lambda>p. length (packet_bytes a p) = psize p) ps" "length ps = length bs"
    by (auto simp: list_all_iff)
qed

lemma destroy_all_slots: "destroy_all ps a = fold release (slots_of ps) a"
  unfolding destroy_all_def by (induction ps arbitrary: a) (auto simp: destroy_packet_def drop_inline_def)

text \<open>Building the array of the results and destroying them afterwards.\<close>

lemma array_of_live:
  assumes lv: "live a L ps bs"
  shows "\<exists>p a'. makeRespArray ps a = (Val p, a') \<and> carries a (destroy_all ps a') L p (array_reply bs)"
proof -
  let ?S = "set (slots_of ps)"
  have ar: "arena_inv a (L \<union> ?S)" and d: "distinct (slots_of ps)" "?S \<inter> L = {}" and bs: "map (packet_bytes a) ps = bs"
    using lv by (simp_all add: live_def)
  from makeRespArray_builds [OF ar live_packets(1,2) [OF lv]] bs live_packets(3) [OF lv]
  obtain p a' where p: "makeRespArray ps a = (Val p, a')" "protocol p = RESP" "packet_ok p" "psize p = length (array_reply bs)"
    "packet_bytes a' p = array_reply bs" "owned_slots p \<inter> (L \<union> ?S) = {}" "arena_inv a' (L \<union> ?S \<union> owned_slots p)"
    "keeps (L \<union> ?S) a a'"
    by (auto simp: builds_def array_reply_def keeps_def)
  have sub: "set (slots_of ps) \<subseteq> L \<union> ?S \<union> owned_slots p" by auto
  note g = resp_arena.give_all [OF p(7) d(1) sub, folded destroy_all_slots]
  have "L \<union> ?S \<union> owned_slots p - ?S = L \<union> owned_slots p" using d(2) p(6) by auto
  with g have inv: "arena_inv (destroy_all ps a') (L \<union> owned_slots p)"
    and k: "keeps (L \<union> owned_slots p) a' (destroy_all ps a')" by (simp_all add: keeps_def)
  have "packet_bytes (destroy_all ps a') p = array_reply bs"
    using packet_bytes_kept [OF p(3), of a' "destroy_all ps a'"] k p(5) by (simp add: keeps_def)
  moreover have "keeps L a (destroy_all ps a')" using p(8) k by (auto simp: keeps_def)
  ultimately show ?thesis using p inv by (auto simp: carries_def)
qed

lemma keeps_carries: "keeps L a0 a \<Longrightarrow> carries a a' L p pl \<Longrightarrow> carries a0 a' L p pl"
  by (auto simp: carries_def keeps_def)

lemma handleExec_open:
  assumes inv: "conn_inv z c L" and tx: "respTransaction c = Some tx" "active tx" "\<not> aborted tx"
  shows "simulates z (arena (server c)) L (handleExec z c) (spec_step z CExec (Open (map op_of (queue tx)), server c))"
proof -
  have sv: "server_inv z (server c) L" "list_all queued_ok (queue tx)" using inv tx(1) by (auto simp: conn_inv_def tx_ok_def)
  from exec_queue_follows [OF sv] show ?thesis
  proof (elim disjE exE conjE)
    fix rs sv1 ps a
    assume run: "run_ops (server_ops z) (map op_of (queue tx)) (server c) = (Val rs, sv1)" "shards_inv z sv1"
      "exec_queue z (queue tx) (server c) = (Val ps, sv1\<lparr>arena := a\<rparr>)"
      and lv: "live a L ps (map encode_res rs)" and k: "keeps L (arena (server c)) a"
    from array_of_live [OF lv] obtain p a' where p: "makeRespArray ps a = (Val p, a')"
      "carries a (destroy_all ps a') L p (array_reply (map encode_res rs))" by blast
    have "handleExec z c = (Val p, \<lparr>server = sv1\<lparr>arena := destroy_all ps a'\<rparr>, respTransaction = Some (end_transaction tx)\<rparr>)"
      using run(3) p(1) tx by (simp add: handleExec_def on_arena_def)
    then show ?thesis
      using run(1,2) keeps_carries [OF k p(2)] end_transaction_view by (auto simp: simulates_def)
  next
    fix sv1 a
    assume run: "run_ops (server_ops z) (map op_of (queue tx)) (server c) = (Exn limit_message, sv1)"
      "exec_queue z (queue tx) (server c) = (Exn limit_message, sv1\<lparr>arena := a\<rparr>)"
    then have "handleExec z c = (Exn limit_message, \<lparr>server = sv1\<lparr>arena := a\<rparr>, respTransaction = Some tx\<rparr>)"
      using tx by (simp add: handleExec_def)
    then show ?thesis using run(1) tx by (auto simp: simulates_def tx_of_def)
  qed
qed

lemma handleExec_simulates:
  assumes inv: "conn_inv z c L"
  shows "simulates z (arena (server c)) L (handleExec z c) (spec_step z CExec (tx_of (respTransaction c), server c))"
proof (cases "tx_of (respTransaction c)")
  case Idle
  have "handleExec z c = respond (makeRespError RESP_ERR_EXEC_NO_MULTI) (count_error c)"
    using Idle by (auto simp: handleExec_def tx_of_def split: option.splits if_splits)
  moreover have "conn_inv z (count_error c) L" using inv by (simp add: conn_inv_def)
  ultimately show ?thesis using respond_builders(2) [of z "count_error c" L RESP_ERR_EXEC_NO_MULTI] Idle by simp
next
  case Failed
  then obtain tx where tx: "respTransaction c = Some tx" "active tx" "aborted tx"
    by (auto simp: tx_of_def split: option.splits if_splits)
  let ?c = "count_error (c\<lparr>respTransaction := Some (end_transaction tx)\<rparr>)"
  have "conn_inv z ?c L" using inv by (simp add: conn_inv_def end_transaction_view)
  then show ?thesis
    using respond_builders(2) [of z ?c L RESP_ERR_EXEC_ABORTED] Failed tx end_transaction_view
    by (simp add: handleExec_def)
next
  case (Open xs)
  then obtain tx where tx: "respTransaction c = Some tx" "active tx" "\<not> aborted tx" "xs = map op_of (queue tx)"
    by (auto simp: tx_of_def split: option.splits if_splits)
  from handleExec_open [OF inv tx(1-3)] show ?thesis using Open tx(4) by simp
qed

subsection \<open>Commands\<close>

lemma resp_error_simulates:
  assumes "conn_inv z c L"
  shows "simulates z (arena (server c)) L (resp_error m c) (spec_step z (CBad m) (tx_of (respTransaction c), server c))"
proof -
  let ?c = "markRespTransactionError (count_error c)"
  have "conn_inv z ?c L" "server ?c = bump (server c)"
    "tx_of (respTransaction ?c) = (if tx_of (respTransaction c) = Idle then Idle else Failed)"
    using assms by (auto simp: conn_inv_def tx_ok_def tx_of_def markRespTransactionError_def split: option.splits)
  moreover have "resp_error m c = respond (makeRespError m) ?c"
    by (simp add: resp_error_def makeErrorResponse_def fun_eq_iff respond_def on_arena_def)
  ultimately show ?thesis using respond_builders(2) [of z ?c L m] by simp
qed

lemma simulates_Exn:
  assumes "tx_of t = tx"
  shows "simulates z a0 L (Exn limit_message, \<lparr>server = sv1, respTransaction = t\<rparr>) (Exn limit_message, tx, sv1)"
  using assms unfolding simulates_def by (auto intro!: exI [of _ "arena sv1"])

text \<open>A data command: queued inside a transaction, run otherwise.\<close>

lemma data_command_simulates:
  assumes inv: "conn_inv z c L" and q: "queued_ok \<lparr>qtype = ty, qkey = persistString (Some k), qvalue = persistString v\<rparr>"
    and op: "op_of \<lparr>qtype = ty, qkey = persistString (Some k), qvalue = persistString v\<rparr> = x"
    and f: "follows (f (server c)) (exec_op (server_ops z) x (server c)) (server c) L" and args: "op_args_ok set_args x"
  shows "simulates z (arena (server c)) L (if in_transaction c then queueRespCommand ty k v c else run_handler f c)
    (spec_step z (COp x) (tx_of (respTransaction c), server c))"
proof (cases "in_transaction c")
  case True
  then obtain tx where tx: "respTransaction c = Some tx" "active tx" by (auto simp: in_transaction_def split: option.splits)
  let ?c = "c\<lparr>respTransaction := Some (tx\<lparr>queue := queue tx @ [\<lparr>qtype = ty, qkey = persistString (Some k), qvalue = persistString v\<rparr>]\<rparr>)\<rparr>"
  have "queueRespCommand ty k v c = respond (makeRespSimpleString QUEUED_STR) ?c"
    using tx by (simp add: queueRespCommand_def ensureRespTransaction_def Let_def)
  moreover have "conn_inv z ?c L" using inv q tx by (simp add: conn_inv_def tx_ok_def)
  ultimately show ?thesis
    using respond_builders(1) [of z ?c L QUEUED_STR] tx op True by (cases "aborted tx") (simp_all add: tx_of_def)
next
  case False
  have sh: "shards_inv z (server c)" using inv by (simp add: conn_inv_def server_inv_def)
  have t: "tx_of (respTransaction c) = Idle" using False by (simp add: not_active_Idle)
  consider r sv1 where "exec_op (server_ops z) x (server c) = (Val r, sv1)" "shards_inv z sv1"
    | sv1 where "exec_op (server_ops z) x (server c) = (Exn limit_message, sv1)"
    using sv.exec_safe [OF sh args] by auto
  then show ?thesis
  proof cases
    case 1
    with f obtain p a where p: "f (server c) = (Val p, sv1\<lparr>arena := a\<rparr>)" "carries (arena (server c)) a L p (encode_res r)"
      by (auto simp: follows_def replies_carries)
    have "run_handler f c = (Val p, \<lparr>server = sv1\<lparr>arena := a\<rparr>, respTransaction = respTransaction c\<rparr>)"
      using p(1) by (simp add: run_handler_def)
    then show ?thesis using p(2) 1 t False inv by (auto simp: simulates_def conn_inv_def)
  next
    case 2
    with f have "f (server c) = (Exn limit_message, sv1)" by (simp add: follows_def)
    then have "run_handler f c = (Exn limit_message, \<lparr>server = sv1, respTransaction = respTransaction c\<rparr>)"
      by (simp add: run_handler_def)
    then show ?thesis using 2 t False simulates_Exn [OF t, where ?sv1.0 = sv1] by simp
  qed
qed

lemma persistString_Some [simp]: "persistString (Some k) = cstr k"
  by (simp add: persistString_def)

lemma get_command:
  assumes "conn_inv z c L"
  shows "simulates z (arena (server c)) L
    (if in_transaction c then queueRespCommand TxGet (cstr k) None c else run_handler (handleGet z (cstr k) RESP) c)
    (spec_step z (COp (Get (cstr k))) (tx_of (respTransaction c), server c))"
proof (rule data_command_simulates [OF assms])
  show "follows (handleGet z (cstr k) RESP (server c)) (exec_op (server_ops z) (Get (cstr k)) (server c)) (server c) L"
    using handleGet_follows [of z "server c" L "cstr k"] assms by (simp add: conn_inv_def)
qed (simp_all add: queued_ok_def set_sizes_def persistString_def op_of_def)

lemma del_command:
  assumes "conn_inv z c L"
  shows "simulates z (arena (server c)) L
    (if in_transaction c then queueRespCommand TxDel (cstr k) None c else run_handler (handleDel z (cstr k) RESP) c)
    (spec_step z (COp (Del (cstr k))) (tx_of (respTransaction c), server c))"
proof (rule data_command_simulates [OF assms])
  show "follows (handleDel z (cstr k) RESP (server c)) (exec_op (server_ops z) (Del (cstr k)) (server c)) (server c) L"
    using handleDel_follows [of z "server c" L "cstr k"] assms by (simp add: conn_inv_def)
qed (simp_all add: queued_ok_def set_sizes_def persistString_def op_of_def)

lemma set_command:
  assumes "conn_inv z c L" "length v < 2 ^ 30"
  shows "simulates z (arena (server c)) L
    (if in_transaction c then queueRespCommand TxSet (cstr k) (Some (cstr v)) c else run_handler (handleSet z (cstr k) (cstr v) RESP) c)
    (spec_step z (COp (Put (cstr k) (cstr v))) (tx_of (respTransaction c), server c))"
proof (rule data_command_simulates [OF assms(1)])
  have "length (cstr v) \<le> length v" by (simp add: cstr_def length_takeWhile_le)
  then have sz: "set_sizes (cstr k) (cstr v)" using assms(2) by (simp add: set_sizes_def)
  show "follows (handleSet z (cstr k) (cstr v) RESP (server c)) (exec_op (server_ops z) (Put (cstr k) (cstr v)) (server c)) (server c) L"
    using handleSet_follows [OF _ sz, of z "server c" L] assms by (simp add: conn_inv_def)
  show "op_args_ok set_args (Put (cstr k) (cstr v))" using set_args_cstr [OF sz] by simp
  show "queued_ok \<lparr>qtype = TxSet, qkey = persistString (Some (cstr k)), qvalue = persistString (Some (cstr v))\<rparr>"
    using sz by (simp add: queued_ok_def)
qed (simp add: op_of_def)

lemmas command_simulations = handleMulti_simulates handleDiscard_simulates handleExec_simulates resp_error_simulates
  get_command del_command set_command

lemma respCommand_simulates:
  assumes inv: "conn_inv z c L" and n: "1 \<le> length args" "length args \<le> 3" and sz: "list_all (\<lambda>a. length a < 2 ^ 30) args"
    and key: "2 \<le> length args \<Longrightarrow> key = Some (cstr (args ! 1))" and val: "length args = 3 \<Longrightarrow> val = Some (cstr (args ! 2))"
  shows "simulates z (arena (server c)) L (respCommand z (length args) (cstr (hd args)) key val c)
    (spec_step z (command_of args) (tx_of (respTransaction c), server c))"
proof (rule three_args [OF n])
  fix a assume "args = [a]"
  then show ?thesis using command_simulations [OF inv] by (simp add: respCommand_def command_of_def Let_def)
next
  fix a b assume "args = [a, b]"
  then show ?thesis using command_simulations [OF inv] key by (simp add: respCommand_def command_of_def Let_def)
next
  fix a b d assume "args = [a, b, d]"
  then show ?thesis using command_simulations [OF inv] key val sz
    by (simp add: respCommand_def command_of_def Let_def numeral_2_eq_2)
qed

lemma length_bulks: "a \<in> set args \<Longrightarrow> length a < length (resp_request args)"
proof -
  assume "a \<in> set args"
  then have "length a \<le> length (concat (map bulk args))" by (induction args) (auto simp: bulk_def)
  then show ?thesis by (simp add: resp_request_def)
qed

text \<open>Any list of arguments, encoded as a RESP request of less than 1 GiB.\<close>

lemma request_simulates:
  assumes inv: "conn_inv z c L" and len: "length (resp_request args) < 2 ^ 30"
  shows "simulates z (arena (server c)) L (processRequestSync z \<lparr>payload = resp_request args, req_protocol = RESP\<rparr> c)
    (spec_step z (command_of args) (tx_of (respTransaction c), server c))"
proof (cases "1 \<le> length args \<and> length args \<le> 3")
  case True
  then have n: "1 \<le> length args" "length args \<le> 3" by auto
  have sz: "list_all (\<lambda>a. length a < 2 ^ 30) args"
    using length_bulks len unfolding list_all_iff by (meson less_trans)
  have len63: "length (resp_request args) < 2 ^ 63" using len by (rule less_trans) simp
  obtain d parts where p: "parseRespCommand (resp_request args) = Val (Some (d, parts))" "argc parts = length args"
    and m: "map (part_str d) (take (length args) [command parts, part_key parts, part_value parts]) =
      map (\<lambda>a. Some (cstr a)) args"
    using command_parts [OF n len63] by blast
  have parts: "part_str d (command parts) = Some (cstr (hd args))"
    "2 \<le> length args \<Longrightarrow> part_str d (part_key parts) = Some (cstr (args ! 1))"
    "length args = 3 \<Longrightarrow> part_str d (part_value parts) = Some (cstr (args ! 2))"
    by (rule three_args [OF n]; use m in \<open>simp add: numeral_2_eq_2 numeral_3_eq_3\<close>)+
  have "processRequestSync z \<lparr>payload = resp_request args, req_protocol = RESP\<rparr> c =
      respCommand z (length args) (cstr (hd args)) (part_str d (part_key parts)) (part_str d (part_value parts)) c"
    using p parts(1) by (simp add: processRequestSync_def processResp_def)
  then show ?thesis using respCommand_simulates [OF inv n sz parts(2,3)] by simp
next
  case False
  then have m: "length args = 0 \<or> 3 < length args" by linarith
  have "length (resp_request args) < 2 ^ 63" using len by (rule less_trans) simp
  from parseRespCommand_many [OF m this]
  have "processRequestSync z \<lparr>payload = resp_request args, req_protocol = RESP\<rparr> c = resp_error UNABLE_TO_PARSE_REQUEST_ERROR c"
    by (simp add: processRequestSync_def processResp_def)
  moreover have "command_of args = CBad UNABLE_TO_PARSE_REQUEST_ERROR" using m by (auto simp: command_of_def)
  ultimately show ?thesis using resp_error_simulates [OF inv] by simp
qed

end
