(* ===== verification/Time_Util.thy ===== *)
theory Time_Util
  imports Prelude
begin

section \<open>Time arithmetic (src/src/utils/time.cpp)\<close>

text \<open>
  A \<^verbatim>\<open>timespec\<close> is a pair of signed numbers. The clock values of the program are far from the limits of
  \<^verbatim>\<open>time_t\<close>, so seconds and nanoseconds are integers; the division and the remainder are taken of a
  positive number only, where the truncation of C and of \<open>div\<close> agree.
\<close>

record timespec =
  tv_sec :: int
  tv_nsec :: int

definition NANOSECONDS_IN_SECOND :: int where "NANOSECONDS_IN_SECOND = 1000000000"

definition timespec_plus :: "timespec \<Rightarrow> timespec \<Rightarrow> timespec" where
  "timespec_plus lhs rhs =
     (let sec = tv_sec lhs + tv_sec rhs; nsec = tv_nsec lhs + tv_nsec rhs
      in if NANOSECONDS_IN_SECOND \<le> nsec
         then \<lparr>tv_sec = sec + nsec div NANOSECONDS_IN_SECOND, tv_nsec = nsec mod NANOSECONDS_IN_SECOND\<rparr>
         else \<lparr>tv_sec = sec, tv_nsec = nsec\<rparr>)"

definition timespec_minus :: "timespec \<Rightarrow> timespec \<Rightarrow> timespec" where
  "timespec_minus lhs rhs =
     (let sec = tv_sec lhs - tv_sec rhs; nsec = tv_nsec lhs - tv_nsec rhs
      in if nsec < 0 then \<lparr>tv_sec = sec - 1, tv_nsec = nsec + NANOSECONDS_IN_SECOND\<rparr>
         else \<lparr>tv_sec = sec, tv_nsec = nsec\<rparr>)"

definition resetTimespec :: "timespec \<Rightarrow> timespec" where
  "resetTimespec ts = ts\<lparr>tv_sec := 0, tv_nsec := 0\<rparr>"

text \<open>The instant a value stands for, and the values the clock returns.\<close>

definition to_ns :: "timespec \<Rightarrow> int" where
  "to_ns t = tv_sec t * NANOSECONDS_IN_SECOND + tv_nsec t"

definition normalized :: "timespec \<Rightarrow> bool" where
  "normalized t \<longleftrightarrow> 0 \<le> tv_nsec t \<and> tv_nsec t < NANOSECONDS_IN_SECOND"

lemma to_ns_plus: "to_ns (timespec_plus a b) = to_ns a + to_ns b"
proof -
  have "(tv_nsec a + tv_nsec b) div N * N + (tv_nsec a + tv_nsec b) mod N = tv_nsec a + tv_nsec b" for N :: int
    by (rule div_mult_mod_eq)
  then show ?thesis by (simp add: to_ns_def timespec_plus_def Let_def distrib_right add.assoc)
qed

lemma to_ns_minus: "to_ns (timespec_minus a b) = to_ns a - to_ns b"
  by (simp add: to_ns_def timespec_minus_def Let_def algebra_simps)

lemma normalized_ops:
  "normalized a \<Longrightarrow> normalized b \<Longrightarrow> normalized (timespec_plus a b)"
  "normalized a \<Longrightarrow> normalized b \<Longrightarrow> normalized (timespec_minus a b)"
  by (auto simp: normalized_def timespec_plus_def timespec_minus_def NANOSECONDS_IN_SECOND_def Let_def)

text \<open>A normalized value is determined by its instant, and its seconds are the instant rounded down.\<close>

lemma normalized_sec: "normalized t \<Longrightarrow> tv_sec t = to_ns t div NANOSECONDS_IN_SECOND"
  by (simp add: normalized_def to_ns_def NANOSECONDS_IN_SECOND_def)

lemma normalized_inj:
  assumes "normalized a" "normalized b" "to_ns a = to_ns b"
  shows "a = b"
proof -
  have "tv_sec a = tv_sec b" using assms normalized_sec by metis
  then show ?thesis using assms(3) by (simp add: to_ns_def timespec.equality)
qed

subsection \<open>Properties\<close>

text \<open>
  Times are added and subtracted exactly: sum and difference of two normalized times are
  normalized and stand for the sum and the difference of the instants, and subtracting what was added
  gives back the time it was added to.
\<close>

theorem time_arithmetic:
  assumes "normalized a" and "normalized b"
  shows "to_ns (timespec_plus a b) = to_ns a + to_ns b \<and> normalized (timespec_plus a b) \<and>
    to_ns (timespec_minus a b) = to_ns a - to_ns b \<and> normalized (timespec_minus a b) \<and>
    timespec_minus (timespec_plus a b) b = a"
proof -
  have "normalized (timespec_plus a b)" "normalized (timespec_minus (timespec_plus a b) b)"
    using normalized_ops assms by blast+
  then show ?thesis
    using assms normalized_ops(2) [OF assms] normalized_inj [of "timespec_minus (timespec_plus a b) b" a]
    by (simp add: to_ns_plus to_ns_minus)
qed

theorem time_arithmetic_witness:
  "timespec_minus (timespec_plus \<lparr>tv_sec = 1, tv_nsec = 900000000\<rparr> \<lparr>tv_sec = 2, tv_nsec = 300000000\<rparr>)
     \<lparr>tv_sec = 2, tv_nsec = 300000000\<rparr> = \<lparr>tv_sec = 1, tv_nsec = 900000000\<rparr>"
  using time_arithmetic [of "\<lparr>tv_sec = 1, tv_nsec = 900000000\<rparr>" "\<lparr>tv_sec = 2, tv_nsec = 300000000\<rparr>"]
  by (simp add: normalized_def NANOSECONDS_IN_SECOND_def)

end
