(* ===== verification/Conn_Manager.thy ===== *)
theory Conn_Manager
  imports Server_Spec Time_Util
begin

section \<open>The connection manager (src/src/server/conn_manager.hpp)\<close>

text \<open>
  The table of connections, the counter of active ones and the mutex that guards them. The results of
  the system calls are arguments: whether \<^verbatim>\<open>epoll_ctl\<close> succeeded, what the clock returned, the order in
  which the hash map is walked. The mutex is not recursive: locking it again in the same call chain
  never returns, which is \<open>Hang\<close>. \<open>closed_fds\<close> records the descriptors that have been closed.
\<close>

definition MAX_CONN_LIFETIME_SEC :: int where "MAX_CONN_LIFETIME_SEC = 300"

record ConnectionData =
  lastActivity :: timespec
  cd_epoll_fd :: int
  readBuffer :: bytes
  pendingRequests :: "RequestView list"
  bytesToErase :: nat
  cd_respTransaction :: "RespTransactionState option"

definition zero_time :: timespec where "zero_time = \<lparr>tv_sec = 0, tv_nsec = 0\<rparr>"

definition new_connection :: "timespec \<Rightarrow> int \<Rightarrow> ConnectionData" where
  "new_connection ts epfd = \<lparr>lastActivity = ts, cd_epoll_fd = epfd, readBuffer = [], pendingRequests = [],
     bytesToErase = 0, cd_respTransaction = None\<rparr>"

text \<open>The default constructor, which \<^verbatim>\<open>connections[fd]\<close> calls for a missing key.\<close>

definition default_connection :: ConnectionData where
  "default_connection = new_connection zero_time (- 1)"

record ConnManager =
  epoll_fd :: int
  conn_mutex :: bool
  activeConnectionsCounter :: nat
  connections :: "int \<rightharpoonup> ConnectionData"
  closed_fds :: "int list"

definition new_ConnManager :: "int \<Rightarrow> ConnManager" where
  "new_ConnManager ep = \<lparr>epoll_fd = ep, conn_mutex = False, activeConnectionsCounter = 0,
     connections = Map.empty, closed_fds = []\<rparr>"

text \<open>\<^verbatim>\<open>connections[fd]\<close>.\<close>

definition conn_at :: "ConnManager \<Rightarrow> int \<Rightarrow> ConnectionData" where
  "conn_at cm fd = (case connections cm fd of None \<Rightarrow> default_connection | Some d \<Rightarrow> d)"

definition put_conn :: "int \<Rightarrow> ConnectionData \<Rightarrow> ConnManager \<Rightarrow> ConnManager" where
  "put_conn fd d cm = cm\<lparr>connections := (connections cm)(fd \<mapsto> d)\<rparr>"

text \<open>A body under \<^verbatim>\<open>std::lock_guard\<close>.\<close>

definition with_lock :: "(ConnManager \<Rightarrow> 'r cpp \<times> ConnManager) \<Rightarrow> ConnManager \<Rightarrow> 'r cpp \<times> ConnManager" where
  "with_lock body cm =
     (if conn_mutex cm then (Hang, cm)
      else (case body (cm\<lparr>conn_mutex := True\<rparr>) of
          (Hang, cm') \<Rightarrow> (Hang, cm')
        | (r, cm') \<Rightarrow> (r, cm'\<lparr>conn_mutex := False\<rparr>)))"

definition closeConnection :: "int \<Rightarrow> ConnManager \<Rightarrow> unit cpp \<times> ConnManager" where
  "closeConnection fd = with_lock (\<lambda>cm.
     if connections cm fd = None then (Val (), cm)
     else (Val (), cm\<lparr>closed_fds := closed_fds cm @ [fd], connections := (connections cm)(fd := None),
         activeConnectionsCounter := (if activeConnectionsCounter cm > 0 then activeConnectionsCounter cm - 1 else 0)\<rparr>))"

definition registerConnection :: "int \<Rightarrow> bool \<Rightarrow> timespec option \<Rightarrow> ConnManager \<Rightarrow> int cpp \<times> ConnManager" where
  "registerConnection client_fd ctl_ok clock = with_lock (\<lambda>cm.
     if \<not> ctl_ok then and_then (closeConnection client_fd cm) (\<lambda>_ cm. (Val (- 1), cm)) id
     else (case clock of
         None \<Rightarrow> (Val (- 1), cm)
       | Some time \<Rightarrow>
           if connections cm client_fd \<noteq> None then (Val 0, cm)
           else (Val 0, (put_conn client_fd (new_connection time (epoll_fd cm)) cm)
                   \<lparr>activeConnectionsCounter := activeConnectionsCounter cm + 1\<rparr>)))"

text \<open>The loop of \<^verbatim>\<open>validateConnections\<close> over the descriptors in the order of the hash map.\<close>

fun validate_loop :: "timespec \<Rightarrow> int list \<Rightarrow> ConnManager \<Rightarrow> unit cpp \<times> ConnManager" where
  "validate_loop now [] cm = (Val (), cm)"
| "validate_loop now (fd # fds) cm =
     (if tv_sec (timespec_minus now (lastActivity (conn_at cm fd))) > MAX_CONN_LIFETIME_SEC
      then and_then (closeConnection fd cm) (\<lambda>_ cm. validate_loop now fds cm) id
      else validate_loop now fds cm)"

definition validateConnections :: "timespec option \<Rightarrow> int list \<Rightarrow> ConnManager \<Rightarrow> unit cpp \<times> ConnManager" where
  "validateConnections clock order = with_lock (\<lambda>cm. case clock of
       None \<Rightarrow> (Val (), cm)
     | Some now \<Rightarrow> validate_loop now order cm)"

definition updateActivity :: "int \<Rightarrow> timespec option \<Rightarrow> ConnManager \<Rightarrow> bool cpp \<times> ConnManager" where
  "updateActivity fd clock = with_lock (\<lambda>cm. case clock of
       None \<Rightarrow> (Val False, cm)
     | Some time \<Rightarrow> (Val True, put_conn fd ((conn_at cm fd)\<lparr>lastActivity := time\<rparr>) cm))"

text \<open>
  One round of \<^verbatim>\<open>acceptConnections\<close>: \<open>Some fd\<close> is a connection that was accepted, \<open>None\<close> any failure of
  \<^verbatim>\<open>accept\<close>, which all lead to the validation; they differ only in what is printed and slept.
\<close>

record accept_round =
  accepted :: "int option"
  ctl_result :: bool
  clock_result :: "timespec option"
  walk :: "int list"

definition accept_once :: "accept_round \<Rightarrow> ConnManager \<Rightarrow> unit cpp \<times> ConnManager" where
  "accept_once r cm = (case accepted r of
       Some client_fd \<Rightarrow> and_then (registerConnection client_fd (ctl_result r) (clock_result r) cm) (\<lambda>_ cm. (Val (), cm)) id
     | None \<Rightarrow> if activeConnectionsCounter cm > 0 then validateConnections (clock_result r) (walk r) cm else (Val (), cm))"

text \<open>The rounds up to the stop request.\<close>

fun acceptConnections :: "accept_round list \<Rightarrow> ConnManager \<Rightarrow> unit cpp \<times> ConnManager" where
  "acceptConnections [] cm = (Val (), cm)"
| "acceptConnections (r # rs) cm = and_then (accept_once r cm) (\<lambda>_ cm. acceptConnections rs cm) id"

subsection \<open>The operations without the mutex\<close>

lemma with_lock_free:
  "\<not> conn_mutex cm \<Longrightarrow> body (cm\<lparr>conn_mutex := True\<rparr>) = (Val r, cm') \<Longrightarrow> with_lock body cm = (Val r, cm'\<lparr>conn_mutex := False\<rparr>)"
  by (simp add: with_lock_def)

definition drop_conn :: "int \<Rightarrow> ConnManager \<Rightarrow> ConnManager" where
  "drop_conn fd cm = cm\<lparr>closed_fds := closed_fds cm @ [fd], connections := (connections cm)(fd := None),
     activeConnectionsCounter := activeConnectionsCounter cm - 1\<rparr>"

lemma closeConnection_eq:
  assumes "\<not> conn_mutex cm"
  shows "closeConnection fd cm = (Val (), if connections cm fd = None then cm else drop_conn fd cm)"
  using assms by (simp add: closeConnection_def with_lock_def drop_conn_def)

lemma closeConnection_locked: "conn_mutex cm \<Longrightarrow> closeConnection fd cm = (Hang, cm)"
  by (simp add: closeConnection_def with_lock_def)

lemma updateActivity_eq:
  assumes "\<not> conn_mutex cm"
  shows "updateActivity fd clock cm = (case clock of
      None \<Rightarrow> (Val False, cm)
    | Some t \<Rightarrow> (Val True, put_conn fd ((conn_at cm fd)\<lparr>lastActivity := t\<rparr>) cm))"
  using assms by (simp add: updateActivity_def with_lock_def put_conn_def conn_at_def split: option.splits)

lemma registerConnection_eq:
  assumes "\<not> conn_mutex cm"
  shows "registerConnection fd ctl clock cm =
    (if \<not> ctl then (Hang, cm\<lparr>conn_mutex := True\<rparr>)
     else (case clock of
         None \<Rightarrow> (Val (- 1), cm)
       | Some t \<Rightarrow>
           if connections cm fd \<noteq> None then (Val 0, cm)
           else (Val 0, (put_conn fd (new_connection t (epoll_fd cm)) cm)\<lparr>activeConnectionsCounter := activeConnectionsCounter cm + 1\<rparr>)))"
  using assms
  by (simp add: registerConnection_def with_lock_def put_conn_def closeConnection_locked split: option.splits)

definition expired :: "timespec \<Rightarrow> ConnectionData \<Rightarrow> bool" where
  "expired now d \<longleftrightarrow> tv_sec (timespec_minus now (lastActivity d)) > MAX_CONN_LIFETIME_SEC"

lemma validate_loop_locked:
  assumes "conn_mutex cm"
  shows "validate_loop now fds cm = (if list_all (\<lambda>fd. \<not> expired now (conn_at cm fd)) fds then Val () else Hang, cm)"
  by (induction fds) (auto simp: expired_def closeConnection_locked assms)

end
