(* ===== verification/Reader.thy ===== *)
theory Reader
  imports Conn_Manager
begin

section \<open>Reading requests (\<open>CacheServer::readRequestAsync\<close> of src/src/server/server.cpp)\<close>

text \<open>
  The coroutine never suspends: its awaiters resume it at once, so it is a function. The results of
  the \<^verbatim>\<open>read\<close> calls are an argument; when the list is used up the socket would block. Requests are the
  bytes of their views into the read buffer; a view that would leave the buffer is \<open>UB\<close>. The loop that
  splits the buffer is a partial function: \<open>None\<close> means that it never ends.
\<close>

definition READ_BUFFER_SIZE :: nat where "READ_BUFFER_SIZE = 16384"
definition READ_NUM_RETRY_ON_INT :: nat where "READ_NUM_RETRY_ON_INT = 3"
definition MAX_REQUEST_SIZE :: nat where "MAX_REQUEST_SIZE = 536870912"
definition READ_MAX_ATTEMPTS :: nat where "READ_MAX_ATTEMPTS = MAX_REQUEST_SIZE div READ_BUFFER_SIZE * 2"

datatype ReqReadOperationResult = Failure | Success | AwaitingData

datatype read_result = ReadData bytes | ReadEof | ReadAgain | ReadIntr | ReadFail

datatype read_stop = Drained | PeerClosed | Broken

fun read_loop :: "read_result list \<Rightarrow> nat \<Rightarrow> nat \<Rightarrow> bytes \<Rightarrow> read_stop \<times> bytes" where
  "read_loop [] read_attempts readErrorsCounter buf = (Drained, buf)"
| "read_loop (r # rs) read_attempts readErrorsCounter buf =
     (if READ_MAX_ATTEMPTS \<le> read_attempts then (Drained, buf)
      else (case r of
          ReadAgain \<Rightarrow> (Drained, buf)
        | ReadIntr \<Rightarrow>
            if readErrorsCounter < READ_NUM_RETRY_ON_INT then read_loop rs read_attempts (readErrorsCounter + 1) buf
            else (Broken, buf)
        | ReadFail \<Rightarrow> (Broken, buf)
        | ReadEof \<Rightarrow> (PeerClosed, buf)
        | ReadData bs \<Rightarrow> read_loop rs (read_attempts + 1) readErrorsCounter (buf @ bs)))"

text \<open>
  The end of the splitting loop: the buffer with the NULs written into it, the position reached and the
  requests found; or a malformed request.
\<close>

datatype parse_end = Parsed bytes nat "RequestView list" | Malformed

partial_function (option) parse_loop :: "bytes \<Rightarrow> nat \<Rightarrow> RequestView list \<Rightarrow> parse_end cpp option" where
  "parse_loop buf start reqs =
     (if length buf \<le> start then Some (Val (Parsed buf start reqs))
      else if buf ! start = MSG_SEPARATOR then parse_loop buf (start + 1) reqs
      else if buf ! start = RESP_ARRAY_PREFIX then
        (case parseRespMessageLength buf start of
           Val r \<Rightarrow> (case status r of
               Incomplete \<Rightarrow> Some (Val (Parsed buf start reqs))
             | ParseError \<Rightarrow> Some (Val Malformed)
             | Complete \<Rightarrow>
                 if length buf < start + msg_length r then Some UB
                 else parse_loop buf (start + msg_length r)
                        (reqs @ [\<lparr>payload = take (msg_length r) (drop start buf), req_protocol = RESP\<rparr>]))
         | _ \<Rightarrow> Some UB)
      else
        let len = length (takeWhile (\<lambda>c. c \<noteq> MSG_SEPARATOR) (drop start buf)); pos = start + len
        in if length buf \<le> pos then Some (Val (Parsed buf start reqs))
           else parse_loop (buf[pos := NUL]) (pos + 1)
                  (reqs @ [\<lparr>payload = take len (drop start buf), req_protocol = Custom\<rparr>]))"

text \<open>
  The state of the event loop: the connections, the shards with their counters, the requests counted,
  and what has been written to each socket.
\<close>

record EventServer =
  connManager :: ConnManager
  cache :: CacheServer
  numRequests :: nat
  sent_to :: "int \<Rightarrow> bytes"

definition on_manager :: "(ConnManager \<Rightarrow> 'r cpp \<times> ConnManager) \<Rightarrow> EventServer \<Rightarrow> 'r cpp \<times> EventServer" where
  "on_manager f es = (case f (connManager es) of (r, cm) \<Rightarrow> (r, es\<lparr>connManager := cm\<rparr>))"

definition put_data :: "int \<Rightarrow> ConnectionData \<Rightarrow> EventServer \<Rightarrow> EventServer" where
  "put_data fd d es = es\<lparr>connManager := put_conn fd d (connManager es)\<rparr>"

definition fail_closed :: "int \<Rightarrow> EventServer \<Rightarrow> ReqReadOperationResult cpp \<times> EventServer" where
  "fail_closed fd es = and_then (on_manager (closeConnection fd) es) (\<lambda>_ es. (Val Failure, es)) id"

definition readRequestAsync :: "int \<Rightarrow> read_result list \<Rightarrow> EventServer \<Rightarrow> ReqReadOperationResult cpp \<times> EventServer" where
  "readRequestAsync client_fd reads es =
     (let connData = conn_at (connManager es) client_fd
      in case read_loop reads 0 0 (readBuffer connData) of
           (Broken, buf) \<Rightarrow> (Val Failure, put_data client_fd (connData\<lparr>readBuffer := buf\<rparr>) es)
         | (PeerClosed, buf) \<Rightarrow> fail_closed client_fd (put_data client_fd (connData\<lparr>readBuffer := buf\<rparr>) es)
         | (Drained, buf) \<Rightarrow>
             (case parse_loop buf 0 (pendingRequests connData) of
                None \<Rightarrow> (Hang, es)
              | Some (Val Malformed) \<Rightarrow>
                  fail_closed client_fd
                    (put_data client_fd (connData\<lparr>readBuffer := [], pendingRequests := [], bytesToErase := 0\<rparr>)
                      (es\<lparr>cache := (cache es)\<lparr>numErrors := numErrors (cache es) + 1\<rparr>\<rparr>))
              | Some (Val (Parsed buf start reqs)) \<Rightarrow>
                  (Val (if length (pendingRequests connData) < length reqs then Success else AwaitingData),
                   put_data client_fd (connData\<lparr>readBuffer := buf, pendingRequests := reqs,
                     bytesToErase := bytesToErase connData + start\<rparr>) es)
              | Some _ \<Rightarrow> (UB, es)))"

subsection \<open>What the reader reads\<close>

lemma read_loop_data:
  assumes "att + length bss \<le> READ_MAX_ATTEMPTS"
  shows "read_loop (map ReadData bss @ [ReadAgain]) att err buf = (Drained, buf @ concat bss)"
  using assms by (induction bss arbitrary: att buf) auto

text \<open>Writing a NUL makes no number longer.\<close>

lemma not_digit_NUL [simp]: "\<not> is_digit NUL"
  by (simp add: is_digit_def)

lemma short_numbers_write:
  assumes "short_numbers buf"
  shows "short_numbers (buf[pos := NUL])"
  unfolding short_numbers_def
proof (intro allI impI)
  fix i assume i: "i + 19 \<le> length (buf[pos := NUL])"
  then have "\<not> list_all is_digit (take 19 (drop i buf))" using assms by (simp add: short_numbers_def)
  then obtain j where j: "j < 19" "\<not> is_digit (buf ! (i + j))"
    using i by (auto simp: list_all_length)
  then have "\<not> is_digit (buf[pos := NUL] ! (i + j))" using i by (cases "pos = i + j") auto
  then show "\<not> list_all is_digit (take 19 (drop i (buf[pos := NUL])))"
    using i j(1) by (auto simp: list_all_length)
qed

end
