(* ===== verification/Sender.thy ===== *)
theory Sender
  imports Reader
begin

section \<open>Sending responses (\<open>sendResponse\<close> and \<open>sendResponses\<close> of src/src/server/server.cpp)\<close>

text \<open>
  Responses are gathered into a list of buffers, with a separator behind each custom response, and
  written with \<^verbatim>\<open>sendmsg\<close> until all bytes are gone. The results of the calls are an argument: a number of
  bytes taken, the request to try again, or an error. When the list is used up the socket never
  becomes writable again and the loop spins forever, which is \<open>Hang\<close>.
\<close>

datatype send_result = SentBytes nat | SendAgain | SendError

definition response_iov :: "(nat \<Rightarrow> addr \<Rightarrow> bytes option) \<Rightarrow> RespInlineArena \<Rightarrow> ResponsePacket \<Rightarrow> bytes list option" where
  "response_iov heaps a p =
     map_option (\<lambda>b. if protocol p = Custom then [b, [MSG_SEPARATOR]] else [b]) (sent_bytes heaps a p)"

text \<open>The buffers of all responses; \<open>None\<close> when one of them has been freed.\<close>

fun gather :: "(nat \<Rightarrow> addr \<Rightarrow> bytes option) \<Rightarrow> RespInlineArena \<Rightarrow> ResponsePacket list \<Rightarrow> bytes list option" where
  "gather heaps a [] = Some []"
| "gather heaps a (p # ps) = (case (response_iov heaps a p, gather heaps a ps) of
       (Some v, Some vs) \<Rightarrow> Some (v @ vs)
     | _ \<Rightarrow> None)"

text \<open>The inner loop that moves the list of buffers behind the bytes that were taken.\<close>

fun advance :: "nat \<Rightarrow> bytes list \<Rightarrow> bytes list" where
  "advance bytesSent [] = []"
| "advance bytesSent (v # iov) =
     (if bytesSent = 0 then v # iov
      else if length v \<le> bytesSent then advance (bytesSent - length v) iov
      else drop bytesSent v # iov)"

text \<open>The outer loop; the result is its outcome, what the socket took, and the errors counted.\<close>

fun send_loop :: "send_result list \<Rightarrow> bytes list \<Rightarrow> nat \<Rightarrow> nat \<Rightarrow> bytes \<Rightarrow> nat \<Rightarrow> unit cpp \<times> bytes \<times> nat" where
  "send_loop rs iov totalSent totalRequired out errs =
     (if totalRequired \<le> totalSent then (Val (), out, errs)
      else (case rs of
          [] \<Rightarrow> (Hang, out, errs)
        | SendAgain # rs \<Rightarrow> send_loop rs iov totalSent totalRequired out errs
        | SendError # rs \<Rightarrow> (Val (), out, errs + 1)
        | SentBytes n # rs \<Rightarrow>
            send_loop rs (advance n iov) (totalSent + n) totalRequired (out @ take n (concat iov)) errs))"

declare send_loop.simps [simp del]

definition sendResponses :: "int \<Rightarrow> ResponsePacket list \<Rightarrow> send_result list \<Rightarrow> EventServer \<Rightarrow> unit cpp \<times> EventServer" where
  "sendResponses client_fd responses rs es =
     (case gather (store_heap (cache es)) (arena (cache es)) responses of
        None \<Rightarrow> (UB, es)
      | Some iov \<Rightarrow>
          (case send_loop rs iov 0 (sum_list (map length iov)) [] (numErrors (cache es)) of
             (r, out, errs) \<Rightarrow>
               (r, es\<lparr>cache := (cache es)\<lparr>numErrors := errs\<rparr>,
                  sent_to := (sent_to es)(client_fd := sent_to es client_fd @ out)\<rparr>)))"

text \<open>\<^verbatim>\<open>sendResponse\<close> runs the same loops over the one or two buffers of a single response.\<close>

definition sendResponse :: "int \<Rightarrow> ResponsePacket \<Rightarrow> send_result list \<Rightarrow> EventServer \<Rightarrow> unit cpp \<times> EventServer" where
  "sendResponse client_fd response rs es =
     (case response_iov (store_heap (cache es)) (arena (cache es)) response of
        None \<Rightarrow> (UB, es)
      | Some iov \<Rightarrow>
          (case send_loop rs iov 0 (psize response + (if protocol response = Custom then 1 else 0)) [] (numErrors (cache es)) of
             (r, out, errs) \<Rightarrow>
               (r, es\<lparr>cache := (cache es)\<lparr>numErrors := errs\<rparr>,
                  sent_to := (sent_to es)(client_fd := sent_to es client_fd @ out)\<rparr>)))"

subsection \<open>The loop writes the bytes in order\<close>

text \<open>What \<^verbatim>\<open>sendmsg\<close> promises: it takes no more than it is given.\<close>

fun kernel_ok :: "send_result list \<Rightarrow> nat \<Rightarrow> bool" where
  "kernel_ok [] n = True"
| "kernel_ok (SentBytes k # rs) n = (k \<le> n \<and> kernel_ok rs (n - k))"
| "kernel_ok (SendAgain # rs) n = kernel_ok rs n"
| "kernel_ok (SendError # rs) n = True"

text \<open>The bytes taken before the first error.\<close>

fun taken :: "send_result list \<Rightarrow> nat" where
  "taken [] = 0"
| "taken (SentBytes k # rs) = k + taken rs"
| "taken (SendAgain # rs) = taken rs"
| "taken (SendError # rs) = 0"

lemma concat_advance: "concat (advance n iov) = drop n (concat iov)"
  by (induction n iov rule: advance.induct) auto

lemma send_loop_Cons:
  assumes "sent < req"
  shows "send_loop (SentBytes n # rs) iov sent req out errs =
      send_loop rs (advance n iov) (sent + n) req (out @ take n (concat iov)) errs"
    "send_loop (SendAgain # rs) iov sent req out errs = send_loop rs iov sent req out errs"
    "send_loop (SendError # rs) iov sent req out errs = (Val (), out, errs + 1)"
  using assms by (subst send_loop.simps, simp)+

lemma send_loop_done: "req \<le> sent \<Longrightarrow> send_loop rs iov sent req out errs = (Val (), out, errs)"
  by (subst send_loop.simps) simp

lemma send_loop_prefix:
  assumes "kernel_ok rs (length (concat iov))"
    and "send_loop rs iov sent (sent + length (concat iov)) out errs = (r, out', errs')"
  shows "(\<exists>k \<le> length (concat iov). out' = out @ take k (concat iov)) \<and> errs \<le> errs' \<and>
    (r = Val () \<and> errs' = errs \<longrightarrow> out' = out @ concat iov) \<and> (r = Val () \<or> r = Hang)"
  using assms
proof (induction rs arbitrary: iov sent out)
  case Nil
  then show ?case by (auto simp: send_loop.simps split: if_splits intro: exI [of _ 0])
next
  case (Cons x rs)
  show ?case
  proof (cases "concat iov = []")
    case True
    then show ?thesis using Cons.prems(2) by (simp add: send_loop_done) (metis le_refl)
  next
    case False
    then have lt: "sent < sent + length (concat iov)" by simp
    show ?thesis
    proof (cases x)
      case (SentBytes n)
      let ?c = "concat iov"
      have n: "n \<le> length ?c" "kernel_ok rs (length (concat (advance n iov)))"
        using Cons.prems(1) SentBytes by (simp_all add: concat_advance)
      have len: "sent + length ?c = sent + n + length (concat (advance n iov))" using n(1) by (simp add: concat_advance)
      have "send_loop rs (advance n iov) (sent + n) (sent + length ?c) (out @ take n ?c) errs = (r, out', errs')"
        using Cons.prems(2) SentBytes send_loop_Cons(1) [OF lt] by simp
      from Cons.IH [OF n(2) this [unfolded len]] obtain k where
        k: "k \<le> length (drop n ?c)" "out' = (out @ take n ?c) @ take k (drop n ?c)" "errs \<le> errs'"
        "r = Val () \<and> errs' = errs \<longrightarrow> out' = (out @ take n ?c) @ drop n ?c" "r = Val () \<or> r = Hang"
        by (auto simp: concat_advance)
      have "out' = out @ take (n + k) ?c" using k(2) by (simp add: take_add)
      moreover have "n + k \<le> length ?c" using k(1) n(1) by simp
      ultimately show ?thesis using k(3-5) by auto
    next
      case SendAgain
      then show ?thesis using Cons.IH [of iov sent out] Cons.prems send_loop_Cons(2) [OF lt] by simp
    next
      case SendError
      then show ?thesis using Cons.prems send_loop_Cons(3) [OF lt] by (auto intro: exI [of _ 0])
    qed
  qed
qed

lemma send_loop_completes:
  assumes "kernel_ok rs (length (concat iov))" "length (concat iov) \<le> taken rs"
  shows "\<exists>out'. send_loop rs iov sent (sent + length (concat iov)) out errs = (Val (), out', errs)"
  using assms
proof (induction rs arbitrary: iov sent out)
  case Nil
  then show ?case by (simp add: send_loop.simps)
next
  case (Cons x rs)
  show ?case
  proof (cases "concat iov = []")
    case True
    then show ?thesis by (simp add: send_loop_done)
  next
    case False
    then have lt: "sent < sent + length (concat iov)" by simp
    show ?thesis
    proof (cases x)
      case (SentBytes n)
      have n: "n \<le> length (concat iov)" "kernel_ok rs (length (concat (advance n iov)))"
        "length (concat (advance n iov)) \<le> taken rs"
        using Cons.prems SentBytes by (simp_all add: concat_advance)
      have len: "sent + length (concat iov) = sent + n + length (concat (advance n iov))" using n(1) by (simp add: concat_advance)
      from Cons.IH [OF n(2,3), of "sent + n" "out @ take n (concat iov)"] show ?thesis
        using SentBytes send_loop_Cons(1) [OF lt, of n rs iov out errs] unfolding len [symmetric] by simp
    qed (use Cons lt send_loop_Cons [OF lt] False in auto)
  qed
qed

lemma sum_lengths: "sum_list (map length iov) = length (concat iov)"
  by (simp add: length_concat)

end
