(* ===== verification/Event_Loop.thy ===== *)
theory Event_Loop
  imports Sender
begin

section \<open>The event loop (\<open>CacheServer::handleRequests\<close> of src/src/server/server.cpp)\<close>

text \<open>
  One round takes the events that \<^verbatim>\<open>epoll_wait\<close> returned: it reads from all ready connections, then
  handles the requests of those that gave any, and then sends the responses. \<^verbatim>\<open>epoll\<close> reports a
  descriptor at most once per round. The mutex \<^verbatim>\<open>req_handle_mutex\<close> has one user only. The hash map of
  responses is walked in the order of the readers; its entries go to different sockets.
\<close>

record epoll_event =
  ev_fd :: int
  ev_error :: bool
  ev_in :: bool
  ev_reads :: "read_result list"
  ev_clock :: "timespec option"

type_synonym reader = "int \<times> ReqReadOperationResult"

fun read_events :: "epoll_event list \<Rightarrow> EventServer \<Rightarrow> reader list cpp \<times> EventServer" where
  "read_events [] es = (Val [], es)"
| "read_events (ev # evs) es =
     (if ev_error ev then and_then (on_manager (closeConnection (ev_fd ev)) es) (\<lambda>_ es. read_events evs es) id
      else if ev_in ev then
        and_then (readRequestAsync (ev_fd ev) (ev_reads ev) es)
          (\<lambda>r es. and_then (on_manager (updateActivity (ev_fd ev) (ev_clock ev)) es)
             (\<lambda>_ es. and_then (read_events evs es) (\<lambda>rs es. (Val ((ev_fd ev, r) # rs), es)) id) id) id
      else read_events evs es)"

fun process_pending :: "'z zlib \<Rightarrow> RequestView list \<Rightarrow> conn_state \<Rightarrow> ResponsePacket list cpp \<times> conn_state" where
  "process_pending z [] c = (Val [], c)"
| "process_pending z (req # reqs) c =
     and_then (processRequestSync z req c)
       (\<lambda>p c. and_then (process_pending z reqs c) (\<lambda>ps c. (Val (p # ps), c)) id) id"

text \<open>
  \<^verbatim>\<open>vector::erase\<close> of more bytes than the buffer holds is undefined.
\<close>

definition erase_read :: "ConnectionData \<Rightarrow> ConnectionData cpp" where
  "erase_read d =
     (if bytesToErase d = 0 then Val d
      else if length (readBuffer d) < bytesToErase d then UB
      else Val (d\<lparr>readBuffer := drop (bytesToErase d) (readBuffer d), bytesToErase := 0\<rparr>))"

definition handle_reader :: "'z zlib \<Rightarrow> reader \<Rightarrow> EventServer \<Rightarrow> ResponsePacket list cpp \<times> EventServer" where
  "handle_reader z rd es =
     (if snd rd = Failure \<or> snd rd = AwaitingData then (Val [], es)
      else let fd = fst rd; connData = conn_at (connManager es) fd
        in case process_pending z (pendingRequests connData)
               \<lparr>server = cache es, respTransaction = cd_respTransaction connData\<rparr> of
             (Val ps, c) \<Rightarrow>
               let d = connData\<lparr>pendingRequests := [], cd_respTransaction := respTransaction c\<rparr>; es = es\<lparr>cache := server c\<rparr>
               in (case erase_read d of
                   Val d \<Rightarrow> (Val ps, put_data fd d es)
                 | Exn m \<Rightarrow> (Exn m, es)
                 | UB \<Rightarrow> (UB, es)
                 | Hang \<Rightarrow> (Hang, es))
           | (Exn m, c) \<Rightarrow> (Exn m, es\<lparr>cache := server c\<rparr>)
           | (UB, c) \<Rightarrow> (UB, es\<lparr>cache := server c\<rparr>)
           | (Hang, c) \<Rightarrow> (Hang, es\<lparr>cache := server c\<rparr>))"

fun handle_readers :: "'z zlib \<Rightarrow> reader list \<Rightarrow> EventServer \<Rightarrow> (int \<times> ResponsePacket list) list cpp \<times> EventServer" where
  "handle_readers z [] es = (Val [], es)"
| "handle_readers z (rd # rds) es =
     and_then (handle_reader z rd es)
       (\<lambda>ps es. and_then (handle_readers z rds es) (\<lambda>rpc es. (Val ((fst rd, ps) # rpc), es)) id) id"

fun send_all :: "(int \<Rightarrow> send_result list) \<Rightarrow> (int \<times> ResponsePacket list) list \<Rightarrow> EventServer \<Rightarrow> unit cpp \<times> EventServer" where
  "send_all sock [] es = (Val (), es)"
| "send_all sock ((fd, responses) # rpc) es =
     and_then (if responses \<noteq> [] then sendResponses fd responses (sock fd) es else (Val (), es))
       (\<lambda>_ es. send_all sock rpc es) id"

text \<open>All packets are destroyed with the map at the end of the round.\<close>

definition drop_responses :: "(int \<times> ResponsePacket list) list \<Rightarrow> EventServer \<Rightarrow> EventServer" where
  "drop_responses rpc es = es\<lparr>cache := (cache es)\<lparr>arena := destroy_all (concat (map snd rpc)) (arena (cache es))\<rparr>\<rparr>"

text \<open>
  \<^verbatim>\<open>processRequest\<close>, a coroutine that answers one request at once; the event loop does not use it. An
  exception ends the coroutine and is swallowed.
\<close>

definition processRequest :: "'z zlib \<Rightarrow> RequestView \<Rightarrow> int \<Rightarrow> send_result list \<Rightarrow> EventServer \<Rightarrow> unit cpp \<times> EventServer" where
  "processRequest z request client_fd rs es = (case connections (connManager es) client_fd of
       None \<Rightarrow> (Val (), es)
     | Some d \<Rightarrow>
         (case processRequestSync z request \<lparr>server = cache es, respTransaction = cd_respTransaction d\<rparr> of
            (r, c) \<Rightarrow>
              let es = put_data client_fd (d\<lparr>cd_respTransaction := respTransaction c\<rparr>) (es\<lparr>cache := server c\<rparr>)
              in (case r of
                  Val response \<Rightarrow> and_then (sendResponse client_fd response rs es)
                    (\<lambda>_ es. (Val (), drop_responses [(client_fd, [response])] es)) id
                | Exn m \<Rightarrow> (Val (), es)
                | UB \<Rightarrow> (UB, es)
                | Hang \<Rightarrow> (Hang, es))))"

definition handle_round :: "'z zlib \<Rightarrow> epoll_event list \<Rightarrow> (int \<Rightarrow> send_result list) \<Rightarrow> EventServer \<Rightarrow> unit cpp \<times> EventServer" where
  "handle_round z evs sock es =
     and_then (read_events evs (es\<lparr>numRequests := numRequests es + length evs\<rparr>))
       (\<lambda>readers es. and_then (handle_readers z readers es)
          (\<lambda>rpc es. and_then (send_all sock rpc es) (\<lambda>_ es. (Val (), drop_responses rpc es)) id) id) id"

text \<open>
  The coroutine is driven by \<^verbatim>\<open>next_value\<close>. It is done after a failure of \<^verbatim>\<open>epoll_wait\<close>, an interrupted
  call included, and after an exception, which \<^verbatim>\<open>unhandled_exception\<close> swallows; then \<^verbatim>\<open>next_value\<close> no
  longer resumes it.
\<close>

datatype epoll_result = EpollError | EpollEvents "epoll_event list" "int \<Rightarrow> send_result list"

datatype loop_state = Running EventServer | Done EventServer | Crashed

definition next_value :: "'z zlib \<Rightarrow> epoll_result \<Rightarrow> loop_state \<Rightarrow> loop_state" where
  "next_value z ep st = (case st of
       Running es \<Rightarrow> (case ep of
           EpollError \<Rightarrow> Done es
         | EpollEvents evs sock \<Rightarrow>
             if evs = [] then Running es
             else (case handle_round z evs sock es of
                 (Val _, es) \<Rightarrow> Running es
               | (Exn _, es) \<Rightarrow> Done es
               | _ \<Rightarrow> Crashed))
     | Done es \<Rightarrow> Done es
     | Crashed \<Rightarrow> Crashed)"

subsection \<open>Batches of RESP requests\<close>

text \<open>The specification of a batch on one connection.\<close>

fun spec_run :: "'z zlib \<Rightarrow> cmd list \<Rightarrow> tx_view \<times> CacheServer \<Rightarrow> bytes list cpp \<times> tx_view \<times> CacheServer" where
  "spec_run z [] s = (Val [], s)"
| "spec_run z (x # xs) s =
     and_then (spec_step z x s) (\<lambda>b s. and_then (spec_run z xs s) (\<lambda>bs s. (Val (b # bs), s)) id) id"

text \<open>The specification does not look at the arena.\<close>

lemma bump_arena: "bump (sv\<lparr>arena := a\<rparr>) = (bump sv)\<lparr>arena := a\<rparr>"
  by (simp add: bump_def)

lemma spec_step_arena:
  "spec_step z x (tx, sv\<lparr>arena := a\<rparr>) = apsnd (apsnd (arena_update (\<lambda>_. a))) (spec_step z x (tx, sv))"
  by (cases x; cases tx) (auto simp: bump_arena exec_op_arena run_ops_arena and_then_def split: prod.splits cpp.splits)

lemma spec_run_arena:
  "spec_run z xs (tx, sv\<lparr>arena := a\<rparr>) = apsnd (apsnd (arena_update (\<lambda>_. a))) (spec_run z xs (tx, sv))"
proof (induction xs arbitrary: tx sv)
  case (Cons x xs)
  obtain b tx1 sv1 where 1: "spec_step z x (tx, sv) = (b, tx1, sv1)" by (metis prod_cases3)
  obtain bs tx2 sv2 where 2: "spec_run z xs (tx1, sv1) = (bs, tx2, sv2)" by (metis prod_cases3)
  show ?case using 1 2 Cons.IH [of tx1 sv1] by (cases b; cases bs) (simp_all add: spec_step_arena)
qed simp

definition resp_view :: "bytes list \<Rightarrow> RequestView" where
  "resp_view args = \<lparr>payload = resp_request args, req_protocol = RESP\<rparr>"

text \<open>
  A batch answers what the specification answers, in packets that are all live together; when the
  table sizes are used up, both stop with the same exception.
\<close>

lemma process_pending_simulates:
  assumes "conn_inv z c L" "list_all (\<lambda>args. length (resp_request args) < 2 ^ 30) reqs"
  shows "(\<exists>bs tx sv1 ps a t. spec_run z (map command_of reqs) (tx_of (respTransaction c), server c) = (Val bs, tx, sv1) \<and>
      process_pending z (map resp_view reqs) c = (Val ps, \<lparr>server = sv1\<lparr>arena := a\<rparr>, respTransaction = t\<rparr>) \<and>
      live a L ps bs \<and> keeps L (arena (server c)) a \<and> tx_of t = tx \<and> tx_ok t \<and> shards_inv z sv1) \<or>
    (\<exists>s c'. spec_run z (map command_of reqs) (tx_of (respTransaction c), server c) = (Exn limit_message, s) \<and>
      process_pending z (map resp_view reqs) c = (Exn limit_message, c'))"
  using assms
proof (induction reqs arbitrary: c L)
  case Nil
  then have "live (arena (server c)) L [] []" "keeps L (arena (server c)) (arena (server c))"
    by (simp_all add: conn_inv_def server_inv_def live_def keeps_def)
  then show ?case using Nil by (auto simp: conn_inv_def server_inv_def intro!: exI [of _ "arena (server c)"] exI [of _ "respTransaction c"])
next
  case (Cons args reqs)
  obtain b tx1 sv1 where step: "spec_step z (command_of args) (tx_of (respTransaction c), server c) = (b, tx1, sv1)"
    by (metis prod_cases3)
  have sim: "simulates z (arena (server c)) L (processRequestSync z (resp_view args) c) (b, tx1, sv1)"
    using request_simulates [OF Cons.prems(1), of args] Cons.prems(2) step by (simp add: resp_view_def)
  then consider pl p a t where "b = Val pl" "processRequestSync z (resp_view args) c = (Val p, \<lparr>server = sv1\<lparr>arena := a\<rparr>, respTransaction = t\<rparr>)"
      "carries (arena (server c)) a L p pl" "tx_of t = tx1" "tx_ok t" "shards_inv z sv1"
    | c' where "b = Exn limit_message" "processRequestSync z (resp_view args) c = (Exn limit_message, c')"
    by (cases b) (auto simp: simulates_def)
  then show ?case
  proof cases
    case 1
    note p = 1(3) [unfolded carries_def]
    let ?c = "\<lparr>server = sv1\<lparr>arena := a\<rparr>, respTransaction = t\<rparr>"
    have inv: "conn_inv z ?c (L \<union> owned_slots p)" using 1 p by (simp add: conn_inv_def server_inv_def)
    from Cons.IH [OF inv] Cons.prems(2) consider
      bs tx sv2 ps a' t' where "spec_run z (map command_of reqs) (tx1, sv1\<lparr>arena := a\<rparr>) = (Val bs, tx, sv2)"
        "process_pending z (map resp_view reqs) ?c = (Val ps, \<lparr>server = sv2\<lparr>arena := a'\<rparr>, respTransaction = t'\<rparr>)"
        "live a' (L \<union> owned_slots p) ps bs" "keeps (L \<union> owned_slots p) a a'" "tx_of t' = tx" "tx_ok t'" "shards_inv z sv2"
      | s c' where "spec_run z (map command_of reqs) (tx1, sv1\<lparr>arena := a\<rparr>) = (Exn limit_message, s)"
        "process_pending z (map resp_view reqs) ?c = (Exn limit_message, c')"
      using 1(4) by auto
    then show ?thesis
    proof cases
      case 2: 1
      obtain bs' tx' sv2' where r': "spec_run z (map command_of reqs) (tx1, sv1) = (bs', tx', sv2')" by (metis prod_cases3)
      with 2(1) have eqs: "bs' = Val bs" "tx' = tx" "sv2 = sv2'\<lparr>arena := a\<rparr>" by (auto simp: spec_run_arena)
      have "live a' L (p # ps) (pl # bs)" using live_Cons [OF _ _ _ _ _ 2(3,4)] p by simp
      moreover have "keeps L (arena (server c)) a'" using keeps_trans [OF _ 2(4)] p by blast
      moreover have "shards_inv z sv2'" using 2(7) eqs(3) by simp
      ultimately show ?thesis using step 1(1,2) r' eqs 2(2,5,6) by (intro disjI1) auto
    next
      case 2
      then show ?thesis using step 1(1,2) spec_run_arena [of z "map command_of reqs" tx1 a sv1]
        by (intro disjI2) (cases "spec_run z (map command_of reqs) (tx1, sv1)", auto)
    qed
  next
    case 2
    then show ?thesis using step by (intro disjI2) auto
  qed
qed

end
