(* ===== verification/Reader_Props.thy ===== *)
theory Reader_Props
  imports Reader
begin

section \<open>Properties of the reader\<close>

text \<open>
  The loop that splits the read buffer: it returns on all buffers without overlong numbers, cuts a
  stream of messages of both protocols into exactly its requests, and can be made to run forever.
\<close>

subsection \<open>Termination\<close>

lemmas parse_loop_unfold = parse_loop.simps

lemma parse_loop_total:
  assumes "short_numbers buf" "length buf < 2 ^ 62" "start \<le> length buf"
  shows "parse_loop buf start reqs = Some (Val Malformed) \<or>
    (\<exists>buf' start' ms. parse_loop buf start reqs = Some (Val (Parsed buf' start' (reqs @ ms))) \<and>
      start \<le> start' \<and> start' \<le> length buf' \<and> length buf' = length buf \<and> drop start' buf' = drop start' buf)"
  using assms
proof (induction "length buf - start" arbitrary: buf start reqs rule: less_induct)
  case less
  show ?case
  proof (cases "length buf \<le> start")
    case True
    then show ?thesis using less.prems by (simp add: parse_loop_unfold)
  next
    case in_buf: False
    consider (sep) "buf ! start = MSG_SEPARATOR" | (resp) "buf ! start = RESP_ARRAY_PREFIX" "buf ! start \<noteq> MSG_SEPARATOR"
      | (custom) "buf ! start \<noteq> MSG_SEPARATOR" "buf ! start \<noteq> RESP_ARRAY_PREFIX" by blast
    then show ?thesis
    proof cases
      case sep
      then have "parse_loop buf start reqs = parse_loop buf (start + 1) reqs" using in_buf by (simp add: parse_loop_unfold)
      with less.hyps [of buf "start + 1" reqs] less.prems in_buf show ?thesis by fastforce
    next
      case resp
      obtain r where r: "parseRespMessageLength buf start = Val r"
        "if status r = Complete then 0 < msg_length r \<and> start + msg_length r \<le> length buf else msg_length r = 0"
        using parse_length_in_bounds [OF less.prems] by blast
      show ?thesis
      proof (cases "status r")
        case Complete
        let ?reqs = "reqs @ [\<lparr>payload = take (msg_length r) (drop start buf), req_protocol = RESP\<rparr>]"
        have "parse_loop buf start reqs = parse_loop buf (start + msg_length r) ?reqs"
          using resp in_buf r Complete by (subst parse_loop_unfold) simp
        with less.hyps [of buf "start + msg_length r" ?reqs] less.prems in_buf r(2) Complete show ?thesis by fastforce
      qed (use resp in_buf r in \<open>simp_all add: parse_loop_unfold\<close>)
    next
      case custom
      let ?len = "length (takeWhile (\<lambda>c. c \<noteq> MSG_SEPARATOR) (drop start buf))"
      show ?thesis
      proof (cases "length buf \<le> start + ?len")
        case True
        then show ?thesis using custom in_buf by (subst (1 2) parse_loop_unfold) (simp add: Let_def)
      next
        case False
        let ?buf = "buf[start + ?len := NUL]"
        let ?reqs = "reqs @ [\<lparr>payload = take ?len (drop start buf), req_protocol = Custom\<rparr>]"
        have "parse_loop buf start reqs = parse_loop ?buf (start + ?len + 1) ?reqs"
          using custom in_buf False by (subst parse_loop_unfold) (simp add: Let_def)
        moreover have "drop s ?buf = drop s buf" if "start + ?len + 1 \<le> s" for s using that by simp
        ultimately show ?thesis
          using less.hyps [of ?buf "start + ?len + 1" ?reqs] less.prems in_buf False short_numbers_write
          by fastforce
      qed
    qed
  qed
qed

subsection \<open>Streams of messages\<close>

text \<open>A RESP command, or the text of a custom request, which ends with the separator.\<close>

datatype wire_msg = RespMsg "bytes list" | CustomMsg bytes

fun wire :: "wire_msg \<Rightarrow> bytes" where
  "wire (RespMsg args) = resp_request args"
| "wire (CustomMsg t) = t @ [MSG_SEPARATOR]"

fun wire_ok :: "wire_msg \<Rightarrow> bool" where
  "wire_ok (RespMsg args) = True"
| "wire_ok (CustomMsg t) = (t \<noteq> [] \<and> hd t \<noteq> RESP_ARRAY_PREFIX \<and> MSG_SEPARATOR \<notin> set t)"

fun view_of :: "wire_msg \<Rightarrow> RequestView" where
  "view_of (RespMsg args) = \<lparr>payload = resp_request args, req_protocol = RESP\<rparr>"
| "view_of (CustomMsg t) = \<lparr>payload = t, req_protocol = Custom\<rparr>"

lemma star_not_sep [simp]: "RESP_ARRAY_PREFIX \<noteq> MSG_SEPARATOR" "MSG_SEPARATOR \<noteq> RESP_ARRAY_PREFIX"
  by (simp_all add: RESP_ARRAY_PREFIX_def MSG_SEPARATOR_def)

lemma parse_loop_resp:
  assumes "length (pre @ resp_request args @ rest) < 2 ^ 63"
  shows "parse_loop (pre @ resp_request args @ rest) (length pre) reqs =
    parse_loop ((pre @ resp_request args) @ rest) (length (pre @ resp_request args)) (reqs @ [view_of (RespMsg args)])"
proof -
  have "resp_request args \<noteq> []" "(pre @ resp_request args @ rest) ! length pre = RESP_ARRAY_PREFIX"
    by (simp_all add: resp_request_def)
  then show ?thesis
    using parseRespMessageLength_request [OF assms] by (subst parse_loop_unfold) simp
qed

lemma takeWhile_until: "MSG_SEPARATOR \<notin> set t \<Longrightarrow> takeWhile (\<lambda>c. c \<noteq> MSG_SEPARATOR) (t @ MSG_SEPARATOR # rest) = t"
  by (subst takeWhile_append2) auto

lemma parse_loop_custom:
  assumes "t \<noteq> []" "hd t \<noteq> RESP_ARRAY_PREFIX" "MSG_SEPARATOR \<notin> set t"
  shows "parse_loop (pre @ (t @ [MSG_SEPARATOR]) @ rest) (length pre) reqs =
    parse_loop ((pre @ t @ [NUL]) @ rest) (length (pre @ t @ [NUL])) (reqs @ [view_of (CustomMsg t)])"
proof -
  let ?buf = "pre @ (t @ [MSG_SEPARATOR]) @ rest"
  have "?buf ! length pre = hd t" using assms(1) by (cases t) (simp_all add: nth_append)
  moreover have "hd t \<noteq> MSG_SEPARATOR" using assms(1,3) by (metis list.set_sel(1))
  moreover have "takeWhile (\<lambda>c. c \<noteq> MSG_SEPARATOR) (drop (length pre) ?buf) = t" using takeWhile_until [OF assms(3)] by simp
  moreover have "?buf[length pre + length t := NUL] = (pre @ t @ [NUL]) @ rest"
    by (simp add: list_update_append)
  ultimately show ?thesis using assms(2) by (subst parse_loop_unfold) (simp add: Let_def)
qed

lemma parse_loop_wire:
  assumes "list_all wire_ok ms" "length (pre @ concat (map wire ms) @ rest) < 2 ^ 63"
  shows "\<exists>pre'. length pre' = length (pre @ concat (map wire ms)) \<and>
    parse_loop (pre @ concat (map wire ms) @ rest) (length pre) reqs =
      parse_loop (pre' @ rest) (length pre') (reqs @ map view_of ms)"
  using assms
proof (induction ms arbitrary: pre reqs)
  case (Cons m ms)
  have "\<exists>pre1. length pre1 = length (pre @ wire m) \<and>
      parse_loop (pre @ concat (map wire (m # ms)) @ rest) (length pre) reqs =
      parse_loop (pre1 @ concat (map wire ms) @ rest) (length pre1) (reqs @ [view_of m])"
  proof (cases m)
    case (RespMsg args)
    then show ?thesis
      using parse_loop_resp [of pre args "concat (map wire ms) @ rest" reqs] Cons.prems(2)
      by (intro exI [of _ "pre @ resp_request args"]) simp
  next
    case (CustomMsg t)
    then show ?thesis
      using parse_loop_custom [of t pre "concat (map wire ms) @ rest" reqs] Cons.prems(1)
      by (intro exI [of _ "pre @ t @ [NUL]"]) simp
  qed
  then obtain pre1 where 1: "length pre1 = length (pre @ wire m)"
    "parse_loop (pre @ concat (map wire (m # ms)) @ rest) (length pre) reqs =
      parse_loop (pre1 @ concat (map wire ms) @ rest) (length pre1) (reqs @ [view_of m])" by blast
  have "length (pre1 @ concat (map wire ms) @ rest) < 2 ^ 63" "list_all wire_ok ms" using Cons.prems 1(1) by simp_all
  from Cons.IH [OF this(2,1), of "reqs @ [view_of m]"]
  obtain pre2 where 2: "length pre2 = length (pre1 @ concat (map wire ms))"
    "parse_loop (pre1 @ concat (map wire ms) @ rest) (length pre1) (reqs @ [view_of m]) =
      parse_loop (pre2 @ rest) (length pre2) ((reqs @ [view_of m]) @ map view_of ms)" by blast
  show ?case by (rule exI [of _ pre2]) (use 1 2 in simp)
qed auto

text \<open>The beginning of a custom request is left in the buffer.\<close>

lemma parse_loop_rest:
  assumes "MSG_SEPARATOR \<notin> set t" "t = [] \<or> hd t \<noteq> RESP_ARRAY_PREFIX"
  shows "parse_loop (pre @ t) (length pre) reqs = Some (Val (Parsed (pre @ t) (length pre) reqs))"
proof (cases "t = []")
  case False
  then have "(pre @ t) ! length pre = hd t" "hd t \<noteq> MSG_SEPARATOR" using assms(1)
    by (cases t; auto simp: nth_append)+
  moreover have "length (takeWhile (\<lambda>c. c \<noteq> MSG_SEPARATOR) t) = length t"
    using assms(1) by (metis (mono_tags, lifting) takeWhile_eq_all_conv)
  ultimately show ?thesis using assms(2) False by (subst parse_loop_unfold) (simp add: Let_def)
qed (simp add: parse_loop_unfold)

subsection \<open>A length of zero\<close>

text \<open>
  Behind a CRLF, the request of \<open>overflow_request\<close> is complete with length 0: its bulk length takes the
  position back to the CRLF in front of the request, modulo \<open>2 ^ 64\<close>.
\<close>

lemma zero_length_request:
  assumes pre: "pre = pre0 @ [CR, LF]" and len: "length pre < 2 ^ 62"
  shows "parseRespMessageLength (pre @ overflow_request) (length pre) = Val \<lparr>status = Complete, msg_length = 0\<rparr>"
proof -
  let ?v = "18446744073709551587 :: nat" and ?buf = "pre @ overflow_request" and ?s = "length pre"
  have a1: "u64_to_ascii (Suc 0) = ''1''" by code_simp
  have buf: "?buf = pre @ RESP_ARRAY_PREFIX # u64_to_ascii 1 @ CR # LF # (''$'' @ u64_to_ascii ?v @ [CR, LF])"
    "?buf = (pre @ ''*1'' @ [CR, LF]) @ CHR ''$'' # u64_to_ascii ?v @ CR # LF # []"
    by (simp_all add: overflow_request_def ascii_overflow RESP_ARRAY_PREFIX_def a1)
  have l: "length (u64_to_ascii ?v) = 20" "length ?buf = ?s + 27" by (simp_all add: ascii_overflow overflow_request_def)
  have n1: "read_len ?buf (?s + 1) False 0 = Some (?s + 4, 1)"
    unfolding buf(1) using read_number(1) [of 1 pre RESP_ARRAY_PREFIX "''$'' @ u64_to_ascii ?v @ [CR, LF]"] a1 by simp
  have n2: "read_len ?buf (?s + 4 + 1) False 0 = Some (?s + 27, ?v)"
  proof -
    have "?s + 4 + 1 = length (pre @ ''*1'' @ [CR, LF]) + 1" "?s + 27 = length (pre @ ''*1'' @ [CR, LF]) + 20 + 3" by simp_all
    then show ?thesis using read_number(1) [of ?v "pre @ ''*1'' @ [CR, LF]" "CHR ''$''" "[]", folded buf(2)] l(1)
      by (simp only:) simp
  qed
  have s2: "2 \<le> ?s" using pre by simp
  have "?s + 27 + ?v = (?s - 2) + 2 ^ 64" using s2 by simp
  moreover have "size_mod ((?s - 2) + 2 ^ 64) = ?s - 2" using len unfolding size_mod_def mod_add_self2 by simp
  ultimately have m: "size_mod (?s + 27 + ?v) = ?s - 2" "size_mod (?s + 27 + ?v + 2) = ?s" "size_mod (?s - 2 + 1) = ?s - 1"
    "size_mod (?s - 2 + 2) = ?s"
    using len s2 by (simp_all add: size_mod_def)
  have b: "?buf ! (?s - 2) = CR" "?buf ! (?s - 1) = LF" using pre by (simp_all add: nth_append)
  have dollar: "?buf ! (?s + 4) = RESP_BULK_PREFIX" by (simp add: overflow_request_def RESP_BULK_PREFIX_def nth_append)
  have "crlf_at ?buf (?s - 2) = Val True" using b m(3) l(2) s2 by (auto simp: crlf_at_def)
  then have "parse_args 1 ?buf ?s (?s + 4) = Val \<lparr>status = Complete, msg_length = size_mod (?s + 2 ^ 64 - ?s)\<rparr>"
    using n2 m l(2) dollar by (simp add: Let_def)
  moreover have "?buf ! ?s = RESP_ARRAY_PREFIX" by (simp add: overflow_request_def RESP_ARRAY_PREFIX_def)
  moreover have "?s < length ?buf" using l(2) by simp
  ultimately show ?thesis using parse_header_step [of ?s ?buf "?s + 4" 1] n1 by (auto simp: size_mod_def)
qed

lemma parse_loop_stuck:
  assumes start: "start < length buf" "buf ! start = RESP_ARRAY_PREFIX"
    and zero: "parseRespMessageLength buf start = Val \<lparr>status = Complete, msg_length = 0\<rparr>"
  shows "parse_loop buf start reqs = None"
proof (rule ccontr)
  assume "parse_loop buf start reqs \<noteq> None"
  then obtain r where r: "parse_loop buf start reqs = Some r" by blast
  have "\<not> (start < length buf \<and> buf ! start = RESP_ARRAY_PREFIX \<and>
      parseRespMessageLength buf start = Val \<lparr>status = Complete, msg_length = 0\<rparr>)"
    by (rule parse_loop.raw_induct [OF _ r, where P = "\<lambda>buf start reqs r. \<not> (start < length buf \<and> buf ! start = RESP_ARRAY_PREFIX \<and>
      parseRespMessageLength buf start = Val \<lparr>status = Complete, msg_length = 0\<rparr>)"]) auto
  with assms show False by blast
qed

lemma resp_request_ends: "\<exists>pre. resp_request args = pre @ [CR, LF]"
proof (cases args rule: rev_cases)
  case Nil
  then show ?thesis by (intro exI [of _ "RESP_ARRAY_PREFIX # u64_to_ascii 0"]) (simp add: resp_request_def)
next
  case (snoc xs a)
  let ?b = "RESP_BULK_PREFIX # u64_to_ascii (length a) @ [CR, LF] @ a"
  show ?thesis
    by (rule exI [of _ "RESP_ARRAY_PREFIX # u64_to_ascii (length args) @ [CR, LF] @ concat (map bulk xs) @ ?b"])
      (simp add: resp_request_def snoc bulk_def)
qed

subsection \<open>Properties\<close>





text \<open>
  C38: Twenty-seven bytes stop the server: when they follow any complete RESP request, the splitting
  loop never ends, since the request they form is complete with length 0 and is queued again and again.
\<close>

theorem zero_length_hangs:
  assumes "length (resp_request args) < 2 ^ 61"
  shows "parse_loop (resp_request args @ overflow_request) 0 reqs = None"
proof -
  let ?pre = "resp_request args" and ?buf = "resp_request args @ overflow_request"
  obtain pre0 where pre: "?pre = pre0 @ [CR, LF]" using resp_request_ends by blast
  have len: "length ?pre < 2 ^ 62" using assms by simp
  have buf: "length (([] :: bytes) @ ?pre @ overflow_request) < 2 ^ 63"
    using assms by (simp add: overflow_request_def)
  have "parse_loop ?buf 0 reqs = parse_loop ?buf (length ?pre) (reqs @ [view_of (RespMsg args)])"
    using parse_loop_resp [OF buf, of reqs] by simp
  also have "\<dots> = None"
    using zero_length_request [OF pre len] by (intro parse_loop_stuck)
      (simp_all add: overflow_request_def RESP_ARRAY_PREFIX_def)
  finally show ?thesis .
qed

theorem zero_length_hangs_witness:
  "parse_loop (resp_request [''GET'', ''a''] @ overflow_request) 0 [] = None"
proof (rule zero_length_hangs)
  have "length (resp_request [''GET'', ''a'']) = 20" by code_simp
  then show "length (resp_request [''GET'', ''a'']) < 2 ^ 61" by simp
qed

end
