(* ===== verification/Loop_Props.thy ===== *)
theory Loop_Props
  imports Event_Loop Reader_Props
begin

section \<open>Properties of rounds and sessions\<close>

text \<open>
  What a client sees that sends RESP requests in pipelined batches, and where the event loop, the
  reader and the connection manager together go wrong.
\<close>

subsection \<open>Sending live packets\<close>

lemma gather_live: "live a L ps bs \<Longrightarrow> gather heaps a ps = Some bs"
proof -
  have one: "response_iov heaps a p = Some [packet_bytes a p]" if "packet_ok p" "protocol p = RESP" for p
    using that by (auto simp: response_iov_def sent_bytes_def packet_ok_def split: packet_data.splits)
  assume "live a L ps bs"
  then have "list_all packet_ok ps" "list_all (\<lambda>p. protocol p = RESP) ps" "map (packet_bytes a) ps = bs"
    by (simp_all add: live_def)
  then show ?thesis by (induction ps arbitrary: bs) (auto simp: one)
qed

lemma destroy_live:
  assumes "live a L ps bs"
  shows "arena_inv (destroy_all ps a) L"
proof -
  have l: "arena_inv a (L \<union> set (slots_of ps))" "distinct (slots_of ps)" "set (slots_of ps) \<inter> L = {}"
    using assms by (simp_all add: live_def)
  have "L \<union> set (slots_of ps) - set (slots_of ps) = L" using l(3) by auto
  then show ?thesis using resp_arena.give_all [OF l(1,2)] by (simp add: destroy_all_slots)
qed

lemma send_loop_all:
  assumes "kernel_ok rs (length (concat iov))" "length (concat iov) \<le> taken rs"
  shows "send_loop rs iov 0 (sum_list (map length iov)) [] errs = (Val (), concat iov, errs)"
proof -
  from send_loop_completes [OF assms, of 0 "[]" errs] obtain out
    where out: "send_loop rs iov 0 (0 + length (concat iov)) [] errs = (Val (), out, errs)" by blast
  from send_loop_prefix [OF assms(1) out] have "out = concat iov" by simp
  then show ?thesis using out by (simp add: sum_lengths)
qed

lemma sendResponses_live:
  assumes "live (arena (cache es)) L ps bs" "kernel_ok rs (length (concat bs))" "length (concat bs) \<le> taken rs"
  shows "sendResponses fd ps rs es = (Val (), es\<lparr>sent_to := (sent_to es)(fd := sent_to es fd @ concat bs)\<rparr>)"
  using send_loop_all [OF assms(2,3)] gather_live [OF assms(1)] by (simp add: sendResponses_def)

subsection \<open>One round on one connection\<close>

text \<open>A connection at rest: registered, with nothing read or pending, and no response outstanding.\<close>

definition at_rest :: "'z zlib \<Rightarrow> int \<Rightarrow> EventServer \<Rightarrow> bool" where
  "at_rest z fd es \<longleftrightarrow> \<not> conn_mutex (connManager es) \<and> (\<exists>d. connections (connManager es) fd = Some d \<and>
     readBuffer d = [] \<and> pendingRequests d = [] \<and> bytesToErase d = 0 \<and>
     conn_inv z \<lparr>server = cache es, respTransaction = cd_respTransaction d\<rparr> {})"

definition tx_at :: "int \<Rightarrow> EventServer \<Rightarrow> tx_view" where
  "tx_at fd es = tx_of (cd_respTransaction (conn_at (connManager es) fd))"

definition data_event :: "int \<Rightarrow> bytes list \<Rightarrow> timespec \<Rightarrow> epoll_event" where
  "data_event fd chunks now = \<lparr>ev_fd = fd, ev_error = False, ev_in = True,
     ev_reads = map ReadData chunks @ [ReadAgain], ev_clock = Some now\<rparr>"

text \<open>What reading a batch of complete messages leaves in the connection's data.\<close>

lemma read_batch:
  assumes d: "connections (connManager es) fd = Some d" "readBuffer d = []" "pendingRequests d = []" "bytesToErase d = 0"
    and chunks: "concat chunks = concat (map wire ms)" "length chunks \<le> READ_MAX_ATTEMPTS"
    and ms: "list_all wire_ok ms" "ms \<noteq> []" "length (concat chunks) < 2 ^ 63"
  shows "\<exists>buf. length buf = length (concat chunks) \<and>
    readRequestAsync fd (map ReadData chunks @ [ReadAgain]) es =
      (Val Success, put_data fd (d\<lparr>readBuffer := buf, pendingRequests := map view_of ms, bytesToErase := length buf\<rparr>) es)"
proof -
  have rl: "read_loop (map ReadData chunks @ [ReadAgain]) 0 0 [] = (Drained, concat chunks)"
    using read_loop_data [of 0 chunks 0 "[]"] chunks(2) by simp
  have len: "length (([] :: bytes) @ concat (map wire ms) @ []) < 2 ^ 63" using ms(3) chunks(1) by simp
  obtain buf where buf: "length buf = length (concat chunks)"
    "parse_loop (concat chunks) 0 [] = parse_loop buf (length buf) (map view_of ms)"
    using parse_loop_wire [OF ms(1) len, of "[]"] chunks(1) by auto
  have "parse_loop (concat chunks) 0 [] = Some (Val (Parsed buf (length buf) (map view_of ms)))"
    using buf(2) by (simp add: parse_loop.simps [of buf])
  then show ?thesis
    using rl d ms(2) buf(1) by (intro exI [of _ buf]) (simp add: readRequestAsync_def conn_at_def Let_def)
qed

text \<open>
  The state in which the responses of such a batch are sent, when \<open>c\<close> is what its requests leave, and the
  round up to there.
\<close>

definition handled :: "int \<Rightarrow> ConnectionData \<Rightarrow> timespec \<Rightarrow> conn_state \<Rightarrow> EventServer \<Rightarrow> EventServer" where
  "handled fd d now c es = put_data fd (d\<lparr>lastActivity := now, cd_respTransaction := respTransaction c\<rparr>)
     (es\<lparr>numRequests := numRequests es + 1, cache := server c\<rparr>)"

lemma round_batch:
  assumes d: "connections (connManager es) fd = Some d" "readBuffer d = []" "pendingRequests d = []" "bytesToErase d = 0"
    and free: "\<not> conn_mutex (connManager es)"
    and chunks: "concat chunks = concat (map wire ms)" "length chunks \<le> READ_MAX_ATTEMPTS"
    and ms: "list_all wire_ok ms" "ms \<noteq> []" "length (concat chunks) < 2 ^ 63"
    and ps: "process_pending z (map view_of ms) \<lparr>server = cache es, respTransaction = cd_respTransaction d\<rparr> = (Val ps, c)"
  shows "handle_round z [data_event fd chunks now] sock es =
    and_then (send_all sock [(fd, ps)] (handled fd d now c es)) (\<lambda>_ es. (Val (), drop_responses [(fd, ps)] es)) id"
proof -
  let ?es0 = "es\<lparr>numRequests := numRequests es + 1\<rparr>"
  have d0: "connections (connManager ?es0) fd = Some d" using d(1) by simp
  obtain buf where buf: "length buf = length (concat chunks)"
    "readRequestAsync fd (map ReadData chunks @ [ReadAgain]) ?es0 =
      (Val Success, put_data fd (d\<lparr>readBuffer := buf, pendingRequests := map view_of ms, bytesToErase := length buf\<rparr>) ?es0)"
    using read_batch [OF d0 d(2-4) chunks ms] by blast
  let ?d1 = "d\<lparr>readBuffer := buf, pendingRequests := map view_of ms, bytesToErase := length buf, lastActivity := now\<rparr>"
  have read: "read_events [data_event fd chunks now] ?es0 = (Val [(fd, Success)], put_data fd ?d1 ?es0)"
    using buf(2) free
    by (simp add: data_event_def on_manager_def updateActivity_eq put_data_def put_conn_def conn_at_def)
  have ne: "buf \<noteq> []" using buf(1) chunks(1) ms(1,2) by (cases ms; cases "hd ms") (auto simp: resp_request_def)
  have same: "d\<lparr>lastActivity := now, cd_respTransaction := respTransaction c\<rparr> =
      ?d1\<lparr>pendingRequests := [], cd_respTransaction := respTransaction c, readBuffer := [], bytesToErase := 0\<rparr>"
    using d by (cases d) simp
  have "handle_readers z [(fd, Success)] (put_data fd ?d1 ?es0) = (Val [(fd, ps)], handled fd d now c es)"
    using ps d ne unfolding handled_def same
    by (simp add: handle_reader_def Let_def put_data_def put_conn_def conn_at_def erase_read_def)
  then show ?thesis using read by (simp add: handle_round_def)
qed

lemma requests_small:
  assumes "length (concat (map resp_request reqs)) < 2 ^ 30"
  shows "list_all (\<lambda>args. length (resp_request args) < 2 ^ 30) reqs"
proof -
  have "length (resp_request args) \<le> length (concat (map resp_request reqs))" if "args \<in> set reqs" for args
    using that by (induction reqs) auto
  then show ?thesis using assms unfolding list_all_iff by fastforce
qed

end
