(* ===== verification/Server_Init.thy ===== *)
theory Server_Init
  imports Loop_Props
begin

section \<open>Building the server (constructor of \<open>CacheServer\<close>, src/src/server/server.cpp)\<close>

text \<open>
  The constructor sets up the listening socket with a fixed sequence of system calls, whose results
  are an argument, and then builds the shards. A failed step throws; all but the first and the last
  close the socket before. The destructor does not run for an object that was not constructed.
\<close>

record ServerSettings =
  set_port :: int
  set_numShards :: nat
  sockBuffer :: int
  connQueueLimit :: nat
  enableCompression :: bool
  respInlineCapacity :: nat

definition default_server_settings :: ServerSettings where
  "default_server_settings = \<lparr>set_port = 9001, set_numShards = 24, sockBuffer = 1048576, connQueueLimit = 1048576,
     enableCompression = False, respInlineCapacity = 255\<rparr>"

text \<open>The steps in order, each with the message it throws and whether it closes the socket on failure.\<close>

definition setup_steps :: "(string \<times> bool) list" where
  "setup_steps =
     [(''Socket creation failed'', False),
      (''Failed to set TCP_NODELAY for server socket'', True),
      (''Failed to set SO_REUSEPORT for server socket'', True),
      (''Failed to set SO_REUSEPORT for server socket'', True),
      (''Failed to set SO_REUSEADDR for server socket'', True),
      (''Failed to set SO_REUSEPORT for server socket'', True),
      (''Failed to set TCP_FASTOPEN for server socket'', True),
      (''Failed to set socket buffer options for server socket'', True),
      (''Failed to set O_NONBLOCK for server socket'', True),
      (''Bind failed'', True),
      (''Listen failed'', True),
      (''Failed to create epoll instance'', False)]"

text \<open>The state is whether the socket is open.\<close>

fun run_setup :: "(string \<times> bool) list \<Rightarrow> bool list \<Rightarrow> bool \<Rightarrow> unit cpp \<times> bool" where
  "run_setup ((msg, closes) # steps) (ok # oks) is_open =
     (if ok then run_setup steps oks True else (Exn msg, is_open \<and> \<not> closes))"
| "run_setup _ _ is_open = (Val (), is_open)"

fun make_shards :: "nat list \<Rightarrow> KeyValueStoreSettings \<Rightarrow> nat list \<Rightarrow> ServerShard list cpp" where
  "make_shards primes st [] = Val []"
| "make_shards primes st (i # is) = (case KeyValueStore primes st of
       Val s \<Rightarrow> (case make_shards primes st is of
           Val shs \<Rightarrow> Val (\<lparr>shardId = i, keyValueStore = s\<rparr> # shs)
         | r \<Rightarrow> r)
     | Exn m \<Rightarrow> Exn m
     | UB \<Rightarrow> UB
     | Hang \<Rightarrow> Hang)"

text \<open>The arena of a thread as its constructor leaves it.\<close>

definition new_arena :: "nat \<Rightarrow> RespInlineArena" where
  "new_arena c = resetStorage (sanitizeCapacity c)
     \<lparr>freelist = [], storage = (\<lambda>_. []), slotSize = 0, freeCount = 0, g_respInlineCapacity = sanitizeCapacity c\<rparr>"

definition build_server :: "nat list \<Rightarrow> KeyValueStoreSettings \<Rightarrow> nat \<Rightarrow> nat \<Rightarrow> CacheServer cpp" where
  "build_server primes st n cap = (case make_shards primes st [0..<n] of
       Val shs \<Rightarrow> Val \<lparr>serverShards = shs, numShards = n, arena = new_arena cap, numErrors = 0\<rparr>
     | Exn m \<Rightarrow> Exn m
     | UB \<Rightarrow> UB
     | Hang \<Rightarrow> Hang)"

definition CacheServer_ctor :: "nat list \<Rightarrow> ServerSettings \<Rightarrow> bool list \<Rightarrow> CacheServer cpp" where
  "CacheServer_ctor primes settings oks = (case run_setup setup_steps oks False of
       (Val _, _) \<Rightarrow> build_server primes
          \<lparr>initialSize = 2053, set_compressionEnabled = enableCompression settings, set_usePrimeNumbers = True\<rparr>
          (set_numShards settings) (respInlineCapacity settings)
     | (Exn m, _) \<Rightarrow> Exn m
     | (UB, _) \<Rightarrow> UB
     | (Hang, _) \<Rightarrow> Hang)"

lemma make_shards_ok:
  assumes "KeyValueStore primes st = Val s"
  shows "make_shards primes st is = Val (map (\<lambda>i. \<lparr>shardId = i, keyValueStore = s\<rparr>) is)"
  using assms by (induction "is") simp_all

lemma fresh_server:
  assumes z: "zlib_ok z" and st: "2 \<le> initialSize st" "set_usePrimeNumbers st \<longrightarrow> sorted_wrt (<) (initialSize st # primes)"
    and n: "0 < n"
  obtains sv where "build_server primes st n cap = Val sv" "server_inv z sv {}" "server_clean sv" "server_tidy sv"
    "slookup z sv = Map.empty" "server_lost sv = 0"
proof -
  obtain s where s: "KeyValueStore primes st = Val s" "kvs_inv z s" "clean s" "tidy s" "lookup z s = Map.empty" "cerr s = []"
    using fresh_store [of st primes z] st by blast
  define sv where "sv = \<lparr>serverShards = map (\<lambda>i. \<lparr>shardId = i, keyValueStore = s\<rparr>) [0..<n], numShards = n,
    arena = new_arena cap, numErrors = 0\<rparr>"
  have st: "store_of sv i = s" if "i < n" for i using that by (simp add: sv_def store_of_def)
  have sel: "numShards sv = n" "length (serverShards sv) = n" "i < n \<Longrightarrow> shardId (serverShards sv ! i) = i" for i
    by (simp_all add: sv_def)
  have "shards_inv z sv" using z n s(2) by (simp add: shards_inv_def st sel)
  moreover have "arena_inv (arena sv) {}" by (simp add: sv_def new_arena_def arena_inv_reset)
  moreover have "shard_of sv key < n" for key using n shard_index_less by (simp add: sv_def shard_of_def)
  ultimately show thesis
    using that [of sv] s st sel make_shards_ok [OF s(1)]
    by (simp add: build_server_def sv_def [symmetric] server_inv_def server_clean_def server_tidy_def server_lost_def
        slookup_def fun_eq_iff)
qed

end
