(* ===== verification/Session.thy ===== *)
theory Session
  imports Server_Init
begin

section \<open>Sessions: data commands and transactions\<close>

text \<open>
  What the specification of a session says of the sessions that matter: data commands outside
  transactions run the calls of the cache one after the other; a transaction runs its commands when it
  is executed, all together and in order; a transaction that is discarded or has failed runs none.
\<close>

fun args_of :: "kv_op \<Rightarrow> bytes list" where
  "args_of (Put k v) = [''SET'', k, v]"
| "args_of (Get k) = [''GET'', k]"
| "args_of (Del k) = [''DEL'', k]"

fun op_cstr :: "kv_op \<Rightarrow> bool" where
  "op_cstr (Put k v) = (is_cstr k \<and> is_cstr v)"
| "op_cstr (Get k) = is_cstr k"
| "op_cstr (Del k) = is_cstr k"

lemma command_of_args: "op_cstr x \<Longrightarrow> command_of (args_of x) = COp x"
  by (cases x) (simp_all add: command_of_def Let_def)

lemma command_of_words [simp]:
  "command_of [''MULTI''] = CMulti" "command_of [''EXEC''] = CExec" "command_of [''DISCARD''] = CDiscard"
  by (simp_all add: command_of_def cstr_def)

lemma spec_run_append:
  "spec_run z (xs @ ys) s =
    and_then (spec_run z xs s) (\<lambda>bs s. and_then (spec_run z ys s) (\<lambda>cs s. (Val (bs @ cs), s)) id) id"
proof (induction xs arbitrary: s)
  case Nil
  then show ?case by (auto simp: and_then_def split: prod.splits cpp.splits)
next
  case (Cons x xs)
  obtain b s1 where 1: "spec_step z x s = (b, s1)" by (metis surj_pair)
  obtain bs s2 where 2: "spec_run z xs s1 = (bs, s2)" by (metis surj_pair)
  obtain cs s3 where 3: "spec_run z ys s2 = (cs, s3)" by (metis surj_pair)
  show ?case using Cons.IH [of s1] 1 2 3 by (cases b; cases bs; cases cs) simp_all
qed

subsection \<open>Outside a transaction\<close>

lemma spec_run_idle:
  "spec_run z (map COp xs) (Idle, sv) =
    and_then (run_ops (server_ops z) xs sv) (\<lambda>rs sv. (Val (map encode_res rs), Idle, sv)) (\<lambda>sv. (Idle, sv))"
proof (induction xs arbitrary: sv)
  case (Cons x xs)
  obtain r sv1 where 1: "exec_op (server_ops z) x sv = (r, sv1)" by fastforce
  obtain rs sv2 where 2: "run_ops (server_ops z) xs sv1 = (rs, sv2)" by fastforce
  show ?case using Cons.IH [of sv1] 1 2 by (cases r; cases rs) simp_all
qed simp

subsection \<open>Transactions\<close>

lemma spec_run_open:
  "spec_run z (map COp xs) (Open ys, sv) = (Val (replicate (length xs) (simple_reply QUEUED_STR)), Open (ys @ xs), sv)"
  by (induction xs arbitrary: ys) simp_all

lemma spec_run_exec:
  "spec_run z (CMulti # map COp xs @ [CExec]) (Idle, sv) =
    and_then (run_ops (server_ops z) xs sv)
      (\<lambda>rs sv. (Val (simple_reply OK # replicate (length xs) (simple_reply QUEUED_STR) @ [array_reply (map encode_res rs)]), Idle, sv))
      (\<lambda>sv. (Open xs, sv))"
proof -
  obtain rs sv1 where "run_ops (server_ops z) xs sv = (rs, sv1)" by fastforce
  then show ?thesis by (cases rs) (simp_all add: spec_run_append spec_run_open)
qed

text \<open>Commands that neither execute nor discard, and those that make a transaction fail.\<close>

fun quiet :: "cmd \<Rightarrow> bool" where
  "quiet CExec = False"
| "quiet CDiscard = False"
| "quiet _ = True"

fun spoils :: "cmd \<Rightarrow> bool" where
  "spoils CMulti = True"
| "spoils (CBad m) = True"
| "spoils _ = False"

lemma spec_run_quiet:
  assumes "list_all quiet xs" "tx \<noteq> Idle"
  shows "\<exists>bs tx' n. spec_run z xs (tx, sv) = (Val bs, tx', sv\<lparr>numErrors := n\<rparr>) \<and> tx' \<noteq> Idle \<and>
    length bs = length xs \<and> (tx = Failed \<or> list_ex spoils xs \<longrightarrow> tx' = Failed)"
  using assms
proof (induction xs arbitrary: tx sv)
  case Nil
  then show ?case by (auto intro: exI [of _ "numErrors sv"])
next
  case (Cons x xs)
  have "\<exists>b tx1 n. spec_step z x (tx, sv) = (Val b, tx1, sv\<lparr>numErrors := n\<rparr>) \<and> tx1 \<noteq> Idle \<and>
      (tx = Failed \<or> spoils x \<longrightarrow> tx1 = Failed)"
    using Cons.prems by (cases x; cases tx) (auto simp: bump_def intro: exI [of _ "numErrors sv"])
  then obtain b tx1 n where 1: "spec_step z x (tx, sv) = (Val b, tx1, sv\<lparr>numErrors := n\<rparr>)" "tx1 \<noteq> Idle"
    "tx = Failed \<or> spoils x \<longrightarrow> tx1 = Failed" by blast
  have "list_all quiet xs" using Cons.prems by simp
  from Cons.IH [OF this 1(2), of "sv\<lparr>numErrors := n\<rparr>"] obtain bs tx' m where
    2: "spec_run z xs (tx1, sv\<lparr>numErrors := n\<rparr>) = (Val bs, tx', sv\<lparr>numErrors := m\<rparr>)" "tx' \<noteq> Idle"
      "length bs = length xs" "tx1 = Failed \<or> list_ex spoils xs \<longrightarrow> tx' = Failed" by auto
  show ?case using 1 2 by (intro exI [of _ "b # bs"] exI [of _ tx'] exI [of _ m]) auto
qed

lemma spec_run_discard:
  assumes "list_all quiet xs"
  shows "\<exists>bs n. spec_run z (CMulti # xs @ [CDiscard]) (Idle, sv) = (Val (bs @ [simple_reply OK]), Idle, sv\<lparr>numErrors := n\<rparr>)"
proof -
  obtain bs tx n where r: "spec_run z xs (Open [], sv) = (Val bs, tx, sv\<lparr>numErrors := n\<rparr>)" "tx \<noteq> Idle"
    using spec_run_quiet [OF assms, of "Open []" z sv] by auto
  then show ?thesis by (intro exI [of _ "simple_reply OK # bs"] exI [of _ n]) (cases tx; simp add: spec_run_append)
qed

lemma spec_run_aborted:
  assumes "list_all quiet xs" "list_ex spoils xs"
  shows "\<exists>bs n. spec_run z (CMulti # xs @ [CExec]) (Idle, sv) =
    (Val (bs @ [error_reply RESP_ERR_EXEC_ABORTED]), Idle, sv\<lparr>numErrors := n\<rparr>)"
proof -
  obtain bs n where r: "spec_run z xs (Open [], sv) = (Val bs, Failed, sv\<lparr>numErrors := n\<rparr>)"
    using spec_run_quiet [OF assms(1), of "Open []" z sv] assms(2) by auto
  then show ?thesis
    by (intro exI [of _ "simple_reply OK # bs"] exI [of _ "n + 1"]) (simp add: spec_run_append bump_def)
qed

subsection \<open>From the specification to the code\<close>

lemma op_args_small:
  assumes "op_cstr x" "length (resp_request (args_of x)) < 2 ^ 30"
  shows "op_args_ok set_args x"
proof (cases x)
  case (Put k v)
  then have "length v < 2 ^ 30" using length_bulks [of v "args_of x"] assms(2) by simp
  then show ?thesis using Put assms(1) by (simp add: set_args_def storable_def)
qed simp_all

lemma batch_answers:
  assumes "conn_inv z c {}" "list_all (\<lambda>args. length (resp_request args) < 2 ^ 30) reqs"
    and "spec_run z (map command_of reqs) (tx_of (respTransaction c), server c) = (Val bs, tx, sv1)"
  shows "\<exists>ps c' a. process_pending z (map resp_view reqs) c = (Val ps, c') \<and> server c' = sv1\<lparr>arena := a\<rparr> \<and>
    live (arena (server c')) {} ps bs \<and> tx_of (respTransaction c') = tx \<and> conn_inv z c' (set (slots_of ps))"
proof -
  from process_pending_simulates [OF assms(1,2)] assms(3) obtain ps a t where
    p: "process_pending z (map resp_view reqs) c = (Val ps, \<lparr>server = sv1\<lparr>arena := a\<rparr>, respTransaction = t\<rparr>)"
      "live a {} ps bs" "tx_of t = tx" "tx_ok t" "shards_inv z sv1" by auto
  then show ?thesis
    by (intro exI [of _ ps] exI [of _ "\<lparr>server = sv1\<lparr>arena := a\<rparr>, respTransaction = t\<rparr>"] exI [of _ a])
      (simp add: conn_inv_def server_inv_def live_def)
qed

lemma batch_result:
  assumes "conn_inv z c {}" "list_all (\<lambda>args. length (resp_request args) < 2 ^ 30) reqs"
    and "process_pending z (map resp_view reqs) c = (Val ps, c')"
  shows "\<exists>bs tx sv1 a. spec_run z (map command_of reqs) (tx_of (respTransaction c), server c) = (Val bs, tx, sv1) \<and>
    server c' = sv1\<lparr>arena := a\<rparr> \<and> live (arena (server c')) {} ps bs \<and> tx_of (respTransaction c') = tx"
  using process_pending_simulates [OF assms(1,2)] assms(3) by auto

subsection \<open>An example server\<close>

text \<open>Two shards of ten buckets each, and one connection with the descriptor 5.\<close>

definition ex_server :: CacheServer where
  "ex_server = (case build_server [] settings10 2 255 of Val sv \<Rightarrow> sv)"

definition ex_conn :: conn_state where
  "ex_conn = \<lparr>server = ex_server, respTransaction = None\<rparr>"

definition ex_manager :: ConnManager where
  "ex_manager = \<lparr>epoll_fd = 3, conn_mutex = False, activeConnectionsCounter = 1,
     connections = [5 \<mapsto> new_connection zero_time 3], closed_fds = []\<rparr>"

definition ex_loop :: EventServer where
  "ex_loop = \<lparr>connManager = ex_manager, cache = ex_server, numRequests = 0, sent_to = (\<lambda>_. [])\<rparr>"

lemma ex_server_ok:
  "build_server [] settings10 2 255 = Val ex_server" "server_inv store_zlib ex_server {}" "server_clean ex_server"
  "server_tidy ex_server" "slookup store_zlib ex_server = Map.empty" "server_lost ex_server = 0"
proof -
  have st: "2 \<le> initialSize settings10" "set_usePrimeNumbers settings10 \<longrightarrow> sorted_wrt (<) (initialSize settings10 # [])"
    by (simp_all add: settings10_def)
  have n: "(0 :: nat) < 2" by simp
  obtain sv where "build_server [] settings10 2 255 = Val sv" "server_inv store_zlib sv {}" "server_clean sv"
    "server_tidy sv" "slookup store_zlib sv = Map.empty" "server_lost sv = 0"
    by (rule fresh_server [OF zlib_ok_store st n, where cap = 255])
  then show "build_server [] settings10 2 255 = Val ex_server" "server_inv store_zlib ex_server {}" "server_clean ex_server"
    "server_tidy ex_server" "slookup store_zlib ex_server = Map.empty" "server_lost ex_server = 0"
    by (simp_all add: ex_server_def)
qed

lemma ex_conn_ok: "conn_inv store_zlib ex_conn {}" "tx_of (respTransaction ex_conn) = Idle" "server ex_conn = ex_server"
  using ex_server_ok by (simp_all add: ex_conn_def conn_inv_def tx_ok_def tx_of_def)

lemma ex_loop_at_rest: "at_rest store_zlib 5 ex_loop" "tx_at 5 ex_loop = Idle"
  using ex_conn_ok(1)
  by (simp_all add: at_rest_def tx_at_def ex_loop_def ex_manager_def ex_conn_def conn_at_def new_connection_def tx_of_def)

lemma small_requests:
  "list_all (\<lambda>args. length (resp_request args) < 200) reqs \<Longrightarrow> list_all (\<lambda>args. length (resp_request args) < 2 ^ 30) reqs"
  by (auto simp: list_all_iff)

text \<open>The same with the key \<^verbatim>\<open>a\<close> stored.\<close>

definition stored_loop :: "bytes \<Rightarrow> EventServer" where
  "stored_loop v = ex_loop\<lparr>cache := put_shard ex_server (shard_of ex_server ''a'') (after10 [Put ''a'' v])\<rparr>"

lemma stored_loop_ok:
  assumes run: "fst (run_ops ops10 [Put ''a'' v] store10) = Val [Stored True]" and v: "is_cstr v" "length v < 2 ^ 30"
  shows "at_rest store_zlib 5 (stored_loop v)"
    "store_of (cache (stored_loop v)) (shard_of (cache (stored_loop v)) ''a'') = after10 [Put ''a'' v]"
proof -
  let ?i = "shard_of ex_server ''a''" and ?st = "after10 [Put ''a'' v]"
  have "run_ops ops10 [Put ''a'' v] store10 = (Val [Stored True], ?st)" using run by (simp add: after10_def prod_eq_iff)
  then have st: "kvs_inv store_zlib ?st" by (rule after10_ok) (use v in \<open>simp add: set_args_def storable_def\<close>)
  have sh: "shards_inv store_zlib ex_server" using ex_server_ok(2) by (simp add: server_inv_def)
  note D = shards_invD [OF sh]
  have i: "?i < numShards ex_server" using D(1) by simp
  show "store_of (cache (stored_loop v)) (shard_of (cache (stored_loop v)) ''a'') = ?st"
    using i D(2) by (simp add: stored_loop_def store_of_def put_shard_def shard_of_def)
  have "shards_inv store_zlib (cache (stored_loop v))" using put_shard_inv [OF sh i st] by (simp add: stored_loop_def)
  then show "at_rest store_zlib 5 (stored_loop v)"
    using ex_loop_at_rest(1) by (auto simp: at_rest_def stored_loop_def conn_inv_def server_inv_def put_shard_def ex_loop_def)
qed

end
