(* ===== verification/Custom.thy ===== *)
theory Custom
  imports Session
begin

section \<open>The custom protocol against runs of calls\<close>

text \<open>
  A custom request is a line of text: the command, the key and, for SET, the value, separated by spaces.
  Its response carries the text of the result, or points to the value in the store, which is read when
  the response is sent.
\<close>

fun text_of :: "kv_op \<Rightarrow> bytes" where
  "text_of (Put k v) = ''SET '' @ k @ '' '' @ v"
| "text_of (Get k) = ''GET '' @ k"
| "text_of (Del k) = ''DEL '' @ k"

fun op_key :: "kv_op \<Rightarrow> bytes" where
  "op_key (Put k v) = k"
| "op_key (Get k) = k"
| "op_key (Del k) = k"

definition key_ok :: "bytes \<Rightarrow> bool" where
  "key_ok k \<longleftrightarrow> k \<noteq> [] \<and> CHR '' '' \<notin> set k"

fun text_res :: "kv_res \<Rightarrow> bytes" where
  "text_res (Stored b) = (if b then OK else INTERNAL_ERROR)"
| "text_res (Found r) = (case r of None \<Rightarrow> NOTHING | Some v \<Rightarrow> v)"
| "text_res (Removed b) = (if b then OK else KEY_NOT_EXISTS)"

lemma cstr_messages [simp]: "cstr OK = OK" "cstr INTERNAL_ERROR = INTERNAL_ERROR" "cstr NOTHING = NOTHING"
  "cstr KEY_NOT_EXISTS = KEY_NOT_EXISTS"
  by (simp_all add: message_defs)

subsection \<open>The handlers\<close>

lemma sent_const: "sent_bytes heaps a (makeCustomResponse (ConstPtr s) s) = Some (cstr s)"
  by (simp add: sent_bytes_def packet_bytes_def makeCustomResponse_def new_packet_def cstr_def takeWhile_eq_take [symmetric])

lemma sent_heap:
  assumes "heaps i x = Some b"
  shows "sent_bytes heaps a (makeCustomResponse (HeapPtr i x) b) = Some (cstr b)"
  using assms by (simp add: sent_bytes_def makeCustomResponse_def new_packet_def cstr_def takeWhile_eq_take [symmetric])

text \<open>
  The packet of a custom response, and what is sent for it as long as the server \<open>sv\<close> is not changed.
\<close>

definition shows_text :: "CacheServer \<Rightarrow> ResponsePacket \<Rightarrow> bytes \<Rightarrow> bool" where
  "shows_text sv p t \<longleftrightarrow> protocol p = Custom \<and> inlineIndex p = RESP_INLINE_INVALID \<and>
     sent_bytes (store_heap sv) (arena sv) p = Some t"

lemma shows_const: "shows_text sv (makeCustomResponse (ConstPtr s) s) (cstr s)"
  by (simp add: shows_text_def sent_const) (simp add: makeCustomResponse_def new_packet_def)

lemma handleGet_Custom:
  assumes sh: "shards_inv z sv"
  shows "\<exists>p r sv1. handleGet z key Custom sv = (Val p, sv1) \<and> shows_text sv1 p (text_res r) \<and>
    exec_op (server_ops z) (Get (cstr key)) sv = (Val r, sv1)"
proof -
  define i where "i = shard_of sv key"
  note D = shards_invD [OF sh]
  have i: "i < numShards sv" using D(1) by (simp add: i_def)
  let ?sh = "serverShards sv ! i"
  have st: "keyValueStore ?sh = store_of sv i" by (simp add: store_of_def)
  obtain r k where g: "kvs_get z (cstr key) (hashFunc key) (store_of sv i) = (Val r, k)" "kvs_inv z k"
    and v: "case r of None \<Rightarrow> lookup z (store_of sv i) (cstr key) = None
      | Some a \<Rightarrow> \<exists>b. mem (heap (entryPool k)) a = Some b \<and> lookup z (store_of sv i) (cstr key) = Some (cstr b)"
    using kvs_get_full [OF D(3) [OF i], of "cstr key"] by (simp only: hashFunc_cstr) blast
  let ?ptr = "case r of Some a \<Rightarrow> HeapPtr i a | None \<Rightarrow> ConstPtr NOTHING"
  have "processQuery z (mk_Query GET key (hashFunc key)) ?sh = (Val ?ptr, ?sh\<lparr>keyValueStore := k\<rparr>)"
    using g(1) D(4) [OF i] by (cases r) (simp_all add: processQuery_def mk_Query_def st)
  then have on: "on_shard (hashFunc key) (processQuery z (mk_Query GET key (hashFunc key))) sv = (Val ?ptr, put_shard sv i k)"
    using on_shard_eq [OF sh, where f = "processQuery z (mk_Query GET key (hashFunc key))" and key = key] unfolding i_def by blast
  have ex: "exec_op (server_ops z) (Get (cstr key)) sv = (Val (Found (lookup z (store_of sv i) (cstr key))), put_shard sv i k)"
    using fetch_of_get [OF D(3) [OF i], of "cstr key"] g(1) by (simp add: server_ops_def on_store_def i_def kvs_get_key_def)
  show ?thesis
  proof (cases r)
    case None
    then have "handleGet z key Custom sv = (Val (makeCustomResponse (ConstPtr NOTHING) NOTHING), put_shard sv i k)"
      using on by (simp add: handleGet_def Let_def ptr_str_def)
    then show ?thesis using ex v None shows_const [of _ NOTHING] by auto
  next
    case (Some a)
    then obtain b where b: "mem (heap (entryPool k)) a = Some b" "lookup z (store_of sv i) (cstr key) = Some (cstr b)"
      using v by auto
    have hp: "store_heap (put_shard sv i k) i a = Some b"
      using b(1) i D(2) by (simp add: store_heap_def put_shard_def)
    then have "handleGet z key Custom sv = (Val (makeCustomResponse (HeapPtr i a) b), put_shard sv i k)"
      using on Some by (simp add: handleGet_def Let_def ptr_str_def)
    moreover have "shows_text (put_shard sv i k) (makeCustomResponse (HeapPtr i a) b) (cstr b)"
      using sent_heap [of "store_heap (put_shard sv i k)", OF hp]
      by (simp add: shows_text_def) (simp add: makeCustomResponse_def new_packet_def)
    ultimately show ?thesis using ex b(2) by auto
  qed
qed

lemma handleSet_Custom:
  assumes sh: "shards_inv z sv"
  shows "handleSet z key val Custom sv =
    and_then (on_store (kvs_set_key z (cstr key) (cstr val)) (cstr key) sv)
      (\<lambda>b sv. (Val (makeCustomResponse (ConstPtr (text_res (Stored b))) (text_res (Stored b))), sv)) id"
proof -
  obtain r sv1 where "on_store (kvs_set_key z (cstr key) (cstr val)) (cstr key) sv = (r, sv1)" by fastforce
  then show ?thesis by (cases r) (simp_all add: handleSet_def Let_def on_shard_SET [OF assms])
qed

lemma handleDel_Custom:
  assumes sh: "shards_inv z sv"
  shows "handleDel z key Custom sv =
    and_then (on_store (kvs_del_key (cstr key)) (cstr key) sv)
      (\<lambda>b sv. (Val (makeCustomResponse (ConstPtr (text_res (Removed b))) (text_res (Removed b))), sv)) id"
proof -
  obtain r sv1 where "on_store (kvs_del_key (cstr key)) (cstr key) sv = (r, sv1)" by fastforce
  then show ?thesis by (cases r) (simp_all add: handleDel_def Let_def on_shard_DEL [OF assms])
qed

subsection \<open>Requests\<close>

lemma split_space_at: "CHR '' '' \<notin> set a \<Longrightarrow> split_space (a @ CHR '' '' # b) = Some (a, b)"
proof -
  assume a: "CHR '' '' \<notin> set a"
  then have "takeWhile (\<lambda>c. c \<noteq> CHR '' '') (a @ CHR '' '' # b) = a" "dropWhile (\<lambda>c. c \<noteq> CHR '' '') (a @ CHR '' '' # b) = CHR '' '' # b"
    by (subst takeWhile_append2 dropWhile_append2, auto)+
  then show ?thesis by (simp add: split_space_def)
qed

lemma split_space_none: "CHR '' '' \<notin> set a \<Longrightarrow> split_space a = None"
  by (simp add: split_space_def)

text \<open>A custom request with the text of a call answers the text of its result.\<close>

definition text_follows :: "reply \<Rightarrow> kv_res cpp \<times> CacheServer \<Rightarrow> conn_state \<Rightarrow> bool" where
  "text_follows rep e c = (case e of
       (Val r, sv1) \<Rightarrow> (\<exists>p. rep = (Val p, c\<lparr>server := sv1\<rparr>) \<and> shows_text sv1 p (text_res r))
     | (Exn m, sv1) \<Rightarrow> rep = (Exn m, c\<lparr>server := sv1\<rparr>)
     | _ \<Rightarrow> False)"

lemma shown:
  assumes "r = Stored b \<or> r = Removed b"
  shows "shows_text sv (makeCustomResponse (ConstPtr (text_res r)) (text_res r)) (text_res r)"
  using assms shows_const [of sv "text_res r"] by (auto split: if_splits)

lemma custom_request_follows:
  assumes sh: "shards_inv z (server c)" and x: "op_cstr x" "key_ok (op_key x)" "op_args_ok set_args x"
  shows "text_follows (processRequestSync z \<lparr>payload = text_of x, req_protocol = Custom\<rparr> c)
    (exec_op (server_ops z) x (server c)) c"
proof (cases x)
  case (Get k)
  have s: "split_space (text_of x) = Some (''GET'', k)" "split_space k = None" "k \<noteq> []" "is_cstr k"
    using split_space_at [of "''GET''" k] split_space_none x Get by (auto simp: key_ok_def)
  obtain p r sv1 where "handleGet z k Custom (server c) = (Val p, sv1)" "shows_text sv1 p (text_res r)"
    "exec_op (server_ops z) (Get (cstr k)) (server c) = (Val r, sv1)"
    using handleGet_Custom [OF sh, of k] by blast
  then show ?thesis
    using s Get by (simp add: text_follows_def processRequestSync_def processCustom_def run_handler_def)
next
  case (Put k v)
  have s: "split_space (text_of x) = Some (''SET'', k @ '' '' @ v)" "split_space (k @ '' '' @ v) = Some (k, v)"
    "is_cstr k" "is_cstr v"
    using split_space_at [of "''SET''" "k @ '' '' @ v"] split_space_at [of k v] x Put by (auto simp: key_ok_def)
  have run: "processRequestSync z \<lparr>payload = text_of x, req_protocol = Custom\<rparr> c = run_handler (handleSet z k v Custom) c"
    using s by (simp add: processRequestSync_def processCustom_def)
  obtain r sv1 where e: "on_store (kvs_set_key z k v) k (server c) = (r, sv1)" by fastforce
  consider b where "r = Val b" | "r = Exn limit_message"
    using sv.put_safe [OF sh, of k v] x(3) Put e by (auto simp: server_ops_def)
  then show ?thesis
  proof cases
    case (1 b)
    have "handleSet z k v Custom (server c) = (Val (makeCustomResponse (ConstPtr (text_res (Stored b))) (text_res (Stored b))), sv1)"
      using handleSet_Custom [OF sh, of k v] s(3,4) e 1 by simp
    then show ?thesis using run Put e 1 shown [of "Stored b" b sv1] by (simp add: text_follows_def run_handler_def server_ops_def)
  next
    case 2
    have "handleSet z k v Custom (server c) = (Exn limit_message, sv1)"
      using handleSet_Custom [OF sh, of k v] s(3,4) e 2 by simp
    then show ?thesis using run Put e 2 by (simp add: text_follows_def run_handler_def server_ops_def)
  qed
next
  case (Del k)
  have s: "split_space (text_of x) = Some (''DEL'', k)" "split_space k = None" "k \<noteq> []" "is_cstr k"
    using split_space_at [of "''DEL''" k] split_space_none x Del by (auto simp: key_ok_def)
  have run: "processRequestSync z \<lparr>payload = text_of x, req_protocol = Custom\<rparr> c = run_handler (handleDel z k Custom) c"
    using s by (simp add: processRequestSync_def processCustom_def)
  obtain b sv1 where e: "on_store (kvs_del_key k) k (server c) = (Val b, sv1)"
    using sv.remove_safe [OF sh, of k] by (auto simp: server_ops_def)
  have "handleDel z k Custom (server c) = (Val (makeCustomResponse (ConstPtr (text_res (Removed b))) (text_res (Removed b))), sv1)"
    using handleDel_Custom [OF sh, of k] s(4) e by simp
  then show ?thesis using run Del e shown [of "Removed b" b sv1] by (simp add: text_follows_def run_handler_def server_ops_def)
qed

subsection \<open>A buffer that is read after it is freed\<close>

lemma get_then_del_frees:
  assumes "kvs_inv z s" and i: "lookup_idx s key = Some i" "contents (entryPool s) i = Some (key, False, b)"
  obtains a s' where "kvs_get z key (hashFunc key) s = (Val (Some a), s)" "mem (heap (entryPool s)) a = Some b"
    "kvs_del_key key s = (Val True, s')" "mem (heap (entryPool s')) a = None"
proof -
  obtain free where ok: "kvs_ok z s free" using assms(1) by (auto simp: kvs_inv_def)
  note sh = shapeD [OF kvs_okD(1) [OF ok]]
  let ?p = "entryPool s"
  obtain e a where e: "pool_get ?p i = Some e" "\<not> e_compressed e" "e_value e = Some a" "mem (heap ?p) a = Some b"
    using pool_get_contents [OF sh(1) i(2)] by metis
  note find = find_entry_lookup [OF kvs_okD(1) [OF ok], of key]
  have "kvs_get z key (hashFunc key) s = (Val (Some a), s)" using find e i(1) by (simp add: kvs_get_def)
  moreover obtain p' where "deallocate i ?p = (Val (), p')" "mem (heap p') a = None"
    using e by (auto simp: deallocate_def delete_buf_def pool_get_def heap_simps split: if_splits)
  then have "kvs_del_key key s = (Val True, s\<lparr>entryPool := p'\<rparr>)" "mem (heap (entryPool (s\<lparr>entryPool := p'\<rparr>))) a = None"
    using find i(1) by (simp_all add: kvs_del_key_def kvs_del_def)
  ultimately show ?thesis using e(4) that by blast
qed

lemma custom_get_del_dangles:
  assumes sh: "shards_inv z (server c)" and k: "is_cstr key" "key_ok key"
    and e: "lookup_idx (store_of (server c) (shard_of (server c) key)) key = Some i"
      "contents (entryPool (store_of (server c) (shard_of (server c) key))) i = Some (key, False, b)"
  shows "\<exists>ps c'. process_pending z (map view_of [CustomMsg (text_of (Get key)), CustomMsg (text_of (Del key))]) c = (Val ps, c') \<and>
    gather (store_heap (server c')) (arena (server c')) ps = None"
proof -
  let ?i = "shard_of (server c) key" and ?sv = "server c"
  let ?st = "store_of ?sv ?i"
  note D = shards_invD [OF sh]
  have i: "?i < numShards ?sv" using D(1) by simp
  obtain a s' where g: "kvs_get z key (hashFunc key) ?st = (Val (Some a), ?st)" "mem (heap (entryPool ?st)) a = Some b"
    and d: "kvs_del_key key ?st = (Val True, s')" "mem (heap (entryPool s')) a = None"
    by (rule get_then_del_frees [OF D(3) [OF i] e])
  have st: "keyValueStore (serverShards ?sv ! ?i) = ?st" by (simp add: store_of_def)
  have same: "put_shard ?sv ?i ?st = ?sv" by (simp add: put_shard_def store_of_def)
  have "processQuery z (mk_Query GET key (hashFunc key)) (serverShards ?sv ! ?i) =
      (Val (HeapPtr ?i a), (serverShards ?sv ! ?i)\<lparr>keyValueStore := ?st\<rparr>)"
    using g(1) k(1) D(4) [OF i] by (simp add: processQuery_def mk_Query_def st)
  then have "on_shard (hashFunc key) (processQuery z (mk_Query GET key (hashFunc key))) ?sv = (Val (HeapPtr ?i a), ?sv)"
    using on_shard_eq [OF sh, where f = "processQuery z (mk_Query GET key (hashFunc key))" and key = key] same by metis
  moreover have "store_heap ?sv ?i a = Some b" using g(2) i D(2) by (simp add: store_heap_def store_of_def)
  ultimately have get: "handleGet z key Custom ?sv = (Val (makeCustomResponse (HeapPtr ?i a) b), ?sv)"
    by (simp add: handleGet_def Let_def ptr_str_def)
  have s: "split_space (text_of (Get key)) = Some (''GET'', key)" "split_space (text_of (Del key)) = Some (''DEL'', key)"
    "split_space key = None" "key \<noteq> []"
    using split_space_at [of "''GET''" key] split_space_at [of "''DEL''" key] split_space_none k by (auto simp: key_ok_def)
  let ?q = "makeCustomResponse (ConstPtr (text_res (Removed True))) (text_res (Removed True))"
  have del: "handleDel z key Custom ?sv = (Val ?q, put_shard ?sv ?i s')"
    using handleDel_Custom [OF sh, of key] k(1) d(1) by (simp add: on_store_def)
  have "process_pending z (map view_of [CustomMsg (text_of (Get key)), CustomMsg (text_of (Del key))]) c =
      (Val [makeCustomResponse (HeapPtr ?i a) b, ?q], c\<lparr>server := put_shard ?sv ?i s'\<rparr>)"
    using get del s k(1)
    by (simp add: processRequestSync_def processCustom_def run_handler_def del: text_of.simps text_res.simps)
  moreover have "store_heap (put_shard ?sv ?i s') ?i a = None"
    using d(2) i D(2) by (simp add: store_heap_def put_shard_def)
  then have "sent_bytes (store_heap (put_shard ?sv ?i s')) x (makeCustomResponse (HeapPtr ?i a) b) = None" for x
    by (simp add: sent_bytes_def makeCustomResponse_def new_packet_def)
  ultimately show ?thesis by (simp add: response_iov_def)
qed

end
