(* ===== verification/Client.thy ===== *)
theory Client
  imports Custom "HOL-Library.Signed_Division"
begin

section \<open>The client library (src/src/client/cache_client.hpp)\<close>

text \<open>
  The record holds the members of \<^verbatim>\<open>CacheClient\<close> and, beside them, the socket as the program sees it:
  the descriptors it holds open, what \<^verbatim>\<open>send\<close> has taken, what the coming calls of \<^verbatim>\<open>send\<close> and \<^verbatim>\<open>recv\<close>
  return, and what \<^verbatim>\<open>getaddrinfo\<close>, \<^verbatim>\<open>socket\<close> and \<^verbatim>\<open>connect\<close> return. A call for which no result is left
  blocks forever.
\<close>

datatype RequestType = ReqGet | ReqSet | ReqDelete

datatype ResultCode = ResOk | ResNotFound | ResError

record Response =
  requestId :: u64
  requestType :: RequestType
  result :: ResultCode
  res_value :: bytes
  errorMessage :: bytes

record PendingRequest =
  pr_id :: u64
  pr_type :: RequestType

record Options =
  host :: bytes
  opt_port :: "16 word"
  sendTimeout :: int
  receiveTimeout :: int

definition default_options :: Options where
  "default_options = \<lparr>host = ''127.0.0.1'', opt_port = 7000, sendTimeout = 0, receiveTimeout = 0\<rparr>"

record timeval =
  val_sec :: int
  val_usec :: int

definition toTimeVal :: "int \<Rightarrow> timeval" where
  "toTimeVal duration = \<lparr>val_sec = duration sdiv 1000, val_usec = (duration smod 1000) * 1000\<rparr>"

text \<open>The results of the system calls.\<close>

datatype client_send = SendTook nat | SendInterrupted | SendFailed

datatype client_recv = Received bytes | RecvInterrupted | RecvFailed

datatype attempt = NoSocket | NoConnect int | Connects int

datatype resolution = ResolveFailed | Resolved "attempt list"

record CacheClient =
  options :: Options
  socketFd :: int
  pending :: "PendingRequest list"
  completedResponses :: "u64 \<rightharpoonup> Response"
  sendBuffer :: bytes
  sendOffset :: nat
  receiveBuffer :: bytes
  nextRequestId :: u64
  open_fds :: "int set"
  wire_out :: bytes
  sends :: "client_send list"
  recvs :: "client_recv list"
  peers :: resolution

definition INVALID_SOCKET_HANDLE :: int where "INVALID_SOCKET_HANDLE = -1"

definition connected :: "CacheClient \<Rightarrow> bool" where
  "connected c \<longleftrightarrow> socketFd c \<noteq> INVALID_SOCKET_HANDLE"

definition new_client :: "Options \<Rightarrow> client_send list \<Rightarrow> client_recv list \<Rightarrow> resolution \<Rightarrow> CacheClient" where
  "new_client opts ss rs ps = \<lparr>options = opts, socketFd = INVALID_SOCKET_HANDLE, pending = [], completedResponses = Map.empty,
     sendBuffer = [], sendOffset = 0, receiveBuffer = [], nextRequestId = 1, open_fds = {}, wire_out = [], sends = ss,
     recvs = rs, peers = ps\<rparr>"

subsection \<open>Connecting and closing\<close>

text \<open>The loop over the addresses; every socket that does not connect is closed.\<close>

fun connect_loop :: "attempt list \<Rightarrow> CacheClient \<Rightarrow> CacheClient" where
  "connect_loop [] c = c"
| "connect_loop (NoSocket # rps) c = connect_loop rps c"
| "connect_loop (NoConnect fd # rps) c =
     (let c = c\<lparr>open_fds := insert fd (open_fds c)\<rparr> in connect_loop rps (c\<lparr>open_fds := open_fds c - {fd}\<rparr>))"
| "connect_loop (Connects fd # rps) c = c\<lparr>open_fds := insert fd (open_fds c), socketFd := fd\<rparr>"

definition connect :: "CacheClient \<Rightarrow> unit cpp \<times> CacheClient" where
  "connect c =
     (if connected c then (Val (), c)
      else (case peers c of
          ResolveFailed \<Rightarrow> (Exn ''Failed to resolve cache server host'', c)
        | Resolved rps \<Rightarrow>
            let c = connect_loop rps c
            in if connected c then (Val (), c) else (Exn ''Failed to connect to cache server'', c)))"

definition close :: "CacheClient \<Rightarrow> CacheClient" where
  "close c =
     (let c = (if connected c then c\<lparr>open_fds := open_fds c - {socketFd c}, socketFd := INVALID_SOCKET_HANDLE\<rparr> else c)
      in c\<lparr>pending := [], completedResponses := Map.empty, sendBuffer := [], sendOffset := 0, receiveBuffer := [],
           nextRequestId := 1\<rparr>)"

definition ensureConnected :: "CacheClient \<Rightarrow> unit cpp \<times> CacheClient" where
  "ensureConnected c = (if connected c then (Val (), c) else connect c)"

text \<open>
  \<open>moveFrom\<close> gives the new object and what is left of the old one. Moving a container leaves it empty, as
  the implementations of the standard library do; the descriptors follow the handle.
\<close>

definition moveFrom :: "CacheClient \<Rightarrow> CacheClient \<times> CacheClient" where
  "moveFrom other =
     (other, other\<lparr>socketFd := INVALID_SOCKET_HANDLE, pending := [], completedResponses := Map.empty, sendBuffer := [],
        sendOffset := 0, receiveBuffer := [], nextRequestId := 1, open_fds := {}\<rparr>)"

subsection \<open>Requests\<close>

definition validateKey :: "bytes \<Rightarrow> unit cpp" where
  "validateKey key =
     (if key = [] then Exn ''Key must not be empty''
      else if CHR '' '' \<in> set key then Exn ''Keys containing spaces are not supported by the protocol''
      else if MSG_SEPARATOR \<in> set key then Exn ''Key contains protocol separator character''
      else Val ())"

fun command_text :: "RequestType \<Rightarrow> bytes" where
  "command_text ReqGet = ''GET ''"
| "command_text ReqSet = ''SET ''"
| "command_text ReqDelete = ''DEL ''"

definition appendCommand :: "RequestType \<Rightarrow> bytes \<Rightarrow> bytes option \<Rightarrow> CacheClient \<Rightarrow> CacheClient" where
  "appendCommand type key val c =
     c\<lparr>sendBuffer := sendBuffer c @ command_text type @ key @
         (case val of None \<Rightarrow> [] | Some v \<Rightarrow> [CHR '' ''] @ v) @ [MSG_SEPARATOR]\<rparr>"

definition enqueue :: "RequestType \<Rightarrow> bytes \<Rightarrow> bytes option \<Rightarrow> CacheClient \<Rightarrow> u64 cpp \<times> CacheClient" where
  "enqueue type key val c =
     and_then (ensureConnected c) (\<lambda>_ c.
       and_then (validateKey key, c) (\<lambda>_ c.
         if (case val of None \<Rightarrow> False | Some v \<Rightarrow> MSG_SEPARATOR \<in> set v)
         then (Exn ''Value contains protocol separator character'', c)
         else let rid = nextRequestId c;
                  c = c\<lparr>nextRequestId := rid + 1, pending := pending c @ [\<lparr>pr_id = rid, pr_type = type\<rparr>]\<rparr>
              in (Val rid, appendCommand type key val c)) id) id"

definition enqueueGet :: "bytes \<Rightarrow> CacheClient \<Rightarrow> u64 cpp \<times> CacheClient" where
  "enqueueGet key = enqueue ReqGet key None"

definition enqueueSet :: "bytes \<Rightarrow> bytes \<Rightarrow> CacheClient \<Rightarrow> u64 cpp \<times> CacheClient" where
  "enqueueSet key val = enqueue ReqSet key (Some val)"

definition enqueueDelete :: "bytes \<Rightarrow> CacheClient \<Rightarrow> u64 cpp \<times> CacheClient" where
  "enqueueDelete key = enqueue ReqDelete key None"

fun flush_loop :: "client_send list \<Rightarrow> CacheClient \<Rightarrow> unit cpp \<times> CacheClient" where
  "flush_loop ss c =
     (if sendOffset c < length (sendBuffer c) then
        (case ss of
           [] \<Rightarrow> (Hang, c\<lparr>sends := []\<rparr>)
         | SendInterrupted # ss \<Rightarrow> flush_loop ss c
         | SendFailed # ss \<Rightarrow> (Exn ''Failed to send data to cache server'', c\<lparr>sends := ss\<rparr>)
         | SendTook n # ss \<Rightarrow>
             flush_loop ss (c\<lparr>sendOffset := sendOffset c + n,
               wire_out := wire_out c @ take n (drop (sendOffset c) (sendBuffer c))\<rparr>))
      else (Val (), c\<lparr>sends := ss\<rparr>))"

declare flush_loop.simps [simp del]

definition flush :: "CacheClient \<Rightarrow> unit cpp \<times> CacheClient" where
  "flush c =
     and_then (ensureConnected c) (\<lambda>_ c.
       and_then (flush_loop (sends c) c) (\<lambda>_ c.
         (Val (), if sendBuffer c \<noteq> [] then c\<lparr>sendBuffer := [], sendOffset := 0\<rparr> else c)) id) id"

subsection \<open>Responses\<close>

definition has_prefix :: "bytes \<Rightarrow> bytes \<Rightarrow> bool" where
  "has_prefix p s \<longleftrightarrow> take (length p) s = p"

definition interpretResult :: "RequestType \<Rightarrow> bytes \<Rightarrow> ResultCode" where
  "interpretResult type message =
     (if has_prefix ''ERROR:'' message then
        (if type = ReqDelete \<and> message = ''ERROR: Key does not exist'' then ResNotFound else ResError)
      else if type = ReqGet \<and> message = ''(nil)'' then ResNotFound
      else ResOk)"

definition response_of :: "PendingRequest \<Rightarrow> bytes \<Rightarrow> Response" where
  "response_of p message =
     (let r = interpretResult (pr_type p) message
      in \<lparr>requestId = pr_id p, requestType = pr_type p, result = r,
          res_value = (if r = ResOk \<and> pr_type p = ReqGet then message else []),
          errorMessage = (if r = ResError then message else [])\<rparr>)"

definition tryParseResponse :: "CacheClient \<Rightarrow> Response option cpp \<times> CacheClient" where
  "tryParseResponse c =
     (if MSG_SEPARATOR \<notin> set (receiveBuffer c) then (Val None, c)
      else let message = takeWhile (\<lambda>b. b \<noteq> MSG_SEPARATOR) (receiveBuffer c);
               c = c\<lparr>receiveBuffer := drop (length message + 1) (receiveBuffer c)\<rparr>
           in (case pending c of
                 [] \<Rightarrow> (Exn ''Received response without pending request'', c)
               | p # ps \<Rightarrow> (Val (Some (response_of p message)), c\<lparr>pending := ps\<rparr>)))"

fun receive_loop :: "client_recv list \<Rightarrow> CacheClient \<Rightarrow> Response cpp \<times> CacheClient" where
  "receive_loop rs c =
     and_then (tryParseResponse c) (\<lambda>r c. case r of
         Some response \<Rightarrow> (Val response, c\<lparr>recvs := rs\<rparr>)
       | None \<Rightarrow> (case rs of
             [] \<Rightarrow> (Hang, c\<lparr>recvs := []\<rparr>)
           | RecvInterrupted # rs \<Rightarrow> receive_loop rs c
           | RecvFailed # rs \<Rightarrow> (Exn ''Failed to receive data from cache server'', c\<lparr>recvs := rs\<rparr>)
           | Received b # rs \<Rightarrow>
               if b = [] then (Exn ''Connection closed by cache server'', c\<lparr>recvs := rs\<rparr>)
               else receive_loop rs (c\<lparr>receiveBuffer := receiveBuffer c @ b\<rparr>))) id"

declare receive_loop.simps [simp del]

definition receiveResponse :: "CacheClient \<Rightarrow> Response cpp \<times> CacheClient" where
  "receiveResponse c =
     and_then (ensureConnected c) (\<lambda>_ c.
       if pending c = [] then (Exn ''No pending requests to receive responses for'', c)
       else receive_loop (recvs c) c) id"

definition popCompleted :: "u64 \<Rightarrow> CacheClient \<Rightarrow> Response option \<times> CacheClient" where
  "popCompleted rid c = (case completedResponses c rid of
       None \<Rightarrow> (None, c)
     | Some r \<Rightarrow> (Some r, c\<lparr>completedResponses := (completedResponses c)(rid := None)\<rparr>))"

text \<open>\<^verbatim>\<open>emplace\<close> keeps an entry that is there.\<close>

definition keep_response :: "Response \<Rightarrow> CacheClient \<Rightarrow> CacheClient" where
  "keep_response r c = (case completedResponses c (requestId r) of
       None \<Rightarrow> c\<lparr>completedResponses := (completedResponses c)(requestId r \<mapsto> r)\<rparr>
     | Some _ \<Rightarrow> c)"

text \<open>Every response that is received answers one of the pending requests, so the loop ends.\<close>

lemma tryParse_pending:
  "tryParseResponse c = (Val (Some r), c') \<Longrightarrow> length (pending c') < length (pending c)"
  "tryParseResponse c = (Val None, c') \<Longrightarrow> c' = c"
  "tryParseResponse c \<noteq> (UB, c')" "tryParseResponse c \<noteq> (Hang, c')"
  by (auto simp: tryParseResponse_def Let_def split: if_splits list.splits)

lemma receive_loop_unfold:
  "receive_loop rs c =
     (if MSG_SEPARATOR \<in> set (receiveBuffer c)
      then and_then (tryParseResponse c) (\<lambda>r c. (Val (the r), c\<lparr>recvs := rs\<rparr>)) id
      else (case rs of
          [] \<Rightarrow> (Hang, c\<lparr>recvs := []\<rparr>)
        | RecvInterrupted # rs \<Rightarrow> receive_loop rs c
        | RecvFailed # rs \<Rightarrow> (Exn ''Failed to receive data from cache server'', c\<lparr>recvs := rs\<rparr>)
        | Received b # rs \<Rightarrow>
            if b = [] then (Exn ''Connection closed by cache server'', c\<lparr>recvs := rs\<rparr>)
            else receive_loop rs (c\<lparr>receiveBuffer := receiveBuffer c @ b\<rparr>)))"
  by (subst receive_loop.simps) (simp add: tryParseResponse_def Let_def split: list.splits)

lemma receive_loop_wait:
  assumes "MSG_SEPARATOR \<notin> set (receiveBuffer c)"
  shows "receive_loop [] c = (Hang, c\<lparr>recvs := []\<rparr>)" "receive_loop (RecvInterrupted # rs) c = receive_loop rs c"
    "receive_loop (RecvFailed # rs) c = (Exn ''Failed to receive data from cache server'', c\<lparr>recvs := rs\<rparr>)"
    "receive_loop (Received b # rs) c =
      (if b = [] then (Exn ''Connection closed by cache server'', c\<lparr>recvs := rs\<rparr>)
       else receive_loop rs (c\<lparr>receiveBuffer := receiveBuffer c @ b\<rparr>))"
  using assms by (subst receive_loop_unfold, simp)+

lemma receive_loop_parse:
  assumes "MSG_SEPARATOR \<in> set (receiveBuffer c)"
  shows "receive_loop rs c =
    (let message = takeWhile (\<lambda>b. b \<noteq> MSG_SEPARATOR) (receiveBuffer c);
         c = c\<lparr>receiveBuffer := drop (length message + 1) (receiveBuffer c)\<rparr>
     in (case pending c of
           [] \<Rightarrow> (Exn ''Received response without pending request'', c)
         | p # ps \<Rightarrow> (Val (response_of p message), c\<lparr>pending := ps, recvs := rs\<rparr>)))"
  using assms by (subst receive_loop_unfold) (simp add: tryParseResponse_def Let_def split: list.splits)

lemma receive_loop_pending: "receive_loop rs c = (Val r, c') \<Longrightarrow> length (pending c') < length (pending c)"
proof (induction rs arbitrary: c)
  case (Cons x rs)
  then show ?case
  proof (cases "MSG_SEPARATOR \<in> set (receiveBuffer c)")
    case False
    then show ?thesis using Cons by (cases x) (fastforce simp: receive_loop_wait split: if_splits)+
  qed (auto simp: receive_loop_parse Let_def split: list.splits)
next
  case Nil
  then show ?case
    by (cases "MSG_SEPARATOR \<in> set (receiveBuffer c)") (auto simp: receive_loop_wait receive_loop_parse Let_def split: list.splits)
qed

lemma connect_pending [simp]: "pending (connect_loop rps c) = pending c" "pending (snd (ensureConnected c)) = pending c"
proof -
  show loop: "pending (connect_loop rps c) = pending c" for rps c
    by (induction rps c rule: connect_loop.induct) (simp_all add: Let_def)
  show "pending (snd (ensureConnected c)) = pending c"
    by (simp add: ensureConnected_def connect_def Let_def loop split: resolution.splits)
qed

lemma receiveResponse_pending: "receiveResponse c = (Val r, c') \<Longrightarrow> length (pending c') < length (pending c)"
  using connect_pending(2) [of c]
  by (cases "ensureConnected c"; cases "fst (ensureConnected c)")
    (auto simp: receiveResponse_def split: if_splits dest!: receive_loop_pending)

lemma pending_keep [simp]: "pending (keep_response r c) = pending c"
  by (simp add: keep_response_def split: option.splits)

function wait_loop :: "u64 \<Rightarrow> CacheClient \<Rightarrow> Response cpp \<times> CacheClient" where
  "wait_loop rid c = (case receiveResponse c of
       (Val response, c) \<Rightarrow>
         if requestId response = rid then (Val response, c) else wait_loop rid (keep_response response c)
     | (Exn m, c) \<Rightarrow> (Exn m, c)
     | (UB, c) \<Rightarrow> (UB, c)
     | (Hang, c) \<Rightarrow> (Hang, c))"
  by pat_completeness auto

termination
  by (relation "measure (\<lambda>(rid, c). length (pending c))") (auto dest!: receiveResponse_pending [OF sym])

declare wait_loop.simps [simp del]

definition waitFor :: "u64 \<Rightarrow> CacheClient \<Rightarrow> Response cpp \<times> CacheClient" where
  "waitFor rid c = (case popCompleted rid c of
       (Some cached, c) \<Rightarrow> (Val cached, c)
     | (None, c) \<Rightarrow> wait_loop rid c)"

definition client_get :: "bytes \<Rightarrow> CacheClient \<Rightarrow> Response cpp \<times> CacheClient" where
  "client_get key c = and_then (enqueueGet key c) (\<lambda>rid c. and_then (flush c) (\<lambda>_ c. waitFor rid c) id) id"

definition client_set :: "bytes \<Rightarrow> bytes \<Rightarrow> CacheClient \<Rightarrow> Response cpp \<times> CacheClient" where
  "client_set key val c = and_then (enqueueSet key val c) (\<lambda>rid c. and_then (flush c) (\<lambda>_ c. waitFor rid c) id) id"

definition client_del :: "bytes \<Rightarrow> CacheClient \<Rightarrow> Response cpp \<times> CacheClient" where
  "client_del key c = and_then (enqueueDelete key c) (\<lambda>rid c. and_then (flush c) (\<lambda>_ c. waitFor rid c) id) id"

definition pendingRequestCount :: "CacheClient \<Rightarrow> nat" where
  "pendingRequestCount c = length (pending c)"

end
