(* ===== verification/Client_Props.thy ===== *)
theory Client_Props
  imports Client
begin

section \<open>Properties of the client\<close>

text \<open>
  What the client writes for its requests, how the bytes it receives become responses, and that responses
  can be waited for in any order; then whole calls against the model of the server.
\<close>

subsection \<open>Writing\<close>

text \<open>The results of \<^verbatim>\<open>send\<close> let \<open>n\<close> bytes through.\<close>

fun sends_ok :: "client_send list \<Rightarrow> nat \<Rightarrow> bool" where
  "sends_ok [] n = (n = 0)"
| "sends_ok (SendTook k # ss) n = (n = 0 \<or> k \<le> n \<and> sends_ok ss (n - k))"
| "sends_ok (SendInterrupted # ss) n = (n = 0 \<or> sends_ok ss n)"
| "sends_ok (SendFailed # ss) n = (n = 0)"

lemma flush_loop_sends:
  assumes "sends_ok ss (length (sendBuffer c) - sendOffset c)" "sendOffset c \<le> length (sendBuffer c)"
  shows "\<exists>ss'. flush_loop ss c = (Val (), c\<lparr>sendOffset := length (sendBuffer c),
    wire_out := wire_out c @ drop (sendOffset c) (sendBuffer c), sends := ss'\<rparr>)"
  using assms
proof (induction ss c rule: flush_loop.induct)
  case (1 ss c)
  let ?b = "sendBuffer c" and ?o = "sendOffset c"
  show ?case
  proof (cases "?o < length ?b")
    case False
    then have "?o = length ?b" using "1.prems"(2) by simp
    then have "flush_loop ss c = (Val (), c\<lparr>sendOffset := length ?b, wire_out := wire_out c @ drop ?o ?b, sends := ss\<rparr>)"
      by (subst flush_loop.simps) simp
    then show ?thesis by blast
  next
    case True
    then obtain s ss1 where ss: "ss = s # ss1" using "1.prems"(1) by (cases ss) auto
    show ?thesis
    proof (cases s)
      case (SendTook n)
      let ?c = "c\<lparr>sendOffset := ?o + n, wire_out := wire_out c @ take n (drop ?o ?b)\<rparr>"
      have n: "?o + n \<le> length ?b" "sends_ok ss1 (length ?b - (?o + n))" using "1.prems"(1) True ss SendTook by auto
      have step: "flush_loop ss c = flush_loop ss1 ?c" using True ss SendTook by (subst flush_loop.simps) simp
      have all: "take n (drop ?o ?b) @ drop (?o + n) ?b = drop ?o ?b" by (metis append_take_drop_id drop_drop add.commute)
      from "1.IH"(1) [OF True ss SendTook] n "1.prems"(2) obtain ss' where
        "flush_loop ss1 ?c = (Val (), ?c\<lparr>sendOffset := length ?b, wire_out := wire_out ?c @ drop (?o + n) ?b, sends := ss'\<rparr>)" by auto
      then show ?thesis using step all by auto
    next
      case SendInterrupted
      then have "flush_loop ss c = flush_loop ss1 c" using True ss by (subst flush_loop.simps) simp
      then show ?thesis using "1.IH"(2) [OF True ss SendInterrupted] "1.prems" True ss SendInterrupted by simp
    qed (use "1.prems" True ss in auto)
  qed
qed

lemma flush_sends:
  assumes "connected c" "sendOffset c = 0" "sends_ok (sends c) (length (sendBuffer c))"
  shows "\<exists>ss. flush c = (Val (), c\<lparr>sendBuffer := [], sendOffset := 0, wire_out := wire_out c @ sendBuffer c, sends := ss\<rparr>)"
proof -
  obtain ss where "flush_loop (sends c) c = (Val (), c\<lparr>sendOffset := length (sendBuffer c), wire_out := wire_out c @ sendBuffer c, sends := ss\<rparr>)"
    using flush_loop_sends [of "sends c" c] assms(2,3) by auto
  then have "flush c = (Val (), c\<lparr>sendBuffer := [], sendOffset := 0, wire_out := wire_out c @ sendBuffer c, sends := ss\<rparr>)"
    using assms(1) by (cases c) (auto simp: flush_def ensureConnected_def)
  then show ?thesis by blast
qed

subsection \<open>Reading\<close>

text \<open>The bytes that arrive before the first failure, and the bytes that are there or will arrive.\<close>

fun received :: "client_recv list \<Rightarrow> bytes" where
  "received [] = []"
| "received (Received b # rs) = (if b = [] then [] else b @ received rs)"
| "received (RecvInterrupted # rs) = received rs"
| "received (RecvFailed # rs) = []"

definition incoming :: "CacheClient \<Rightarrow> bytes" where
  "incoming c = receiveBuffer c @ received (recvs c)"

lemma split_unique: "x \<notin> set a \<Longrightarrow> x \<notin> set m \<Longrightarrow> a @ x # b = m @ x # r \<Longrightarrow> a = m \<and> b = r"
  by (induction a arbitrary: m; case_tac m) auto

text \<open>The first message that arrives answers the oldest pending request.\<close>

lemma receive_loop_first:
  assumes "receiveBuffer c @ received rs = m @ MSG_SEPARATOR # rest" "MSG_SEPARATOR \<notin> set m" "pending c = p # ps"
  shows "\<exists>buf rs'. receive_loop rs c = (Val (response_of p m), c\<lparr>receiveBuffer := buf, pending := ps, recvs := rs'\<rparr>) \<and>
    buf @ received rs' = rest"
  using assms
proof (induction rs arbitrary: c)
  case Nil
  then have b: "receiveBuffer c = m @ MSG_SEPARATOR # rest" by simp
  then show ?case using Nil.prems takeWhile_until [of m rest]
    by (intro exI [of _ rest] exI [of _ "[]"]) (simp add: receive_loop_parse Let_def)
next
  case (Cons x rs)
  show ?case
  proof (cases "MSG_SEPARATOR \<in> set (receiveBuffer c)")
    case True
    then obtain a b where ab: "receiveBuffer c = a @ MSG_SEPARATOR # b" "MSG_SEPARATOR \<notin> set a" by (meson split_list_first)
    then have "a @ MSG_SEPARATOR # (b @ received (x # rs)) = m @ MSG_SEPARATOR # rest" using Cons.prems(1) by simp
    from split_unique [OF ab(2) Cons.prems(2) this] have "a = m" "b @ received (x # rs) = rest" by simp_all
    then show ?thesis using ab takeWhile_until [OF ab(2), of b] Cons.prems(3)
      by (intro exI [of _ b] exI [of _ "x # rs"]) (simp add: receive_loop_parse Let_def)
  next
    case False
    show ?thesis
    proof (cases x)
      case (Received d)
      then have "d \<noteq> []" using False Cons.prems(1) by (auto split: if_splits)
      then show ?thesis
        using Cons.IH [of "c\<lparr>receiveBuffer := receiveBuffer c @ d\<rparr>"] Cons.prems Received False by (simp add: receive_loop_wait)
    next
      case RecvInterrupted
      then show ?thesis using Cons.IH [of c] Cons.prems False by (simp add: receive_loop_wait)
    next
      case RecvFailed
      then have "MSG_SEPARATOR \<in> set (receiveBuffer c)" using Cons.prems(1) by simp
      then show ?thesis using False by simp
    qed
  qed
qed

lemma receive_first:
  assumes "connected c" "pending c = p # ps" "incoming c = m @ MSG_SEPARATOR # rest" "MSG_SEPARATOR \<notin> set m"
  shows "\<exists>buf rs. receiveResponse c = (Val (response_of p m), c\<lparr>receiveBuffer := buf, pending := ps, recvs := rs\<rparr>) \<and>
    buf @ received rs = rest"
  using receive_loop_first [of c "recvs c" m rest p ps] assms by (simp add: receiveResponse_def ensureConnected_def incoming_def)

subsection \<open>Waiting in any order\<close>

text \<open>
  Identifiers are given in increasing order, and a response is kept only for a request that has left the
  queue. \<open>answers\<close> is what the client has or will have for each identifier when the messages \<open>ms\<close> arrive.
\<close>

definition client_wf :: "CacheClient \<Rightarrow> bool" where
  "client_wf c \<longleftrightarrow> distinct (map pr_id (pending c)) \<and> set (map pr_id (pending c)) \<inter> dom (completedResponses c) = {} \<and>
     (\<forall>i. i \<in> set (map pr_id (pending c)) \<union> dom (completedResponses c) \<longrightarrow> i < nextRequestId c)"

definition answers :: "CacheClient \<Rightarrow> bytes list \<Rightarrow> u64 \<rightharpoonup> Response" where
  "answers c ms = completedResponses c ++ map_of (zip (map pr_id (pending c)) (map2 response_of (pending c) ms))"

definition awaits :: "CacheClient \<Rightarrow> bytes list \<Rightarrow> bytes \<Rightarrow> bool" where
  "awaits c ms rest \<longleftrightarrow> connected c \<and> length ms = length (pending c) \<and> list_all (\<lambda>m. MSG_SEPARATOR \<notin> set m) ms \<and>
     incoming c = concat (map (\<lambda>m. m @ [MSG_SEPARATOR]) ms) @ rest"

lemma client_fields [simp]:
  "connected (c\<lparr>receiveBuffer := b\<rparr>) = connected c" "connected (c\<lparr>pending := ps\<rparr>) = connected c"
  "connected (c\<lparr>recvs := rs\<rparr>) = connected c" "connected (c\<lparr>completedResponses := m\<rparr>) = connected c"
  "connected (c\<lparr>nextRequestId := i\<rparr>) = connected c" "connected (c\<lparr>sendBuffer := b\<rparr>) = connected c"
  "connected (c\<lparr>sends := ss\<rparr>) = connected c"
  by (simp_all add: connected_def)

lemma requestId_response_of [simp]: "requestId (response_of p m) = pr_id p" "requestType (response_of p m) = pr_type p"
  by (simp_all add: response_of_def Let_def)

lemma map_of_zip_None: "k \<notin> set ks \<Longrightarrow> map_of (zip ks vs) k = None"
  by (induction ks vs rule: list_induct2') auto

text \<open>Receiving one response and keeping it changes nothing of the answers.\<close>

lemma receive_keeps_answers:
  assumes "client_wf c" "awaits c ms rest" "pending c \<noteq> []"
  obtains m ms' c' where "ms = m # ms'" "receiveResponse c = (Val (response_of (hd (pending c)) m), c')"
    "pending c' = tl (pending c)" "completedResponses c' = completedResponses c"
    "answers c ms (pr_id (hd (pending c))) = Some (response_of (hd (pending c)) m)"
    "answers c' ms' = (answers c ms)(pr_id (hd (pending c)) := None)" "client_wf c'" "awaits c' ms' rest"
    "client_wf (keep_response (response_of (hd (pending c)) m) c')"
    "awaits (keep_response (response_of (hd (pending c)) m) c') ms' rest"
    "answers (keep_response (response_of (hd (pending c)) m) c') ms' = answers c ms"
proof -
  obtain p ps m ms' where pm: "pending c = p # ps" "ms = m # ms'"
    using assms(2,3) by (cases "pending c"; cases ms) (auto simp: awaits_def)
  then have "incoming c = m @ MSG_SEPARATOR # (concat (map (\<lambda>m. m @ [MSG_SEPARATOR]) ms') @ rest)" "MSG_SEPARATOR \<notin> set m" "connected c"
    using assms(2) by (simp_all add: awaits_def)
  from receive_first [OF this(3) pm(1) this(1,2)] obtain buf rs where r:
    "receiveResponse c = (Val (response_of p m), c\<lparr>receiveBuffer := buf, pending := ps, recvs := rs\<rparr>)"
    "buf @ received rs = concat (map (\<lambda>m. m @ [MSG_SEPARATOR]) ms') @ rest" by blast
  let ?c = "c\<lparr>receiveBuffer := buf, pending := ps, recvs := rs\<rparr>" and ?r = "response_of p m"
  have fresh: "completedResponses c (pr_id p) = None" "pr_id p \<notin> pr_id ` set ps"
    using assms(1) pm(1) by (auto simp: client_wf_def)
  then have keep: "keep_response ?r ?c = ?c\<lparr>completedResponses := (completedResponses c)(pr_id p \<mapsto> ?r)\<rparr>"
    by (simp add: keep_response_def)
  have none: "map_of (zip (map pr_id ps) xs) (pr_id p) = None" for xs :: "Response list"
    using fresh(2) by (intro map_of_zip_None) simp
  have "answers ?c ms' = (answers c ms)(pr_id p := None)"
    using fresh none by (auto simp: answers_def pm fun_eq_iff map_add_def split: option.splits)
  moreover have "answers (keep_response ?r ?c) ms' = answers c ms"
    using none by (auto simp: answers_def pm keep fun_eq_iff map_add_def split: option.splits)
  moreover have "client_wf ?c" "client_wf (keep_response ?r ?c)"
    using assms(1) pm(1) fresh(2) by (auto simp: client_wf_def keep)
  moreover have "awaits ?c ms' rest" "awaits (keep_response ?r ?c) ms' rest"
    using assms(2) r(2) by (simp_all add: awaits_def pm incoming_def keep)
  moreover have "answers c ms (pr_id p) = Some ?r" by (simp add: answers_def pm)
  ultimately show thesis using that [of m ms' ?c] r(1) pm by simp
qed

lemma wait_loop_answers:
  assumes "client_wf c" "awaits c ms rest" "completedResponses c rid = None" "answers c ms rid = Some r"
  shows "\<exists>c' ms'. wait_loop rid c = (Val r, c') \<and> client_wf c' \<and> awaits c' ms' rest \<and>
    answers c' ms' = (answers c ms)(rid := None)"
  using assms
proof (induction rid c arbitrary: ms rule: wait_loop.induct)
  case (1 rid c)
  have ne: "pending c \<noteq> []" using "1.prems"(3,4) by (auto simp: answers_def)
  obtain m ms' c' where st: "receiveResponse c = (Val (response_of (hd (pending c)) m), c')"
      "completedResponses c' = completedResponses c" "answers c ms (pr_id (hd (pending c))) = Some (response_of (hd (pending c)) m)"
      "answers c' ms' = (answers c ms)(pr_id (hd (pending c)) := None)" "client_wf c'" "awaits c' ms' rest"
    and kept: "client_wf (keep_response (response_of (hd (pending c)) m) c')"
      "awaits (keep_response (response_of (hd (pending c)) m) c') ms' rest"
      "answers (keep_response (response_of (hd (pending c)) m) c') ms' = answers c ms"
    by (rule receive_keeps_answers [OF "1.prems"(1,2) ne])
  let ?r = "response_of (hd (pending c)) m"
  show ?case
  proof (cases "pr_id (hd (pending c)) = rid")
    case True
    then have "wait_loop rid c = (Val r, c')" using st(1,3) "1.prems"(4) by (subst wait_loop.simps) simp
    then show ?thesis using st(4-6) unfolding True by blast
  next
    case False
    then have step: "wait_loop rid c = wait_loop rid (keep_response ?r c')" using st(1) by (subst wait_loop.simps) simp
    have "completedResponses (keep_response ?r c') rid = None"
      using "1.prems"(3) st(2) False by (simp add: keep_response_def split: option.splits)
    from "1.IH" [OF st(1) [symmetric] refl _ kept(1,2) this] show ?thesis using False kept(3) "1.prems"(4) step by simp
  qed
qed

lemma waitFor_answers:
  assumes "client_wf c" "awaits c ms rest" "answers c ms rid = Some r"
  shows "\<exists>c' ms'. waitFor rid c = (Val r, c') \<and> client_wf c' \<and> awaits c' ms' rest \<and> answers c' ms' = (answers c ms)(rid := None)"
proof (cases "completedResponses c rid")
  case None
  then show ?thesis using wait_loop_answers [OF assms(1,2) None assms(3)] by (simp add: waitFor_def popCompleted_def)
next
  case (Some q)
  then have pend: "rid \<notin> pr_id ` set (pending c)" using assms(1) by (auto simp: client_wf_def)
  then have none: "map_of (zip (map pr_id (pending c)) xs) rid = None" for xs :: "Response list"
    by (intro map_of_zip_None) simp
  let ?c = "c\<lparr>completedResponses := (completedResponses c)(rid := None)\<rparr>"
  have "r = q" using assms(3) none Some by (simp add: answers_def map_add_def)
  then have "waitFor rid c = (Val r, ?c)" using Some by (simp add: waitFor_def popCompleted_def)
  moreover have "client_wf ?c" using assms(1) by (auto simp: client_wf_def)
  moreover have "awaits ?c ms rest" using assms(2) by (simp add: awaits_def incoming_def)
  moreover have "answers ?c ms = (answers c ms)(rid := None)"
    using none by (auto simp: answers_def fun_eq_iff map_add_def split: option.splits)
  ultimately show ?thesis by blast
qed

end
