(* ===== verification/Client_Server.thy ===== *)
theory Client_Server
  imports Client_Props
begin

section \<open>The client against the server\<close>

text \<open>
  A call of the client, a round of the server's event loop and the response the client decodes, one call
  after the other; pipelined requests; and what the client refuses.
\<close>

subsection \<open>A round with one custom request\<close>

text \<open>Calls whose text is a custom request: no separators and NULs, a key that is not empty and has no space.\<close>

fun op_plain :: "kv_op \<Rightarrow> bool" where
  "op_plain (Put k v) = (is_cstr k \<and> is_cstr v \<and> key_ok k \<and> MSG_SEPARATOR \<notin> set k \<and> MSG_SEPARATOR \<notin> set v)"
| "op_plain (Get k) = (is_cstr k \<and> key_ok k \<and> MSG_SEPARATOR \<notin> set k)"
| "op_plain (Del k) = (is_cstr k \<and> key_ok k \<and> MSG_SEPARATOR \<notin> set k)"

lemma op_plain_text:
  assumes "op_plain x"
  shows "op_cstr x" "key_ok (op_key x)" "wire_ok (CustomMsg (text_of x))"
  using assms by (cases x; simp add: RESP_ARRAY_PREFIX_def MSG_SEPARATOR_def)+

lemma op_plain_args: "op_plain x \<Longrightarrow> length (text_of x) < 2 ^ 30 \<Longrightarrow> op_args_ok set_args x"
  by (cases x) (simp_all add: set_args_def storable_def)

lemma gather_text:
  assumes "shows_text sv p t"
  shows "gather (store_heap sv) (arena sv) [p] = Some [t, [MSG_SEPARATOR]]" "destroy_all [p] a = a"
  using assms by (simp_all add: shows_text_def response_iov_def destroy_all_def destroy_packet_def drop_inline_def)

lemma round_custom:
  assumes rest: "at_rest z fd es" and x: "op_plain x" "length (text_of x) < 2 ^ 30"
    and run: "exec_op (server_ops z) x (cache es) = (Val r, sv1)"
    and chunks: "concat chunks = text_of x @ [MSG_SEPARATOR]" "length chunks \<le> READ_MAX_ATTEMPTS"
    and sock: "kernel_ok (sock fd) (length (text_res r) + 1)" "length (text_res r) + 1 \<le> taken (sock fd)"
  shows "\<exists>es'. handle_round z [data_event fd chunks now] sock es = (Val (), es') \<and> at_rest z fd es' \<and> cache es' = sv1 \<and>
    sent_to es' = (sent_to es)(fd := sent_to es fd @ text_res r @ [MSG_SEPARATOR])"
proof -
  obtain d where d: "connections (connManager es) fd = Some d" "readBuffer d = []" "pendingRequests d = []" "bytesToErase d = 0"
    and inv: "conn_inv z \<lparr>server = cache es, respTransaction = cd_respTransaction d\<rparr> {}"
    and free: "\<not> conn_mutex (connManager es)" using rest by (auto simp: at_rest_def)
  let ?c = "\<lparr>server = cache es, respTransaction = cd_respTransaction d\<rparr>" and ?ms = "[CustomMsg (text_of x)]"
  have sh: "shards_inv z (server ?c)" and ar: "arena_inv (arena (cache es)) {}" using inv by (simp_all add: conn_inv_def server_inv_def)
  note args = op_plain_args [OF x]
  obtain p where p: "processRequestSync z \<lparr>payload = text_of x, req_protocol = Custom\<rparr> ?c = (Val p, ?c\<lparr>server := sv1\<rparr>)"
    "shows_text sv1 p (text_res r)"
    using custom_request_follows [OF sh op_plain_text(1,2) [OF x(1)] args] run by (auto simp: text_follows_def)
  have w: "concat chunks = concat (map wire ?ms)" "list_all wire_ok ?ms" "?ms \<noteq> []" "length (concat chunks) < 2 ^ 63"
    using chunks(1) x op_plain_text(3) by simp_all
  let ?c1 = "\<lparr>server = sv1, respTransaction = cd_respTransaction d\<rparr>"
  have "process_pending z (map view_of ?ms) ?c = (Val [p], ?c1)" using p(1) by simp
  note round = round_batch [OF d free w(1) chunks(2) w(2-4) this, of now sock]
  let ?es2 = "handled fd d now ?c1 es"
  have c2: "cache ?es2 = sv1" "sent_to ?es2 = sent_to es" "?es2\<lparr>cache := sv1\<rparr> = ?es2"
    by (simp_all add: handled_def put_data_def)
  let ?es3 = "?es2\<lparr>sent_to := (sent_to es)(fd := sent_to es fd @ text_res r @ [MSG_SEPARATOR])\<rparr>"
  have "sendResponses fd [p] (sock fd) ?es2 = (Val (), ?es3)"
    using gather_text(1) [OF p(2)] send_loop_all [of "sock fd" "[text_res r, [MSG_SEPARATOR]]" "numErrors sv1"] sock
    by (simp add: sendResponses_def c2 del: gather.simps)
  then have run': "handle_round z [data_event fd chunks now] sock es = (Val (), ?es3)"
    using round gather_text(2) [OF p(2)] by (simp add: drop_responses_def c2)
  have "shards_inv z sv1" "arena sv1 = arena (cache es)"
    using sv.exec_safe [OF sh args] run exec_op_arena_same [OF run] by auto
  then have "at_rest z fd ?es3"
    using inv ar free d by (simp add: at_rest_def c2 conn_inv_def server_inv_def) (simp add: handled_def put_data_def put_conn_def)
  then show ?thesis using run' c2 by (intro exI [of _ ?es3]) simp
qed

subsection \<open>Calls\<close>

fun op_type :: "kv_op \<Rightarrow> RequestType" where
  "op_type (Put k v) = ReqSet"
| "op_type (Get k) = ReqGet"
| "op_type (Del k) = ReqDelete"

fun enqueue_op :: "kv_op \<Rightarrow> CacheClient \<Rightarrow> u64 cpp \<times> CacheClient" where
  "enqueue_op (Put k v) = enqueueSet k v"
| "enqueue_op (Get k) = enqueueGet k"
| "enqueue_op (Del k) = enqueueDelete k"

fun client_call :: "kv_op \<Rightarrow> CacheClient \<Rightarrow> Response cpp \<times> CacheClient" where
  "client_call (Put k v) = client_set k v"
| "client_call (Get k) = client_get k"
| "client_call (Del k) = client_del k"

lemma client_call_eq: "client_call x c = and_then (enqueue_op x c) (\<lambda>rid c. and_then (flush c) (\<lambda>_ c. waitFor rid c) id) id"
  by (cases x) (simp_all add: client_set_def client_get_def client_del_def)

lemma enqueue_op_ok:
  assumes "connected c" "op_plain x"
  shows "enqueue_op x c = (Val (nextRequestId c), c\<lparr>nextRequestId := nextRequestId c + 1,
    pending := pending c @ [\<lparr>pr_id = nextRequestId c, pr_type = op_type x\<rparr>], sendBuffer := sendBuffer c @ text_of x @ [MSG_SEPARATOR]\<rparr>)"
  using assms
  by (cases x) (simp_all add: enqueueSet_def enqueueGet_def enqueueDelete_def enqueue_def ensureConnected_def validateKey_def
      appendCommand_def Let_def key_ok_def)

text \<open>What the client is to report for a result, and the results whose text it can tell apart.\<close>

fun reported :: "kv_res \<Rightarrow> ResultCode \<times> bytes \<times> bytes" where
  "reported (Stored b) = (if b then (ResOk, [], []) else (ResError, [], INTERNAL_ERROR))"
| "reported (Found r) = (case r of None \<Rightarrow> (ResNotFound, [], []) | Some v \<Rightarrow> (ResOk, v, []))"
| "reported (Removed b) = (if b then (ResOk, [], []) else (ResNotFound, [], []))"

definition report :: "u64 \<Rightarrow> kv_op \<Rightarrow> kv_res \<Rightarrow> Response" where
  "report rid x r = (case reported r of (code, v, err) \<Rightarrow>
     \<lparr>requestId = rid, requestType = op_type x, result = code, res_value = v, errorMessage = err\<rparr>)"

fun plain_res :: "kv_res \<Rightarrow> bool" where
  "plain_res (Found (Some v)) = (MSG_SEPARATOR \<notin> set v \<and> v \<noteq> NOTHING \<and> \<not> has_prefix ''ERROR:'' v)"
| "plain_res r = True"

fun fits_op :: "kv_op \<Rightarrow> kv_res \<Rightarrow> bool" where
  "fits_op (Put k v) (Stored b) = True"
| "fits_op (Get k) (Found r) = True"
| "fits_op (Del k) (Removed b) = True"
| "fits_op x r = False"

lemma exec_fits: "exec_op ops x s = (Val r, s') \<Longrightarrow> fits_op x r"
  by (cases x) (auto simp: and_then_def split: prod.splits cpp.splits)

lemma response_report:
  assumes "fits_op x r" "plain_res r"
  shows "response_of \<lparr>pr_id = rid, pr_type = op_type x\<rparr> (text_res r) = report rid x r"
  using assms
  by (cases x; cases r) (auto simp: response_of_def report_def interpretResult_def has_prefix_def message_defs Let_def split: option.splits)

lemma text_res_sep: "plain_res r \<Longrightarrow> MSG_SEPARATOR \<notin> set (text_res r)"
  by (cases r) (auto simp: message_defs MSG_SEPARATOR_def split: option.splits)

definition idle_client :: "CacheClient \<Rightarrow> bool" where
  "idle_client c \<longleftrightarrow> connected c \<and> pending c = [] \<and> completedResponses c = Map.empty \<and> sendBuffer c = [] \<and>
     sendOffset c = 0 \<and> receiveBuffer c = []"

lemma call_answered:
  assumes "idle_client c" "op_plain x" "sends_ok (sends c) (length (text_of x) + 1)"
    and "received (recvs c) = m @ [MSG_SEPARATOR]" "MSG_SEPARATOR \<notin> set m"
  shows "\<exists>c'. client_call x c = (Val (response_of \<lparr>pr_id = nextRequestId c, pr_type = op_type x\<rparr> m), c') \<and> idle_client c' \<and>
    nextRequestId c' = nextRequestId c + 1 \<and> wire_out c' = wire_out c @ text_of x @ [MSG_SEPARATOR]"
proof -
  note i = assms(1) [unfolded idle_client_def]
  let ?p = "\<lparr>pr_id = nextRequestId c, pr_type = op_type x\<rparr>" and ?w = "text_of x @ [MSG_SEPARATOR]"
  let ?c1 = "c\<lparr>nextRequestId := nextRequestId c + 1, pending := [?p], sendBuffer := ?w\<rparr>"
  have enq: "enqueue_op x c = (Val (nextRequestId c), ?c1)" using enqueue_op_ok [of c x] i assms(2) by simp
  obtain ss where fl: "flush ?c1 = (Val (), ?c1\<lparr>sendBuffer := [], sendOffset := 0, wire_out := wire_out c @ ?w, sends := ss\<rparr>)"
    using flush_sends [of ?c1] i assms(3) by auto
  let ?c2 = "?c1\<lparr>sendBuffer := [], sendOffset := 0, wire_out := wire_out c @ ?w, sends := ss\<rparr>"
  have c2: "connected ?c2" "pending ?c2 = ?p # []" "incoming ?c2 = m @ MSG_SEPARATOR # []"
    using i assms(4) by (simp_all add: incoming_def connected_def)
  from receive_first [OF c2 assms(5)] obtain buf rs where
    r: "receiveResponse ?c2 = (Val (response_of ?p m), ?c2\<lparr>receiveBuffer := buf, pending := [], recvs := rs\<rparr>)" "buf = []" by auto
  then have "wait_loop (nextRequestId c) ?c2 = (Val (response_of ?p m), ?c2\<lparr>receiveBuffer := [], pending := [], recvs := rs\<rparr>)"
    by (subst wait_loop.simps) simp
  then have "client_call x c = (Val (response_of ?p m), ?c2\<lparr>receiveBuffer := [], pending := [], recvs := rs\<rparr>)"
    using enq fl i by (simp add: client_call_eq waitFor_def popCompleted_def)
  then show ?thesis using i by (auto simp: idle_client_def connected_def)
qed

text \<open>
  One call with its round of the server. The environment says how the sockets cut the bytes: what \<^verbatim>\<open>send\<close>
  takes from the client, the pieces the server reads, what it can write, and the pieces the client receives.
\<close>

record call_env =
  e_sends :: "client_send list"
  e_chunks :: "bytes list"
  e_now :: timespec
  e_sock :: "send_result list"
  e_recvs :: "client_recv list"

definition sync_call :: "'z zlib \<Rightarrow> int \<Rightarrow> call_env \<Rightarrow> kv_op \<Rightarrow> CacheClient \<times> EventServer \<Rightarrow> Response cpp \<times> CacheClient \<times> EventServer" where
  "sync_call z fd env x s = (case s of (c, es) \<Rightarrow>
     and_then (client_call x (c\<lparr>sends := e_sends env, recvs := e_recvs env\<rparr>)) (\<lambda>r c.
       and_then (handle_round z [data_event fd (e_chunks env) (e_now env)] (\<lambda>_. e_sock env) es)
         (\<lambda>_ es. (Val r, c, es)) (\<lambda>es. (c, es))) (\<lambda>c. (c, es)))"

fun run_calls :: "'z zlib \<Rightarrow> int \<Rightarrow> call_env list \<Rightarrow> kv_op list \<Rightarrow> CacheClient \<times> EventServer \<Rightarrow>
    Response list cpp \<times> CacheClient \<times> EventServer" where
  "run_calls z fd (env # envs) (x # xs) s =
     and_then (sync_call z fd env x s) (\<lambda>r s. and_then (run_calls z fd envs xs s) (\<lambda>rs s. (Val (r # rs), s)) id) id"
| "run_calls z fd envs xs s = (Val [], s)"

text \<open>The sockets carry the bytes of the request and of the result.\<close>

definition env_ok :: "call_env \<Rightarrow> kv_op \<Rightarrow> kv_res \<Rightarrow> bool" where
  "env_ok env x r \<longleftrightarrow> sends_ok (e_sends env) (length (text_of x) + 1) \<and>
     concat (e_chunks env) = text_of x @ [MSG_SEPARATOR] \<and> length (e_chunks env) \<le> READ_MAX_ATTEMPTS \<and>
     kernel_ok (e_sock env) (length (text_res r) + 1) \<and> length (text_res r) + 1 \<le> taken (e_sock env) \<and>
     received (e_recvs env) = text_res r @ [MSG_SEPARATOR]"

lemma sync_call_text:
  assumes "at_rest z fd es" "idle_client c" "op_plain x" "length (text_of x) < 2 ^ 30"
    and run: "exec_op (server_ops z) x (cache es) = (Val r, sv1)" and r: "MSG_SEPARATOR \<notin> set (text_res r)" and env: "env_ok env x r"
  shows "\<exists>c' es'. sync_call z fd env x (c, es) =
      (Val (response_of \<lparr>pr_id = nextRequestId c, pr_type = op_type x\<rparr> (text_res r)), c', es') \<and> at_rest z fd es' \<and>
    idle_client c' \<and> nextRequestId c' = nextRequestId c + 1 \<and> cache es' = sv1 \<and>
    wire_out c' = wire_out c @ text_of x @ [MSG_SEPARATOR] \<and>
    sent_to es' fd = sent_to es fd @ text_res r @ [MSG_SEPARATOR]"
proof -
  note e = env [unfolded env_ok_def]
  let ?c = "c\<lparr>sends := e_sends env, recvs := e_recvs env\<rparr>"
  have "idle_client ?c" using assms(2) by (simp add: idle_client_def)
  from call_answered [OF this assms(3), of "text_res r"] e r
  obtain c' where "client_call x ?c = (Val (response_of \<lparr>pr_id = nextRequestId c, pr_type = op_type x\<rparr> (text_res r)), c')"
    "idle_client c'" "nextRequestId c' = nextRequestId c + 1" "wire_out c' = wire_out c @ text_of x @ [MSG_SEPARATOR]" by auto
  moreover obtain es' where "handle_round z [data_event fd (e_chunks env) (e_now env)] (\<lambda>_. e_sock env) es = (Val (), es')"
    "at_rest z fd es'" "cache es' = sv1" "sent_to es' = (sent_to es)(fd := sent_to es fd @ text_res r @ [MSG_SEPARATOR])"
    using round_custom [OF assms(1,3,4) run, of "e_chunks env" "\<lambda>_. e_sock env" "e_now env"] e by auto
  ultimately show ?thesis by (simp add: sync_call_def)
qed

lemma sync_call_answered:
  assumes "at_rest z fd es" "idle_client c" "op_plain x" "length (text_of x) < 2 ^ 30"
    and run: "exec_op (server_ops z) x (cache es) = (Val r, sv1)" and r: "plain_res r" and env: "env_ok env x r"
  shows "\<exists>c' es'. sync_call z fd env x (c, es) = (Val (report (nextRequestId c) x r), c', es') \<and> at_rest z fd es' \<and>
    idle_client c' \<and> nextRequestId c' = nextRequestId c + 1 \<and> cache es' = sv1 \<and>
    wire_out c' = wire_out c @ text_of x @ [MSG_SEPARATOR] \<and>
    sent_to es' fd = sent_to es fd @ text_res r @ [MSG_SEPARATOR]"
  using sync_call_text [OF assms(1-4) run text_res_sep [OF r] env] response_report [OF exec_fits [OF run] r] by simp

lemma run_ops_length: "run_ops ops xs s = (Val rs, s') \<Longrightarrow> length rs = length xs"
  by (induction xs arbitrary: s rs) (auto simp: and_then_def split: prod.splits cpp.splits)

fun reports :: "u64 \<Rightarrow> kv_op list \<Rightarrow> kv_res list \<Rightarrow> Response list" where
  "reports rid (x # xs) (r # rs) = report rid x r # reports (rid + 1) xs rs"
| "reports rid xs rs = []"

lemma run_calls_answered:
  assumes "at_rest z fd es" "idle_client c" "list_all op_plain xs" "list_all (\<lambda>x. length (text_of x) < 2 ^ 30) xs"
    and "run_ops (server_ops z) xs (cache es) = (Val rs, sv1)" "list_all plain_res rs"
    and "length envs = length xs" "length rs = length xs" "list_all (\<lambda>(env, x, r). env_ok env x r) (zip envs (zip xs rs))"
  shows "\<exists>c' es'. run_calls z fd envs xs (c, es) = (Val (reports (nextRequestId c) xs rs), c', es') \<and> at_rest z fd es' \<and>
    idle_client c' \<and> cache es' = sv1 \<and>
    wire_out c' = wire_out c @ concat (map (\<lambda>x. text_of x @ [MSG_SEPARATOR]) xs) \<and>
    sent_to es' fd = sent_to es fd @ concat (map (\<lambda>r. text_res r @ [MSG_SEPARATOR]) rs)"
  using assms
proof (induction xs arbitrary: c es rs envs)
  case Nil
  then show ?case by (cases envs) auto
next
  case (Cons x xs)
  obtain env envs' r rs' where eq: "envs = env # envs'" "rs = r # rs'"
    using Cons.prems(7,8) by (cases envs; cases rs) auto
  obtain sv where step: "exec_op (server_ops z) x (cache es) = (Val r, sv)" "run_ops (server_ops z) xs sv = (Val rs', sv1)"
    using Cons.prems(5) eq(2) by (auto simp: and_then_def split: prod.splits cpp.splits)
  from sync_call_answered [OF Cons.prems(1,2) _ _ step(1), where env = env] Cons.prems eq obtain c1 es1 where
    "sync_call z fd env x (c, es) = (Val (report (nextRequestId c) x r), c1, es1)" "at_rest z fd es1" "idle_client c1"
    "nextRequestId c1 = nextRequestId c + 1" "cache es1 = sv" "wire_out c1 = wire_out c @ text_of x @ [MSG_SEPARATOR]"
    "sent_to es1 fd = sent_to es fd @ text_res r @ [MSG_SEPARATOR]" by auto
  moreover from Cons.IH [OF this(2,3), of rs' envs'] this Cons.prems eq step(2) obtain c' es' where
    "run_calls z fd envs' xs (c1, es1) = (Val (reports (nextRequestId c1) xs rs'), c', es')" "at_rest z fd es'" "idle_client c'"
    "cache es' = sv1" "wire_out c' = wire_out c1 @ concat (map (\<lambda>x. text_of x @ [MSG_SEPARATOR]) xs)"
    "sent_to es' fd = sent_to es1 fd @ concat (map (\<lambda>r. text_res r @ [MSG_SEPARATOR]) rs')" by auto
  ultimately show ?case using eq by simp
qed

end
