(* ===== verification/Client_Pipeline.thy ===== *)
theory Client_Pipeline
  imports Client_Server
begin

section \<open>Pipelined requests of the client\<close>

text \<open>
  Any number of requests can be queued and flushed before the first response is read, and the responses
  waited for in any order.
\<close>

fun enqueue_all :: "kv_op list \<Rightarrow> CacheClient \<Rightarrow> u64 list cpp \<times> CacheClient" where
  "enqueue_all [] c = (Val [], c)"
| "enqueue_all (x # xs) c =
     and_then (enqueue_op x c) (\<lambda>rid c. and_then (enqueue_all xs c) (\<lambda>rids c. (Val (rid # rids), c)) id) id"

fun wait_all :: "u64 list \<Rightarrow> CacheClient \<Rightarrow> Response list cpp \<times> CacheClient" where
  "wait_all [] c = (Val [], c)"
| "wait_all (rid # rids) c =
     and_then (waitFor rid c) (\<lambda>r c. and_then (wait_all rids c) (\<lambda>rs c. (Val (r # rs), c)) id) id"

definition ids_from :: "u64 \<Rightarrow> nat \<Rightarrow> u64 list" where
  "ids_from rid n = map (\<lambda>i. rid + of_nat i) [0..<n]"

definition requests_from :: "u64 \<Rightarrow> kv_op list \<Rightarrow> PendingRequest list" where
  "requests_from rid xs = map2 (\<lambda>i x. \<lparr>pr_id = i, pr_type = op_type x\<rparr>) (ids_from rid (length xs)) xs"

lemma ids_from_Suc: "ids_from rid (Suc n) = rid # ids_from (rid + 1) n"
proof -
  have "map (\<lambda>i. rid + of_nat i) [Suc 0..<Suc n] = map (\<lambda>i. rid + 1 + of_nat i) [0..<n]"
    unfolding map_Suc_upt [symmetric] by (simp add: comp_def)
  then show ?thesis by (simp add: ids_from_def upt_conv_Cons del: upt_Suc)
qed

lemma length_ids [simp]: "length (ids_from rid n) = n" "map pr_id (requests_from rid xs) = ids_from rid (length xs)"
  by (simp_all add: ids_from_def requests_from_def map2_map_map [symmetric] map_snd_zip comp_def split_def map_fst_zip del: map2_map_map)

lemma enqueue_all_ok:
  assumes "connected c" "list_all op_plain xs"
  shows "enqueue_all xs c = (Val (ids_from (nextRequestId c) (length xs)), c\<lparr>nextRequestId := nextRequestId c + of_nat (length xs),
    pending := pending c @ requests_from (nextRequestId c) xs,
    sendBuffer := sendBuffer c @ concat (map (\<lambda>x. text_of x @ [MSG_SEPARATOR]) xs)\<rparr>)"
  using assms
proof (induction xs arbitrary: c)
  case Nil
  then show ?case by (simp add: ids_from_def requests_from_def)
next
  case (Cons x xs)
  then show ?case by (simp add: enqueue_op_ok ids_from_Suc requests_from_def ac_simps)
qed

lemma ids_unat:
  assumes "unat rid + n \<le> 2 ^ 64 - 1" "i < n"
  shows "unat (rid + of_nat i :: u64) = unat rid + i" "unat (rid + of_nat n :: u64) = unat rid + n"
proof -
  have "unat (rid + of_nat j :: u64) = unat rid + j" if "j \<le> n" for j
    using that assms(1) by (simp add: unat_word_ariths unat_of_nat)
  then show "unat (rid + of_nat i :: u64) = unat rid + i" "unat (rid + of_nat n :: u64) = unat rid + n" using assms(2) by simp_all
qed

lemma ids_distinct:
  assumes "unat rid + n \<le> 2 ^ 64 - 1"
  shows "distinct (ids_from rid n)" "k \<in> set (ids_from rid n) \<Longrightarrow> k < rid + of_nat n"
proof -
  have "inj_on (\<lambda>i. rid + of_nat i :: u64) {0..<n}"
    using ids_unat(1) [OF assms] by (metis (no_types, lifting) add_left_cancel atLeastLessThan_iff inj_onI)
  then show "distinct (ids_from rid n)" by (simp add: ids_from_def distinct_map)
  show "k < rid + of_nat n" if "k \<in> set (ids_from rid n)"
    using that ids_unat [OF assms] by (auto simp: ids_from_def word_less_nat_alt)
qed

lemma wait_all_answers:
  assumes "client_wf c" "awaits c ms rest" "distinct rids" "set rids \<subseteq> dom (answers c ms)"
  shows "\<exists>c'. wait_all rids c = (Val (map (the \<circ> answers c ms) rids), c')"
  using assms
proof (induction rids arbitrary: c ms)
  case (Cons rid rids)
  then obtain r where r: "answers c ms rid = Some r" by auto
  from waitFor_answers [OF Cons.prems(1,2) r] obtain c1 ms1 where w: "waitFor rid c = (Val r, c1)" "client_wf c1"
    "awaits c1 ms1 rest" "answers c1 ms1 = (answers c ms)(rid := None)" by blast
  have "set rids \<subseteq> dom (answers c1 ms1)" using Cons.prems(3,4) w(4) by auto
  from Cons.IH [OF w(2,3) _ this] Cons.prems(3) obtain c' where "wait_all rids c1 = (Val (map (the \<circ> answers c1 ms1) rids), c')" by auto
  moreover have "map (the \<circ> answers c1 ms1) rids = map (the \<circ> answers c ms) rids" using Cons.prems(3) w(4) by auto
  ultimately show ?case using w(1) r by simp
qed simp

subsection \<open>Properties\<close>

definition ex_client :: CacheClient where
  "ex_client = (new_client default_options [] [] ResolveFailed)\<lparr>socketFd := 3, open_fds := {3}\<rparr>"

lemma ex_client_idle: "idle_client ex_client" "nextRequestId ex_client = 1"
  by (simp_all add: idle_client_def ex_client_def new_client_def connected_def INVALID_SOCKET_HANDLE_def)

text \<open>
  C27: Pipelining: requests that are queued together are written back to back in order with one flush, get
  different identifiers, and when their responses arrive, cut at any places, \<open>waitFor\<close> returns for every
  identifier, in whatever order the identifiers are asked for, the response with the message that arrived
  at the place of its request. This holds until the 64-bit counter of identifiers is used up.
\<close>

theorem pipelined_responses:
  assumes "idle_client c" and "list_all op_plain xs" and "unat (nextRequestId c) + length xs \<le> 2 ^ 64 - 1"
    and "sends_ok (sends c) (length (concat (map (\<lambda>x. text_of x @ [MSG_SEPARATOR]) xs)))"
    and "received (recvs c) = concat (map (\<lambda>m. m @ [MSG_SEPARATOR]) ms) @ rest"
    and "length ms = length xs" and "list_all (\<lambda>m. MSG_SEPARATOR \<notin> set m) ms"
    and "distinct order" and "set order \<subseteq> {..<length xs}"
  shows "\<exists>ids c1 c2 c3. enqueue_all xs c = (Val ids, c1) \<and> flush c1 = (Val (), c2) \<and>
    wire_out c2 = wire_out c @ concat (map (\<lambda>x. text_of x @ [MSG_SEPARATOR]) xs) \<and>
    distinct ids \<and> length ids = length xs \<and>
    wait_all (map ((!) ids) order) c2 =
      (Val (map (\<lambda>i. response_of \<lparr>pr_id = ids ! i, pr_type = op_type (xs ! i)\<rparr> (ms ! i)) order), c3)"
proof -
  note i = assms(1) [unfolded idle_client_def]
  let ?n = "nextRequestId c" and ?w = "concat (map (\<lambda>x. text_of x @ [MSG_SEPARATOR]) xs)"
  let ?ids = "ids_from ?n (length xs)" and ?ps = "requests_from ?n xs"
  let ?c1 = "c\<lparr>nextRequestId := ?n + of_nat (length xs), pending := ?ps, sendBuffer := ?w\<rparr>"
  have enq: "enqueue_all xs c = (Val ?ids, ?c1)" using enqueue_all_ok [of c xs] i assms(2) by simp
  obtain ss where fl: "flush ?c1 = (Val (), ?c1\<lparr>sendBuffer := [], sendOffset := 0, wire_out := wire_out c @ ?w, sends := ss\<rparr>)"
    using flush_sends [of ?c1] i assms(4) by auto
  let ?c2 = "?c1\<lparr>sendBuffer := [], sendOffset := 0, wire_out := wire_out c @ ?w, sends := ss\<rparr>"
  note ids = ids_distinct [OF assms(3)]
  have wf: "client_wf ?c2" using ids i by (simp add: client_wf_def)
  have len: "length ?ps = length xs" by (simp add: requests_from_def)
  have aw: "awaits ?c2 ms rest" using i assms(5-7) len by (simp add: awaits_def incoming_def connected_def)
  have ans: "answers ?c2 ms (?ids ! k) = Some (response_of \<lparr>pr_id = ?ids ! k, pr_type = op_type (xs ! k)\<rparr> (ms ! k))"
    if "k < length xs" for k
    using that ids(1) i assms(6) map_of_zip_nth [of ?ids "map2 response_of ?ps ms" k]
    by (simp add: answers_def len) (simp add: requests_from_def)
  have "distinct (map ((!) ?ids) order)"
    using assms(8,9) ids(1) by (auto simp: distinct_map inj_on_def nth_eq_iff_index_eq subset_iff)
  moreover have "set (map ((!) ?ids) order) \<subseteq> dom (answers ?c2 ms)" using assms(9) ans by auto
  ultimately obtain c3 where "wait_all (map ((!) ?ids) order) ?c2 = (Val (map (the \<circ> answers ?c2 ms) (map ((!) ?ids) order)), c3)"
    using wait_all_answers [OF wf aw] by blast
  moreover have "map (the \<circ> answers ?c2 ms) (map ((!) ?ids) order) =
      map (\<lambda>i. response_of \<lparr>pr_id = ?ids ! i, pr_type = op_type (xs ! i)\<rparr> (ms ! i)) order"
    using assms(9) ans by auto
  ultimately show ?thesis using enq fl ids(1)
    by (intro exI [of _ ?ids] exI [of _ ?c1] exI [of _ ?c2] exI [of _ c3]) simp
qed

definition ex_pipeline :: CacheClient where
  "ex_pipeline = ex_client\<lparr>sends := [SendTook 14],
     recvs := [Received ''OK'', RecvInterrupted, Received (MSG_SEPARATOR # ''1'' @ [MSG_SEPARATOR])]\<rparr>"

theorem pipelined_responses_witness:
  "\<exists>ids c1 c2 c3. enqueue_all [Put ''a'' ''1'', Get ''a''] ex_pipeline = (Val ids, c1) \<and> flush c1 = (Val (), c2) \<and>
    wire_out c2 = wire_out ex_pipeline @ concat (map (\<lambda>x. text_of x @ [MSG_SEPARATOR]) [Put ''a'' ''1'', Get ''a'']) \<and>
    distinct ids \<and> length ids = length [Put ''a'' ''1'', Get ''a''] \<and>
    wait_all (map ((!) ids) [1, 0]) c2 =
      (Val (map (\<lambda>i. response_of \<lparr>pr_id = ids ! i, pr_type = op_type ([Put ''a'' ''1'', Get ''a''] ! i)\<rparr> ([''OK'', ''1''] ! i)) [1, 0]), c3)"
proof (rule pipelined_responses)
  show "idle_client ex_pipeline" "unat (nextRequestId ex_pipeline) + length [Put ''a'' ''1'', Get ''a''] \<le> 2 ^ 64 - 1"
    using ex_client_idle by (simp_all add: ex_pipeline_def idle_client_def connected_def)
  show "received (recvs ex_pipeline) = concat (map (\<lambda>m. m @ [MSG_SEPARATOR]) [''OK'', ''1'']) @ []" by (simp add: ex_pipeline_def)
qed (simp_all add: ex_pipeline_def key_ok_def MSG_SEPARATOR_def)


definition ex_env :: "bytes \<Rightarrow> bytes \<Rightarrow> call_env" where
  "ex_env request response = \<lparr>e_sends = [SendTook 3, SendInterrupted, SendTook (length request - 2)],
     e_chunks = [take 2 request, drop 2 request @ [MSG_SEPARATOR]], e_now = zero_time,
     e_sock = [SentBytes 1, SendAgain, SentBytes (length response)], e_recvs = [Received response, Received [MSG_SEPARATOR]]\<rparr>"


text \<open>
  The client cannot always tell an absent key from a stored value: when the value is \<^verbatim>\<open>(nil)\<close> a \<open>get\<close>
  that finds it reports that the key was not found, and when it begins with \<^verbatim>\<open>ERROR:\<close> the client reports
  an error, although the server has found the value.
\<close>

theorem client_misreads_values:
  assumes "at_rest z fd es" and "idle_client c" and "op_plain (Get k)" and "length k < 2 ^ 20"
    and "exec_op (server_ops z) (Get k) (cache es) = (Val (Found (Some v)), sv1)" and "MSG_SEPARATOR \<notin> set v"
    and "env_ok env (Get k) (Found (Some v))" and "v = ''(nil)'' \<and> code = ResNotFound \<or> has_prefix ''ERROR:'' v \<and> code = ResError"
  shows "\<exists>resp s. sync_call z fd env (Get k) (c, es) = (Val resp, s) \<and> result resp = code \<and> res_value resp = []"
proof -
  have "length (text_of (Get k)) < 2 ^ 30" "MSG_SEPARATOR \<notin> set (text_res (Found (Some v)))" using assms(4,6) by simp_all
  from sync_call_text [OF assms(1-3) this(1) assms(5) this(2) assms(7)] obtain s where
    "sync_call z fd env (Get k) (c, es) = (Val (response_of \<lparr>pr_id = nextRequestId c, pr_type = ReqGet\<rparr> v), s)" by auto
  moreover have "result (response_of \<lparr>pr_id = nextRequestId c, pr_type = ReqGet\<rparr> v) = code"
    "res_value (response_of \<lparr>pr_id = nextRequestId c, pr_type = ReqGet\<rparr> v) = []"
    using assms(8) by (auto simp: response_of_def interpretResult_def has_prefix_def Let_def)
  ultimately show ?thesis by blast
qed

theorem client_misreads_values_witness:
  "\<exists>resp s. sync_call store_zlib 5 (ex_env ''GET a'' ''(nil)'') (Get ''a'') (ex_client, stored_loop ''(nil)'') = (Val resp, s) \<and>
    result resp = ResNotFound \<and> res_value resp = []"
proof -
  have run: "fst (run_ops ops10 [Put ''a'' ''(nil)''] store10) = Val [Stored True]" by code_simp
  note st = stored_loop_ok [OF run]
  have "fst (kvs_fetch store_zlib ''a'' (after10 [Put ''a'' ''(nil)''])) = Val (Some ''(nil)'')" by code_simp
  then obtain sv1 where x: "exec_op (server_ops store_zlib) (Get ''a'') (cache (stored_loop ''(nil)'')) = (Val (Found (Some ''(nil)'')), sv1)"
    using st(2) by (cases "kvs_fetch store_zlib ''a'' (after10 [Put ''a'' ''(nil)''])") (simp add: server_ops_def on_store_def)
  show ?thesis
    by (rule client_misreads_values [OF _ ex_client_idle(1) _ _ x])
      (simp_all add: st env_ok_def ex_env_def key_ok_def READ_MAX_ATTEMPTS_def MAX_REQUEST_SIZE_def READ_BUFFER_SIZE_def MSG_SEPARATOR_def)
qed

end
