(* ===== verification/Client_Safety.thy ===== *)
theory Client_Safety
  imports Client_Pipeline
begin

section \<open>What the client refuses and what it holds\<close>

text \<open>
  The checks of keys and values keep every request a single message of the protocol, and the client holds
  at most the one socket it is connected with.
\<close>

subsection \<open>No injection of requests\<close>

fun admissible :: "kv_op \<Rightarrow> bool" where
  "admissible (Put k v) = (key_ok k \<and> MSG_SEPARATOR \<notin> set k \<and> MSG_SEPARATOR \<notin> set v)"
| "admissible (Get k) = (key_ok k \<and> MSG_SEPARATOR \<notin> set k)"
| "admissible (Del k) = (key_ok k \<and> MSG_SEPARATOR \<notin> set k)"

text \<open>A program that goes on after a refused request.\<close>

fun try_all :: "kv_op list \<Rightarrow> CacheClient \<Rightarrow> bool list \<times> CacheClient" where
  "try_all [] c = ([], c)"
| "try_all (x # xs) c = (case enqueue_op x c of (r, c) \<Rightarrow> case try_all xs c of (bs, c) \<Rightarrow>
     ((case r of Val _ \<Rightarrow> True | _ \<Rightarrow> False) # bs, c))"

lemma enqueue_op_cases:
  assumes "connected c"
  shows "admissible x \<Longrightarrow> \<exists>rid c'. enqueue_op x c = (Val rid, c') \<and> connected c' \<and> sendBuffer c' = sendBuffer c @ wire (CustomMsg (text_of x))"
    and "\<not> admissible x \<Longrightarrow> \<exists>m. enqueue_op x c = (Exn m, c)"
proof -
  note defs = enqueueSet_def enqueueGet_def enqueueDelete_def enqueue_def ensureConnected_def validateKey_def appendCommand_def
    Let_def key_ok_def
  show "admissible x \<Longrightarrow> \<exists>rid c'. enqueue_op x c = (Val rid, c') \<and> connected c' \<and> sendBuffer c' = sendBuffer c @ wire (CustomMsg (text_of x))"
    using assms by (cases x) (simp_all add: defs)
  show "\<not> admissible x \<Longrightarrow> \<exists>m. enqueue_op x c = (Exn m, c)"
    using assms by (cases x) (auto simp: defs)
qed

lemma admissible_wire: "admissible x \<Longrightarrow> wire_ok (CustomMsg (text_of x))"
  by (cases x) (simp_all add: RESP_ARRAY_PREFIX_def MSG_SEPARATOR_def)

lemma try_all_buffer:
  assumes "connected c"
  shows "\<exists>c'. try_all xs c = (map admissible xs, c') \<and> connected c' \<and>
    sendBuffer c' = sendBuffer c @ concat (map (wire \<circ> (CustomMsg \<circ> text_of)) (filter admissible xs))"
  using assms
proof (induction xs arbitrary: c)
  case (Cons x xs)
  show ?case
  proof (cases "admissible x")
    case True
    then obtain rid c1 where "enqueue_op x c = (Val rid, c1)" "connected c1" "sendBuffer c1 = sendBuffer c @ wire (CustomMsg (text_of x))"
      using enqueue_op_cases(1) [OF Cons.prems] by blast
    then show ?thesis using Cons.IH [of c1] True by auto
  next
    case False
    then obtain m where "enqueue_op x c = (Exn m, c)" using enqueue_op_cases(2) [OF Cons.prems] by blast
    then show ?thesis using Cons.IH [OF Cons.prems] False by auto
  qed
qed simp

text \<open>
  C28: Requests cannot be injected through keys and values: whatever keys and values a program passes, the
  client accepts exactly the calls whose key is not empty and has no space and no separator and whose value
  has no separator, and the server's parser splits the bytes that are queued into exactly one custom
  request for each accepted call, in order.
\<close>

theorem client_requests_not_injectable:
  assumes "connected c" and "sendBuffer c = []" and "length (concat (map (\<lambda>x. text_of x @ [MSG_SEPARATOR]) xs)) < 2 ^ 63"
  shows "\<exists>c' buf. try_all xs c = (map admissible xs, c') \<and>
    parse_loop (sendBuffer c') 0 [] = Some (Val (Parsed buf (length (sendBuffer c'))
      (map (\<lambda>x. \<lparr>payload = text_of x, req_protocol = Custom\<rparr>) (filter admissible xs))))"
proof -
  let ?ms = "map (CustomMsg \<circ> text_of) (filter admissible xs)"
  obtain c' where c': "try_all xs c = (map admissible xs, c')" "sendBuffer c' = concat (map wire ?ms)"
    using try_all_buffer [OF assms(1), of xs] assms(2) by (auto simp: comp_def)
  have ok: "list_all wire_ok ?ms" using admissible_wire by (auto simp: list_all_iff)
  have "length (concat (map (\<lambda>x. text_of x @ [MSG_SEPARATOR]) (filter admissible xs))) \<le>
      length (concat (map (\<lambda>x. text_of x @ [MSG_SEPARATOR]) xs))" by (induction xs) simp_all
  then have "length ([] @ concat (map wire ?ms) @ []) < 2 ^ 63" using assms(3) by (simp add: comp_def)
  from parse_loop_wire [OF ok this, of "[]"] obtain buf where
    "parse_loop (concat (map wire ?ms)) 0 [] = parse_loop buf (length buf) (map view_of ?ms)" "length buf = length (concat (map wire ?ms))"
    by auto
  then have "parse_loop (sendBuffer c') 0 [] = Some (Val (Parsed buf (length (sendBuffer c')) (map view_of ?ms)))"
    using c'(2) by (simp add: parse_loop.simps [of buf])
  then show ?thesis using c'(1) by (auto simp: comp_def)
qed

theorem client_requests_not_injectable_witness:
  "\<exists>c' buf. try_all [Put ''a'' (''1'' @ [MSG_SEPARATOR] @ ''DEL b''), Get ''a'', Del ''b c''] ex_client = ([False, True, False], c') \<and>
    parse_loop (sendBuffer c') 0 [] = Some (Val (Parsed buf (length (sendBuffer c')) [\<lparr>payload = ''GET a'', req_protocol = Custom\<rparr>]))"
proof -
  let ?xs = "[Put ''a'' (''1'' @ [MSG_SEPARATOR] @ ''DEL b''), Get ''a'', Del ''b c'']"
  have "map admissible ?xs = [False, True, False]" "filter admissible ?xs = [Get ''a'']" by (simp_all add: key_ok_def MSG_SEPARATOR_def)
  moreover have "connected ex_client" "sendBuffer ex_client = []" using ex_client_idle by (simp_all add: idle_client_def)
  moreover have "length (concat (map (\<lambda>x. text_of x @ [MSG_SEPARATOR]) ?xs)) < 2 ^ 63" by simp
  ultimately show ?thesis using client_requests_not_injectable [of ex_client ?xs] by auto
qed

subsection \<open>Sockets\<close>

text \<open>
  The operations of one client object in any order; the environment can change between them. \<^verbatim>\<open>socket\<close>
  never returns -1 as a descriptor.
\<close>

fun valid_peers :: "resolution \<Rightarrow> bool" where
  "valid_peers ResolveFailed = True"
| "valid_peers (Resolved rps) = list_all (\<lambda>a. case a of Connects fd \<Rightarrow> fd \<noteq> INVALID_SOCKET_HANDLE | _ \<Rightarrow> True) rps"

inductive client_step :: "CacheClient \<Rightarrow> CacheClient \<Rightarrow> bool" where
  env: "valid_peers ps \<Longrightarrow> client_step c (c\<lparr>sends := ss, recvs := rs, peers := ps\<rparr>)"
| connect: "connect c = (r, c') \<Longrightarrow> client_step c c'"
| close: "client_step c (close c)"
| enqueue: "enqueue type key val c = (i, c') \<Longrightarrow> client_step c c'"
| flush: "flush c = (r, c') \<Longrightarrow> client_step c c'"
| receive: "receiveResponse c = (q, c') \<Longrightarrow> client_step c c'"
| waits: "waitFor rid c = (q, c') \<Longrightarrow> client_step c c'"

inductive client_reach :: "CacheClient \<Rightarrow> bool" where
  init: "valid_peers ps \<Longrightarrow> client_reach (new_client opts ss rs ps)"
| step: "client_reach c \<Longrightarrow> client_step c c' \<Longrightarrow> client_reach c'"

definition owns_socket :: "CacheClient \<Rightarrow> bool" where
  "owns_socket c \<longleftrightarrow> open_fds c = (if connected c then {socketFd c} else {}) \<and> valid_peers (peers c)"

text \<open>Operations that leave the socket alone.\<close>

definition same_socket :: "CacheClient \<Rightarrow> CacheClient \<Rightarrow> bool" where
  "same_socket c c' \<longleftrightarrow> open_fds c' = open_fds c \<and> socketFd c' = socketFd c \<and> peers c' = peers c"

lemma owns_same: "owns_socket c \<Longrightarrow> same_socket c c' \<Longrightarrow> owns_socket c'"
  by (simp add: owns_socket_def same_socket_def connected_def)

lemma same_socket_refl [simp]: "same_socket c c"
  by (simp add: same_socket_def)

lemma same_socket_trans: "same_socket a b \<Longrightarrow> same_socket b c \<Longrightarrow> same_socket a c"
  by (simp add: same_socket_def)

lemma flush_loop_socket: "flush_loop ss c = (r, c') \<Longrightarrow> same_socket c c'"
proof (induction ss arbitrary: c)
  case Nil
  then show ?case by (subst (asm) flush_loop.simps) (auto simp: same_socket_def split: if_splits)
next
  case (Cons s ss)
  show ?case
  proof (cases "sendOffset c < length (sendBuffer c)")
    case True
    then show ?thesis using Cons.prems
      by (subst (asm) flush_loop.simps) (cases s; auto simp: same_socket_def dest!: Cons.IH)
  qed (use Cons.prems in \<open>subst (asm) flush_loop.simps, auto simp: same_socket_def\<close>)
qed

lemma receive_loop_socket: "receive_loop rs c = (r, c') \<Longrightarrow> same_socket c c'"
proof (induction rs arbitrary: c)
  case (Cons x rs)
  then show ?case
  proof (cases "MSG_SEPARATOR \<in> set (receiveBuffer c)")
    case False
    then show ?thesis using Cons by (cases x) (fastforce simp: receive_loop_wait same_socket_def split: if_splits)+
  qed (auto simp: receive_loop_parse Let_def same_socket_def split: list.splits)
next
  case Nil
  then show ?case
    by (cases "MSG_SEPARATOR \<in> set (receiveBuffer c)") (auto simp: receive_loop_wait receive_loop_parse Let_def same_socket_def split: list.splits)
qed

lemma connect_loop_owns:
  assumes "open_fds c = {}" "\<not> connected c" "valid_peers (Resolved rps)"
  shows "open_fds (connect_loop rps c) = (if connected (connect_loop rps c) then {socketFd (connect_loop rps c)} else {}) \<and>
    peers (connect_loop rps c) = peers c"
  using assms by (induction rps c rule: connect_loop.induct) (auto simp: connected_def Let_def)

lemma connect_owns: "owns_socket c \<Longrightarrow> connect c = (r, c') \<Longrightarrow> owns_socket c'"
  using connect_loop_owns [of c] by (auto simp: connect_def owns_socket_def Let_def split: if_splits resolution.splits)

lemma ensure_owns: "owns_socket c \<Longrightarrow> ensureConnected c = (r, c') \<Longrightarrow> owns_socket c'"
  using connect_owns by (auto simp: ensureConnected_def split: if_splits)

lemma receiveResponse_owns:
  assumes "owns_socket c" "receiveResponse c = (q, c')"
  shows "owns_socket c'"
proof -
  obtain r c1 where e: "ensureConnected c = (r, c1)" by fastforce
  have "owns_socket c1" using ensure_owns [OF assms(1) e] .
  then show ?thesis using assms(2) e owns_same receive_loop_socket
    by (cases r) (auto simp: receiveResponse_def split: if_splits)
qed

lemma wait_loop_owns: "owns_socket c \<Longrightarrow> wait_loop rid c = (q, c') \<Longrightarrow> owns_socket c'"
proof (induction rid c rule: wait_loop.induct)
  case (1 rid c)
  obtain r c1 where e: "receiveResponse c = (r, c1)" by fastforce
  have c1: "owns_socket c1" using receiveResponse_owns [OF "1.prems"(1) e] .
  then have keep: "owns_socket (keep_response resp c1)" for resp
    by (auto simp: keep_response_def owns_socket_def connected_def split: option.splits)
  show ?case using "1.prems"(2) e c1 "1.IH" [OF e [symmetric]] keep
    by (cases r) (auto simp: wait_loop.simps [of rid c] split: if_splits)
qed

lemma client_step_owns:
  assumes "client_step c c'" "owns_socket c"
  shows "owns_socket c'"
  using assms
proof cases
  case (enqueue type key val i)
  obtain r c1 where e: "ensureConnected c = (r, c1)" by fastforce
  have "owns_socket c1" using ensure_owns [OF assms(2) e] .
  moreover have "same_socket c1 c'" if "r = Val u" for u
    using enqueue e that by (cases "validateKey key") (auto simp: enqueue_def Let_def appendCommand_def same_socket_def split: if_splits option.splits)
  ultimately show ?thesis using enqueue e owns_same by (cases r) (auto simp: enqueue_def)
next
  case (flush r)
  obtain q c1 where e: "ensureConnected c = (q, c1)" by fastforce
  obtain q2 c2 where l: "flush_loop (sends c1) c1 = (q2, c2)" by fastforce
  have "owns_socket c1" "same_socket c1 c2" using ensure_owns [OF assms(2) e] flush_loop_socket [OF l] by simp_all
  then have "owns_socket c1" "owns_socket c2" "owns_socket (c2\<lparr>sendBuffer := [], sendOffset := 0\<rparr>)"
    using owns_same [of c1] by (simp_all add: same_socket_def)
  then show ?thesis using flush e l by (cases q; cases q2) (auto simp: flush_def split: if_splits)
next
  case (waits rid q)
  show ?thesis
  proof (cases "completedResponses c rid")
    case None
    then have "wait_loop rid c = (q, c')" using waits by (simp add: waitFor_def popCompleted_def)
    then show ?thesis using wait_loop_owns assms(2) by blast
  next
    case (Some resp)
    then have "same_socket c c'" using waits by (auto simp: waitFor_def popCompleted_def same_socket_def)
    then show ?thesis using owns_same assms(2) by blast
  qed
next
  case (receive q)
  then show ?thesis using receiveResponse_owns assms(2) by blast
next
  case (connect r)
  then show ?thesis using connect_owns assms(2) by blast
qed (use assms(2) in \<open>auto simp: owns_socket_def connected_def close_def moveFrom_def Let_def\<close>)

text \<open>
  The client never leaks a socket: in every state that its operations reach, in any order and with any
  results of the system calls, failed connection attempts included, the descriptors it has open are exactly
  the one it is connected with, or none.
\<close>

theorem client_owns_one_socket:
  assumes "client_reach c"
  shows "open_fds c = (if connected c then {socketFd c} else {})"
proof -
  have "owns_socket c" using assms
  proof induction
    case (init ps opts ss rs)
    then show ?case by (simp add: owns_socket_def new_client_def connected_def)
  qed (rule client_step_owns)
  then show ?thesis by (simp add: owns_socket_def)
qed

theorem client_owns_one_socket_witness:
  "open_fds (snd (connect (new_client default_options [] [] (Resolved [NoSocket, NoConnect 3, Connects 4])))) = {4}"
proof -
  let ?c = "new_client default_options [] [] (Resolved [NoSocket, NoConnect 3, Connects 4])"
  have "client_reach ?c" by (rule client_reach.init) (simp add: INVALID_SOCKET_HANDLE_def)
  moreover obtain r c' where c': "connect ?c = (r, c')" by fastforce
  ultimately have "client_reach c'" by (blast intro: client_reach.step client_step.connect)
  from client_owns_one_socket [OF this] c' show ?thesis
    by (auto simp: connect_def new_client_def connected_def INVALID_SOCKET_HANDLE_def Let_def)
qed

subsection \<open>Several client objects\<close>

text \<open>
  Clients are moved, not copied. The move constructor and the assignment give the new object and what is left
  of the old one; an object that is assigned to is closed first, unless it is assigned to itself. The
  destructor closes, too; what it leaves open is lost.
\<close>

definition CacheClient_move :: "CacheClient \<Rightarrow> CacheClient \<times> CacheClient" where
  "CacheClient_move other = moveFrom other"

definition CacheClient_assign :: "CacheClient \<Rightarrow> CacheClient \<Rightarrow> CacheClient \<times> CacheClient" where
  "CacheClient_assign this other =
     (let closed = close this; (new, old) = moveFrom other in (new\<lparr>open_fds := open_fds closed \<union> open_fds new\<rparr>, old))"

definition CacheClient_dtor :: "CacheClient \<Rightarrow> int set" where
  "CacheClient_dtor c = open_fds (close c)"

record client_world =
  objects :: "nat \<rightharpoonup> CacheClient"
  lost_fds :: "int set"

text \<open>The kernel never gives out a descriptor that another object has open.\<close>

inductive world_step :: "client_world \<Rightarrow> client_world \<Rightarrow> bool" where
  create: "objects w x = None \<Longrightarrow> valid_peers ps \<Longrightarrow> world_step w (w\<lparr>objects := (objects w)(x \<mapsto> new_client opts ss rs ps)\<rparr>)"
| call: "objects w x = Some c \<Longrightarrow> client_step c c' \<Longrightarrow>
    (\<And>y d. y \<noteq> x \<Longrightarrow> objects w y = Some d \<Longrightarrow> open_fds c' \<inter> open_fds d \<subseteq> open_fds c) \<Longrightarrow> world_step w (w\<lparr>objects := (objects w)(x \<mapsto> c')\<rparr>)"
| move: "objects w x = Some c \<Longrightarrow> objects w y = None \<Longrightarrow> CacheClient_move c = (new, old) \<Longrightarrow>
    world_step w (w\<lparr>objects := (objects w)(x \<mapsto> old, y \<mapsto> new)\<rparr>)"
| assign: "objects w x = Some this \<Longrightarrow> objects w y = Some other \<Longrightarrow> x \<noteq> y \<Longrightarrow> CacheClient_assign this other = (new, old) \<Longrightarrow>
    world_step w (w\<lparr>objects := (objects w)(x \<mapsto> new, y \<mapsto> old)\<rparr>)"
| assign_self: "objects w x = Some this \<Longrightarrow> world_step w w"
| destroy: "objects w x = Some c \<Longrightarrow> world_step w (w\<lparr>objects := (objects w)(x := None), lost_fds := lost_fds w \<union> CacheClient_dtor c\<rparr>)"

inductive world_reach :: "client_world \<Rightarrow> bool" where
  start: "world_reach \<lparr>objects = Map.empty, lost_fds = {}\<rparr>"
| step: "world_reach w \<Longrightarrow> world_step w w' \<Longrightarrow> world_reach w'"

definition apart :: "(nat \<rightharpoonup> CacheClient) \<Rightarrow> bool" where
  "apart os \<longleftrightarrow> (\<forall>x y c d. x \<noteq> y \<longrightarrow> os x = Some c \<longrightarrow> os y = Some d \<longrightarrow> open_fds c \<inter> open_fds d = {})"

definition world_inv :: "client_world \<Rightarrow> bool" where
  "world_inv w \<longleftrightarrow> lost_fds w = {} \<and> (\<forall>x c. objects w x = Some c \<longrightarrow> owns_socket c) \<and> apart (objects w)"

lemma close_opens_nothing: "owns_socket c \<Longrightarrow> open_fds (close c) = {}"
  by (simp add: owns_socket_def close_def connected_def Let_def)

lemma moveFrom_sockets:
  assumes "owns_socket c" "moveFrom c = (new, old)"
  shows "owns_socket new" "owns_socket old" "open_fds new = open_fds c" "open_fds old = {}"
  using assms by (auto simp: moveFrom_def owns_socket_def connected_def)

lemma assign_sockets:
  assumes "owns_socket this" "owns_socket other" "CacheClient_assign this other = (new, old)"
  shows "owns_socket new" "owns_socket old" "open_fds new = open_fds other" "open_fds old = {}"
  using assms close_opens_nothing [OF assms(1)] by (auto simp: CacheClient_assign_def moveFrom_def owns_socket_def connected_def Let_def)

text \<open>An object that is set to one with no descriptors, or with those of another one that has given them away.\<close>

lemma apart_upd:
  assumes "apart os" "\<And>y d. y \<noteq> x \<Longrightarrow> os y = Some d \<Longrightarrow> open_fds c \<inter> open_fds d = {}"
  shows "apart (os(x \<mapsto> c))"
  unfolding apart_def
proof (intro allI impI)
  fix u v a b
  assume *: "u \<noteq> v" "(os(x \<mapsto> c)) u = Some a" "(os(x \<mapsto> c)) v = Some b"
  consider "u = x" "v \<noteq> x" | "u \<noteq> x" "v = x" | "u \<noteq> x" "v \<noteq> x" using *(1) by blast
  then show "open_fds a \<inter> open_fds b = {}"
  proof cases
    case 1
    then show ?thesis using * assms(2) [of v b] by simp
  next
    case 2
    then show ?thesis using * assms(2) [of u a] by (simp add: Int_commute)
  next
    case 3
    then show ?thesis using * assms(1) unfolding apart_def by auto
  qed
qed

lemma world_step_inv:
  assumes "world_step w w'" "world_inv w"
  shows "world_inv w'"
proof -
  have inv: "lost_fds w = {}" "\<And>x c. objects w x = Some c \<Longrightarrow> owns_socket c" "apart (objects w)" using assms(2) by (simp_all add: world_inv_def)
  have sep: "open_fds c \<inter> open_fds d = {}" if "objects w x = Some c" "y \<noteq> x" "objects w y = Some d" for x y c d
    using inv(3) that unfolding apart_def by metis
  from assms(1) show ?thesis
  proof cases
    case (create x ps opts ss rs)
    have "apart ((objects w)(x \<mapsto> new_client opts ss rs ps))" by (rule apart_upd [OF inv(3)]) (simp add: new_client_def)
    moreover have "owns_socket (new_client opts ss rs ps)" using create by (simp add: owns_socket_def new_client_def connected_def)
    ultimately show ?thesis using create inv(1,2) by (auto simp: world_inv_def)
  next
    case (call x c c')
    have "apart ((objects w)(x \<mapsto> c'))"
      by (rule apart_upd [OF inv(3)]) (use sep [OF call(2)] call(4) in blast)
    moreover have "owns_socket c'" using client_step_owns call(3) inv(2) call(2) by blast
    ultimately show ?thesis using call inv(1,2) by (auto simp: world_inv_def)
  next
    case (move x c y new old)
    note m = moveFrom_sockets [OF inv(2) [OF move(2)] move(4) [unfolded CacheClient_move_def]]
    have "apart ((objects w)(x \<mapsto> old))" by (rule apart_upd [OF inv(3)]) (simp add: m(4))
    then have "apart ((objects w)(x \<mapsto> old, y \<mapsto> new))"
      by (rule apart_upd) (use m(3,4) sep [OF move(2)] in \<open>auto split: if_splits\<close>)
    then show ?thesis using move m(1,2) inv(1,2) by (auto simp: world_inv_def)
  next
    case (assign x this y other new old)
    note m = assign_sockets [OF inv(2) [OF assign(2)] inv(2) [OF assign(3)] assign(5)]
    have "apart ((objects w)(y \<mapsto> old))" by (rule apart_upd [OF inv(3)]) (simp add: m(4))
    then have "apart ((objects w)(y \<mapsto> old, x \<mapsto> new))"
      by (rule apart_upd) (use m(3,4) sep [OF assign(3)] in \<open>auto split: if_splits\<close>)
    then have "apart ((objects w)(x \<mapsto> new, y \<mapsto> old))" using assign(4) by (simp add: fun_upd_twist)
    then show ?thesis using assign m(1,2) inv(1,2) by (auto simp: world_inv_def)
  next
    case (destroy x c)
    have "CacheClient_dtor c = {}" using close_opens_nothing inv(2) [OF destroy(2)] by (simp add: CacheClient_dtor_def)
    moreover have "apart ((objects w)(x := None))" using inv(3) by (simp add: apart_def)
    ultimately show ?thesis using destroy inv(1,2) by (auto simp: world_inv_def)
  qed (use assms(2) in simp)
qed

text \<open>
  C29: The client objects of a program own their sockets: however objects are created, used, moved, assigned,
  also to themselves, and destroyed, in any order and with any results of the system calls, each object has
  exactly the descriptor open that it is connected with, no two objects share one, and none is
  left behind by an object that is assigned to or destroyed.
\<close>

theorem client_objects_own_sockets:
  assumes "world_reach w"
  shows "lost_fds w = {} \<and>
    (\<forall>x c. objects w x = Some c \<longrightarrow> open_fds c = (if connected c then {socketFd c} else {})) \<and>
    (\<forall>x y c d. x \<noteq> y \<longrightarrow> objects w x = Some c \<longrightarrow> objects w y = Some d \<longrightarrow> connected c \<longrightarrow> connected d \<longrightarrow> socketFd c \<noteq> socketFd d)"
proof -
  have inv: "world_inv w" using assms
  proof induction
    case start
    then show ?case by (simp add: world_inv_def apart_def)
  qed (rule world_step_inv)
  then have own: "open_fds c = (if connected c then {socketFd c} else {})" if "objects w x = Some c" for x c
    using that by (simp add: world_inv_def owns_socket_def)
  have "socketFd c \<noteq> socketFd d" if "x \<noteq> y" "objects w x = Some c" "objects w y = Some d" "connected c" "connected d" for x y c d
  proof -
    have "open_fds c \<inter> open_fds d = {}" using inv that(1-3) by (auto simp: world_inv_def apart_def)
    then show ?thesis using own [OF that(2)] own [OF that(3)] that(4,5) by auto
  qed
  then show ?thesis using own inv by (auto simp: world_inv_def)
qed

text \<open>Two clients connect and the first is assigned to the second.\<close>

definition ex_object :: "attempt list \<Rightarrow> CacheClient" where
  "ex_object rps = new_client default_options [] [] (Resolved rps)"

lemma ex_object_connects:
  assumes "fd \<noteq> INVALID_SOCKET_HANDLE"
  shows "\<exists>c. connect (ex_object [NoConnect 3, Connects fd]) = (Val (), c) \<and> open_fds c = {fd} \<and> socketFd c = fd"
  using assms by (simp add: ex_object_def connect_def new_client_def connected_def Let_def)

lemma ex_object_created:
  assumes "world_reach w" "objects w x = None" "fd \<noteq> INVALID_SOCKET_HANDLE" "\<And>y d. objects w y = Some d \<Longrightarrow> fd \<notin> open_fds d"
    and "connect (ex_object [NoConnect 3, Connects fd]) = (Val (), c)" "open_fds c = {fd}"
  shows "world_reach (w\<lparr>objects := (objects w)(x \<mapsto> c)\<rparr>)"
proof -
  let ?w = "w\<lparr>objects := (objects w)(x \<mapsto> ex_object [NoConnect 3, Connects fd])\<rparr>"
  have "world_reach ?w" unfolding ex_object_def
    by (rule world_reach.step [OF assms(1)], rule world_step.create [OF assms(2)]) (use assms(3) in simp)
  moreover have "world_step ?w (?w\<lparr>objects := (objects ?w)(x \<mapsto> c)\<rparr>)"
    by (rule world_step.call [OF _ client_step.connect [OF assms(5)]]) (use assms(4,6) in auto)
  ultimately have "world_reach (?w\<lparr>objects := (objects ?w)(x \<mapsto> c)\<rparr>)" by (rule world_reach.step)
  then show ?thesis by simp
qed

theorem client_objects_own_sockets_witness:
  "\<exists>w c. world_reach w \<and> objects w 2 = Some c \<and> open_fds c = {4} \<and> lost_fds w = {}"
proof -
  obtain c where c: "connect (ex_object [NoConnect 3, Connects 4]) = (Val (), c)" "open_fds c = {4}" "socketFd c = 4"
    using ex_object_connects [of 4] by (auto simp: INVALID_SOCKET_HANDLE_def)
  obtain d where d: "connect (ex_object [NoConnect 3, Connects 5]) = (Val (), d)" "open_fds d = {5}"
    using ex_object_connects [of 5] by (auto simp: INVALID_SOCKET_HANDLE_def)
  let ?w1 = "\<lparr>objects = [1 \<mapsto> c], lost_fds = {}\<rparr> :: client_world"
  let ?w2 = "\<lparr>objects = [1 \<mapsto> c, 2 \<mapsto> d], lost_fds = {}\<rparr> :: client_world"
  have "world_reach ?w1" using ex_object_created [OF world_reach.start _ _ _ c(1,2), of 1] by (simp add: INVALID_SOCKET_HANDLE_def)
  moreover have "5 \<notin> open_fds d'" if "objects ?w1 y = Some d'" for y d' using that c(2) by (simp split: if_splits)
  ultimately have 2: "world_reach ?w2" using ex_object_created [OF _ _ _ _ d, of ?w1 2] by (simp add: INVALID_SOCKET_HANDLE_def)
  obtain new old where a: "CacheClient_assign d c = (new, old)" by fastforce
  let ?w3 = "?w2\<lparr>objects := (objects ?w2)(2 \<mapsto> new, 1 \<mapsto> old)\<rparr>"
  have "world_step ?w2 ?w3" by (rule world_step.assign [OF _ _ _ a]) simp_all
  with 2 have r: "world_reach ?w3" by (rule world_reach.step)
  have "connected new" "socketFd new = 4" using a c(3) by (auto simp: CacheClient_assign_def moveFrom_def connected_def INVALID_SOCKET_HANDLE_def Let_def)
  moreover have "objects ?w3 2 = Some new" by simp
  then have "open_fds new = (if connected new then {socketFd new} else {})" using client_objects_own_sockets [OF r] by blast
  ultimately have "open_fds new = {4}" by simp
  then show ?thesis using r by (intro exI [of _ ?w3] exI [of _ new]) simp
qed

end
