(* ===== verification/Any_Request.thy ===== *)
theory Any_Request
  imports Custom
begin

section \<open>Requests with arbitrary bytes\<close>

text \<open>
  What a request does whose payload is any bytes at all: malformed, cut or padded RESP, or any line of
  text. A RESP payload acts as some command of the session specification, a line of text as some call
  or as an error, and the invariant of the server holds on.
\<close>

subsection \<open>The command splitter on any bytes\<close>

lemma read_crlf_decimal_read_len: "read_crlf_decimal buf i any v = Some r \<Longrightarrow> read_len buf i any v = Some r"
proof (induction buf i any v rule: read_crlf_decimal.induct)
  case (1 buf idx any val)
  then show ?case
    by (subst read_len.simps) (subst (asm) (2) read_crlf_decimal.simps, auto simp: Let_def split: if_splits)
qed

definition get_part :: "nat \<Rightarrow> RespCommandParts \<Rightarrow> nat option" where
  "get_part k parts = (if k = 0 then command parts else if k = 1 then part_key parts else part_value parts)"

lemma get_set_part: "k \<le> 2 \<Longrightarrow> i \<le> 2 \<Longrightarrow> get_part k (set_part i p parts) = (if k = i then Some p else get_part k parts)"
  by (auto simp: get_part_def set_part_def)

lemma readable_write:
  assumes "part_str d p \<noteq> None"
  shows "part_str (d[j := NUL]) p \<noteq> None"
proof -
  obtain q where p: "p = Some q" "NUL \<in> set (drop q d)" using assms by (auto simp: part_str_def split: option.splits if_splits)
  then obtain m where "m < length (drop q d)" "drop q d ! m = NUL" by (auto simp: in_set_conv_nth)
  then have "m < length (drop q (d[j := NUL]))" "drop q (d[j := NUL]) ! m = NUL"
    by (simp, cases "j = q + m", simp_all)
  then have "NUL \<in> set (drop q (d[j := NUL]))" by (metis nth_mem)
  then show ?thesis by (simp add: part_str_def p(1))
qed

lemma written_readable: "q \<le> j \<Longrightarrow> j < length d \<Longrightarrow> part_str (d[j := NUL]) (Some q) \<noteq> None"
proof -
  assume "q \<le> j" "j < length d"
  then have "drop q (d[j := NUL]) ! (j - q) = NUL" "j - q < length (drop q (d[j := NUL]))" by simp_all
  then have "NUL \<in> set (drop q (d[j := NUL]))" by (metis nth_mem)
  then show ?thesis by (simp add: part_str_def)
qed

lemma command_loop_any:
  assumes "short_numbers d" "length d < 2 ^ 62" "i + n \<le> 3" "\<forall>k<i. part_str d (get_part k parts) \<noteq> None"
  shows "command_loop n i d idx parts = Val None \<or>
    (\<exists>d' parts'. command_loop n i d idx parts = Val (Some (d', parts')) \<and> length d' = length d \<and>
      (\<forall>k<i + n. part_str d' (get_part k parts') \<noteq> None))"
  using assms
proof (induction n arbitrary: i d idx parts)
  case (Suc n)
  show ?case
  proof (cases "length d \<le> idx \<or> d ! idx \<noteq> RESP_BULK_PREFIX \<or> read_crlf_decimal d (idx + 1) False 0 = None")
    case False
    then obtain s len where r: "read_crlf_decimal d (idx + 1) False 0 = Some (s, len)" "idx < length d"
      "d ! idx = RESP_BULK_PREFIX" by auto
    have b: "s \<le> length d" "len < 10 ^ 18"
      using read_len_bounds [of d "idx + 1" 0 False 0 s len] read_crlf_decimal_read_len [OF r(1)] r(2) Suc.prems(1) by auto
    then have sz: "size_mod (s + len + 2) = s + len + 2" "size_mod (s + len) = s + len" "size_mod (s + len + 1) = s + len + 1"
      using Suc.prems(2) by simp_all
    show ?thesis
    proof (cases "length d < s + len + 2 \<or> crlf_at d (s + len) \<noteq> Val True")
      case True
      then show ?thesis using r sz by (auto simp: Let_def crlf_at_def split: if_splits)
    next
      case room: False
      let ?d = "d[s + len := NUL]" and ?parts = "set_part i s parts"
      have readable: "\<forall>k<Suc i. part_str ?d (get_part k ?parts) \<noteq> None"
        using Suc.prems(3,4) readable_write [of d] written_readable [of s "s + len" d] room
        by (auto simp: get_set_part less_Suc_eq)
      show ?thesis
        using Suc.IH [OF short_numbers_write [OF Suc.prems(1)] _ _ readable] Suc.prems(2,3) r sz room by (auto simp: Let_def)
    qed
  qed auto
qed auto

lemma parseRespCommand_any:
  assumes "short_numbers pl" "length pl < 2 ^ 62"
  shows "parseRespCommand pl = Val None \<or>
    (\<exists>d parts. parseRespCommand pl = Val (Some (d, parts)) \<and> length d = length pl \<and> 1 \<le> argc parts \<and> argc parts \<le> 3 \<and>
      (\<forall>k<argc parts. part_str d (get_part k parts) \<noteq> None))"
proof (cases "\<exists>idx n. pl \<noteq> [] \<and> hd pl = RESP_ARRAY_PREFIX \<and> read_crlf_decimal pl 1 False 0 = Some (idx, n) \<and> 1 \<le> n \<and> n \<le> 3")
  case True
  then obtain idx n where r: "pl \<noteq> []" "hd pl = RESP_ARRAY_PREFIX" "read_crlf_decimal pl 1 False 0 = Some (idx, n)" "1 \<le> n" "n \<le> 3"
    by blast
  have "get_part k (parts\<lparr>argc := m\<rparr>) = get_part k parts" for k m parts by (simp add: get_part_def)
  then show ?thesis
    using command_loop_any [OF assms, of 0 n no_parts idx] r by (auto simp: parseRespCommand_def)
qed (auto simp: parseRespCommand_def split: option.splits prod.splits)

subsection \<open>RESP requests\<close>

lemma part_str_cstr: "part_str d p = Some s \<Longrightarrow> cstr s = s \<and> length s \<le> length d"
proof -
  assume "part_str d p = Some s"
  then obtain i where "s = cstr (drop i d)" by (auto simp: part_str_def split: option.splits if_splits)
  moreover have "length (cstr (drop i d)) \<le> length (drop i d)" unfolding cstr_def by (rule length_takeWhile_le)
  ultimately show ?thesis by simp
qed

lemma any_resp_simulates:
  assumes inv: "conn_inv z c L" and pl: "short_numbers pl" "length pl < 2 ^ 30"
  shows "\<exists>args. simulates z (arena (server c)) L (processRequestSync z \<lparr>payload = pl, req_protocol = RESP\<rparr> c)
    (spec_step z (command_of args) (tx_of (respTransaction c), server c))"
proof -
  have "length pl < 2 ^ 62" using pl(2) by (rule less_trans) simp
  from parseRespCommand_any [OF pl(1) this] show ?thesis
  proof (elim disjE exE conjE)
    assume "parseRespCommand pl = Val None"
    then have "processRequestSync z \<lparr>payload = pl, req_protocol = RESP\<rparr> c = resp_error UNABLE_TO_PARSE_REQUEST_ERROR c"
      by (simp add: processRequestSync_def processResp_def)
    moreover have "command_of [] = CBad UNABLE_TO_PARSE_REQUEST_ERROR" by (simp add: command_of_def)
    ultimately show ?thesis using resp_error_simulates [OF inv] by metis
  next
    fix d parts
    assume p: "parseRespCommand pl = Val (Some (d, parts))" and len: "length d = length pl"
      and n: "1 \<le> argc parts" "argc parts \<le> 3" and parts: "\<forall>k<argc parts. part_str d (get_part k parts) \<noteq> None"
    define args where "args = map (\<lambda>k. the (part_str d (get_part k parts))) [0..<argc parts]"
    have at: "part_str d (get_part k parts) = Some (cstr (args ! k)) \<and> length (args ! k) < 2 ^ 30" if "k < argc parts" for k
    proof -
      have part: "part_str d (get_part k parts) = Some (args ! k)" using parts that by (auto simp: args_def)
      then show ?thesis using part_str_cstr [OF part] len pl(2) by simp
    qed
    have args: "length args = argc parts" "args \<noteq> []" using n by (auto simp: args_def)
    then have "part_str d (command parts) = Some (cstr (hd args))"
      "2 \<le> length args \<Longrightarrow> part_str d (part_key parts) = Some (cstr (args ! 1))"
      "length args = 3 \<Longrightarrow> part_str d (part_value parts) = Some (cstr (args ! 2))"
      using at [of 0] at [of 1] at [of 2] n by (simp_all add: get_part_def hd_conv_nth)
    moreover have "list_all (\<lambda>a. length a < 2 ^ 30) args" using at args(1) by (simp add: list_all_length)
    ultimately have "simulates z (arena (server c)) L (respCommand z (length args) (cstr (hd args)) (part_str d (part_key parts)) (part_str d (part_value parts)) c)
        (spec_step z (command_of args) (tx_of (respTransaction c), server c))"
      using n args(1) by (intro respCommand_simulates [OF inv]) simp_all
    moreover have "processRequestSync z \<lparr>payload = pl, req_protocol = RESP\<rparr> c =
        respCommand z (length args) (cstr (hd args)) (part_str d (part_key parts)) (part_str d (part_value parts)) c"
      using p \<open>part_str d (command parts) = _\<close> args(1) by (simp add: processRequestSync_def processResp_def)
    ultimately show ?thesis by metis
  qed
qed

subsection \<open>Requests of the custom protocol\<close>

text \<open>A response that is sound next to the packets that wait, with the invariant of the connection after it.\<close>

definition safe_reply :: "'z zlib \<Rightarrow> nat set \<Rightarrow> RespInlineArena \<Rightarrow> reply \<Rightarrow> bool" where
  "safe_reply z L a0 rep \<longleftrightarrow>
     (\<exists>p c. rep = (Val p, c) \<and> conn_inv z c (L \<union> owned_slots p) \<and> owned_slots p \<inter> L = {} \<and> keeps L a0 (arena (server c))) \<or>
     (\<exists>c. rep = (Exn limit_message, c))"

lemma simulates_safe: "simulates z a0 L rep spec \<Longrightarrow> safe_reply z L a0 rep"
  by (auto simp: simulates_def safe_reply_def carries_def conn_inv_def server_inv_def split: prod.splits cpp.splits)

lemma custom_packet_slots: "owned_slots (makeCustomResponse ptr s) = {}"
  by (simp add: owned_slots_def makeCustomResponse_def new_packet_def)

lemma safe_custom_error: "conn_inv z c L \<Longrightarrow> safe_reply z L (arena (server c)) (custom_error m c)"
  by (auto simp: safe_reply_def custom_error_def respond_def on_arena_def makeErrorResponse_def custom_packet_slots
      conn_inv_def keeps_def server_inv_def)

lemma safe_text:
  assumes inv: "conn_inv z c L" and e: "exec_op (server_ops z) x (server c) = (Val r, sv1)" "shards_inv z sv1"
    and p: "shows_text sv1 p t"
  shows "safe_reply z L (arena (server c)) (Val p, c\<lparr>server := sv1\<rparr>)"
  using assms exec_op_arena_same [OF e(1)]
  by (auto simp: safe_reply_def conn_inv_def server_inv_def keeps_def shows_text_def owned_slots_def)

lemma safe_custom_get:
  assumes inv: "conn_inv z c L"
  shows "safe_reply z L (arena (server c)) (run_handler (handleGet z key Custom) c)"
proof -
  have sh: "shards_inv z (server c)" using inv by (simp add: conn_inv_def server_inv_def)
  obtain p r sv1 where g: "handleGet z key Custom (server c) = (Val p, sv1)" "shows_text sv1 p (text_res r)"
    "exec_op (server_ops z) (Get (cstr key)) (server c) = (Val r, sv1)"
    using handleGet_Custom [OF sh, of key] by blast
  moreover have "shards_inv z sv1" using sv.exec_safe [OF sh, of "Get (cstr key)"] g(3) by auto
  ultimately show ?thesis using safe_text [OF inv g(3)] by (simp add: run_handler_def)
qed

lemma safe_custom_del:
  assumes inv: "conn_inv z c L"
  shows "safe_reply z L (arena (server c)) (run_handler (handleDel z key Custom) c)"
proof -
  have sh: "shards_inv z (server c)" using inv by (simp add: conn_inv_def server_inv_def)
  obtain b sv1 where e: "on_store (kvs_del_key (cstr key)) (cstr key) (server c) = (Val b, sv1)" "shards_inv z sv1"
    using sv.remove_safe [OF sh, of "cstr key"] by (auto simp: server_ops_def)
  then have ex: "exec_op (server_ops z) (Del (cstr key)) (server c) = (Val (Removed b), sv1)" by (simp add: server_ops_def)
  show ?thesis
    using safe_text [OF inv ex e(2) shown [of "Removed b" b sv1]] handleDel_Custom [OF sh, of key] e(1)
    by (simp add: run_handler_def)
qed

lemma safe_custom_set:
  assumes inv: "conn_inv z c L" and sz: "length v < 2 ^ 30"
  shows "safe_reply z L (arena (server c)) (run_handler (handleSet z key v Custom) c)"
proof -
  have sh: "shards_inv z (server c)" using inv by (simp add: conn_inv_def server_inv_def)
  have "length (cstr v) \<le> length v" by (simp add: cstr_def length_takeWhile_le)
  then have "set_args (cstr key) (cstr v)" using sz by (intro set_args_cstr) (simp add: set_sizes_def)
  from sv.put_safe [OF sh this] consider
    b sv1 where "on_store (kvs_set_key z (cstr key) (cstr v)) (cstr key) (server c) = (Val b, sv1)" "shards_inv z sv1"
    | sv1 where "on_store (kvs_set_key z (cstr key) (cstr v)) (cstr key) (server c) = (Exn limit_message, sv1)"
    by (auto simp: server_ops_def)
  then show ?thesis
  proof cases
    case (1 b sv1)
    then have ex: "exec_op (server_ops z) (Put (cstr key) (cstr v)) (server c) = (Val (Stored b), sv1)" by (simp add: server_ops_def)
    show ?thesis
      using safe_text [OF inv ex 1(2) shown [of "Stored b" b sv1]] handleSet_Custom [OF sh, of key v] 1(1)
      by (simp add: run_handler_def)
  qed (simp add: safe_reply_def run_handler_def handleSet_Custom [OF sh])
qed

lemma safe_custom:
  assumes inv: "conn_inv z c L" and pl: "length pl < 2 ^ 30"
  shows "safe_reply z L (arena (server c)) (processRequestSync z \<lparr>payload = pl, req_protocol = Custom\<rparr> c)"
proof (cases "split_space pl")
  case None
  then show ?thesis using safe_custom_error [OF inv] by (simp add: processRequestSync_def processCustom_def)
next
  case (Some cr)
  then obtain cmd rest where sp: "split_space pl = Some (cmd, rest)" by (cases cr) simp
  have drops: "length w < 2 ^ 30" if "split_space u = Some (t, w)" "length u < 2 ^ 30" for t u w
    using that length_dropWhile_le [of "\<lambda>ch. ch \<noteq> CHR '' ''" u] by (auto simp: split_space_def split: if_splits)
  note rest = drops [OF sp pl]
  have val: "length (cstr v) < 2 ^ 30" if "split_space rest = Some (k, v)" for k v
    using drops [OF that rest] length_takeWhile_le [of "\<lambda>c. c \<noteq> NUL" v] by (simp add: cstr_def)
  show ?thesis
    using sp safe_custom_error [OF inv] safe_custom_get [OF inv] safe_custom_del [OF inv] safe_custom_set [OF inv] val
    by (auto simp: processRequestSync_def processCustom_def Let_def split: option.splits prod.splits)
qed

subsection \<open>Batches of any requests\<close>

definition any_request_ok :: "RequestView \<Rightarrow> bool" where
  "any_request_ok req \<longleftrightarrow> length (payload req) < 2 ^ 30 \<and> (req_protocol req = Custom \<or> short_numbers (payload req))"

lemma any_request_safe:
  assumes "conn_inv z c L" and "any_request_ok req"
  shows "safe_reply z L (arena (server c)) (processRequestSync z req c)"
proof (cases req)
  case (fields pl pr)
  show ?thesis
  proof (cases pr)
    case RESP
    then obtain args where "simulates z (arena (server c)) L (processRequestSync z req c)
        (spec_step z (command_of args) (tx_of (respTransaction c), server c))"
      using any_resp_simulates [OF assms(1), of pl] assms(2) fields by (auto simp: any_request_ok_def)
    then show ?thesis by (rule simulates_safe)
  next
    case Custom
    then show ?thesis using safe_custom [OF assms(1), of pl] assms(2) fields by (simp add: any_request_ok_def)
  qed
qed


definition ex_bad_requests :: "RequestView list" where
  "ex_bad_requests = [\<lparr>payload = ''*2 GET'', req_protocol = RESP\<rparr>, \<lparr>payload = ''PUT a b'', req_protocol = Custom\<rparr>,
     \<lparr>payload = ''SET '', req_protocol = Custom\<rparr>]"


end
