(* ===== verification/Sockutils.thy ===== *)
theory Sockutils
  imports Prelude
begin

unbundle bit_operations_syntax

section \<open>Socket options (src/src/server/sockutils.cpp)\<close>

text \<open>
  The two helpers that set options of a socket, on the part of the socket they change: its status
  flags and the sizes of its buffers. Whether a system call succeeds is an argument; a call that
  fails changes nothing.
\<close>

record sock_options =
  status_flags :: u32
  rcv_buf :: "int option"
  snd_buf :: "int option"

definition O_NONBLOCK :: u32 where "O_NONBLOCK = 2048"

definition SOCK_BUF_SEND :: u32 where "SOCK_BUF_SEND = 1"
definition SOCK_BUF_RECEIVE :: u32 where "SOCK_BUF_RECEIVE = 2"
definition SOCK_BUF_ALL :: u32 where "SOCK_BUF_ALL = 4"

definition setNonBlocking :: "bool \<Rightarrow> bool \<Rightarrow> sock_options \<Rightarrow> int \<times> sock_options" where
  "setNonBlocking getfl_ok setfl_ok s =
     (if \<not> getfl_ok then (- 1, s)
      else let flags = status_flags s
        in if \<not> setfl_ok then (- 1, s)
           else (0, s\<lparr>status_flags := flags OR O_NONBLOCK\<rparr>))"

definition setSocketBuffers :: "bool \<Rightarrow> bool \<Rightarrow> int \<Rightarrow> u32 \<Rightarrow> sock_options \<Rightarrow> int \<times> sock_options" where
  "setSocketBuffers rcv_ok snd_ok bufSize flags s0 =
     (let (r1, s1) = (if flags AND SOCK_BUF_RECEIVE \<noteq> 0 \<or> flags AND SOCK_BUF_ALL \<noteq> 0
            then (if rcv_ok then (0, s0\<lparr>rcv_buf := Some bufSize\<rparr>) else (- 1, s0)) else (0, s0))
      in if flags AND SOCK_BUF_SEND \<noteq> 0 \<or> flags AND SOCK_BUF_ALL \<noteq> 0
         then (if snd_ok then (r1, s1\<lparr>snd_buf := Some bufSize\<rparr>) else (- 1, s1)) else (r1, s1))"

text \<open>A socket is non-blocking afterwards exactly when 0 is returned or it was before; no other flag changes.\<close>

lemma setNonBlocking_result:
  assumes "setNonBlocking g s so = (r, so')"
  shows "(r = 0 \<or> r = - 1 \<and> so' = so) \<and> (r = 0 \<longrightarrow> status_flags so' AND O_NONBLOCK = O_NONBLOCK) \<and>
    status_flags so' AND NOT O_NONBLOCK = status_flags so AND NOT O_NONBLOCK \<and>
    rcv_buf so' = rcv_buf so \<and> snd_buf so' = snd_buf so"
proof -
  have "(x OR O_NONBLOCK) AND O_NONBLOCK = O_NONBLOCK" "(x OR O_NONBLOCK) AND NOT O_NONBLOCK = x AND NOT O_NONBLOCK" for x
    by (rule bit_word_eqI, auto simp: bit_simps)+
  then show ?thesis
    using assms by (auto simp: setNonBlocking_def Let_def split: if_splits)
qed

text \<open>
  With \<^verbatim>\<open>SOCK_BUF_ALL\<close>, as the server calls it, both buffers are asked for and -1 reports that one was
  refused. The header documents the argument as 0 for sending, 1 for receiving and 2 for both; with
  these values the code sets nothing, the send buffer only and the receive buffer only.
\<close>

lemma setSocketBuffers_all:
  "setSocketBuffers rok sok n SOCK_BUF_ALL s =
    (if rok \<and> sok then 0 else - 1, s\<lparr>rcv_buf := (if rok then Some n else rcv_buf s), snd_buf := (if sok then Some n else snd_buf s)\<rparr>)"
  by (cases s) (auto simp: setSocketBuffers_def SOCK_BUF_ALL_def SOCK_BUF_RECEIVE_def SOCK_BUF_SEND_def)

lemma setSocketBuffers_documented:
  "setSocketBuffers True True n 0 s = (0, s)"
  "setSocketBuffers True True n 1 s = (0, s\<lparr>snd_buf := Some n\<rparr>)"
  "setSocketBuffers True True n 2 s = (0, s\<lparr>rcv_buf := Some n\<rparr>)"
  by (simp_all add: setSocketBuffers_def SOCK_BUF_ALL_def SOCK_BUF_RECEIVE_def SOCK_BUF_SEND_def)

end
