(* ===== verification/Env.thy ===== *)
theory Env
  imports Server_Init
begin

section \<open>Settings from the environment (src/src/env.hpp, src/src/main.cpp)\<close>

text \<open>
  \<^verbatim>\<open>getFromEnv\<close> at the types that \<^verbatim>\<open>main\<close> uses it at, the C functions it calls, and the settings \<^verbatim>\<open>main\<close>
  reads. The environment is a map from names to texts. \<^verbatim>\<open>std::exit(1)\<close> for a required variable that is
  missing is the result \<open>ExitMissing\<close>; \<^verbatim>\<open>atoll\<close> of a number that \<^verbatim>\<open>long long\<close> does not hold is
  undefined behaviour. \<^verbatim>\<open>uint_fast32_t\<close> and \<^verbatim>\<open>size_t\<close> have 64 bits on the machines the project builds for.
\<close>

type_synonym environment = "string \<rightharpoonup> bytes"

datatype 'a env_result = EnvVal 'a | ExitMissing string | EnvUB

fun env_then :: "'a env_result \<Rightarrow> ('a \<Rightarrow> 'b env_result) \<Rightarrow> 'b env_result" where
  "env_then (EnvVal a) f = f a"
| "env_then (ExitMissing v) f = ExitMissing v"
| "env_then EnvUB f = EnvUB"

subsection \<open>\<^verbatim>\<open>strtoull\<close> and \<^verbatim>\<open>atoll\<close>\<close>

definition is_space :: "char \<Rightarrow> bool" where
  "is_space c \<longleftrightarrow> c = CHR '' '' \<or> 9 \<le> (of_char c :: nat) \<and> (of_char c :: nat) \<le> 13"

text \<open>White space, a sign and the longest run of digits: the sign and the magnitude.\<close>

definition read_sign :: "bytes \<Rightarrow> bool \<times> bytes" where
  "read_sign s = (case s of
       c # cs \<Rightarrow> if c = CHR ''-'' then (True, cs) else if c = CHR ''+'' then (False, cs) else (False, s)
     | [] \<Rightarrow> (False, []))"

definition magnitude_of :: "bytes \<Rightarrow> nat" where
  "magnitude_of s = foldl (\<lambda>v c. v * 10 + digit_val c) 0 (takeWhile is_digit s)"

definition scan_number :: "bytes \<Rightarrow> bool \<times> nat" where
  "scan_number s = (let (neg, ds) = read_sign (dropWhile is_space s) in (neg, magnitude_of ds))"

definition strtoull :: "bytes \<Rightarrow> u64" where
  "strtoull s = (let (neg, v) = scan_number s
     in if 2 ^ 64 \<le> v then - 1 else if neg then - of_nat v else of_nat v)"

definition atoll :: "bytes \<Rightarrow> int option" where
  "atoll s = (let (neg, v) = scan_number s; n = (if neg then - int v else int v)
     in if - (2 ^ 63) \<le> n \<and> n < 2 ^ 63 then Some n else None)"

subsection \<open>\<^verbatim>\<open>getFromEnv\<close>\<close>

text \<open>
  \<^verbatim>\<open>if constexpr\<close> picks the first branch whose condition holds of the type. For \<^verbatim>\<open>bool\<close>, which is integral
  and unsigned, that is the branch for unsigned integers: the number is converted, and the later
  branch that compares with the texts 1 and true is never compiled.
\<close>

definition or_default :: "string \<Rightarrow> bool \<Rightarrow> 'a \<Rightarrow> 'a env_result" where
  "or_default name isRequired defaultVal = (if isRequired then ExitMissing name else EnvVal defaultVal)"

definition getFromEnv_int :: "environment \<Rightarrow> string \<Rightarrow> bool \<Rightarrow> int \<Rightarrow> int env_result" where
  "getFromEnv_int env name isRequired defaultVal = (case env name of
       Some s \<Rightarrow> (case atoll s of Some n \<Rightarrow> EnvVal (sint (word_of_int n :: u32)) | None \<Rightarrow> EnvUB)
     | None \<Rightarrow> or_default name isRequired defaultVal)"

definition getFromEnv_uint :: "environment \<Rightarrow> string \<Rightarrow> bool \<Rightarrow> nat \<Rightarrow> nat env_result" where
  "getFromEnv_uint env name isRequired defaultVal = (case env name of
       Some s \<Rightarrow> EnvVal (unat (strtoull s))
     | None \<Rightarrow> or_default name isRequired defaultVal)"

definition getFromEnv_bool :: "environment \<Rightarrow> string \<Rightarrow> bool \<Rightarrow> bool \<Rightarrow> bool env_result" where
  "getFromEnv_bool env name isRequired defaultVal = (case env name of
       Some s \<Rightarrow> EnvVal (strtoull s \<noteq> 0)
     | None \<Rightarrow> or_default name isRequired defaultVal)"

definition getFromEnv_text :: "environment \<Rightarrow> string \<Rightarrow> bool \<Rightarrow> bytes \<Rightarrow> bytes env_result" where
  "getFromEnv_text env name isRequired defaultVal = (case env name of
       Some s \<Rightarrow> EnvVal s
     | None \<Rightarrow> or_default name isRequired defaultVal)"

subsection \<open>The settings of \<^verbatim>\<open>main\<close>\<close>

definition int_text :: "int \<Rightarrow> bytes" where
  "int_text n = (if n < 0 then CHR ''-'' # u64_to_ascii (nat (- n)) else u64_to_ascii (nat n))"

definition main_metrics_url :: "environment \<Rightarrow> bytes env_result" where
  "main_metrics_url env =
     env_then (getFromEnv_text env ''METRICS_HOST'' True [])
       (\<lambda>metricsHost. env_then (getFromEnv_int env ''METRICS_PORT'' True 0)
          (\<lambda>metricsPort. EnvVal (metricsHost @ '':'' @ int_text metricsPort)))"

definition main_settings :: "environment \<Rightarrow> ServerSettings env_result" where
  "main_settings env =
     env_then (getFromEnv_int env ''SERVER_PORT'' True 0)
       (\<lambda>serverPort. env_then (getFromEnv_uint env ''NUM_SHARDS'' False 24)
       (\<lambda>numShards. env_then (getFromEnv_int env ''SOCK_BUF_SIZE'' False 1048576)
       (\<lambda>sockBufferSize. env_then (getFromEnv_uint env ''CONN_QUEUE_LIMIT'' False 1048576)
       (\<lambda>connQueueLimit. env_then (getFromEnv_bool env ''ENABLE_COMPRESSION'' False True)
       (\<lambda>enableCompression. env_then (getFromEnv_uint env ''RESP_INLINE_CAPACITY'' False 255)
       (\<lambda>respInlineCapacity. EnvVal
          \<lparr>set_port = serverPort, set_numShards = numShards, sockBuffer = sockBufferSize,
           connQueueLimit = connQueueLimit, enableCompression = enableCompression,
           respInlineCapacity = respInlineCapacity\<rparr>))))))"

subsection \<open>Numbers survive their text\<close>

lemma digit_not_sign: "is_digit c \<Longrightarrow> \<not> is_space c \<and> c \<noteq> CHR ''-'' \<and> c \<noteq> CHR ''+''"
  by (auto simp: is_digit_def is_space_def)

lemma magnitude_of_ascii: "magnitude_of (u64_to_ascii v) = v"
proof (induction v rule: less_induct)
  case (less v)
  have tw: "takeWhile is_digit (u64_to_ascii w) = u64_to_ascii w" for w
    using u64_to_ascii_digits [of w] by (simp add: list_all_iff)
  show ?case
    using less.IH [of "v div 10"] digit_char [of "v mod 10"] digit_char [of v]
    unfolding magnitude_of_def tw by (subst u64_to_ascii_rec) (auto simp: tw)
qed

lemma u64_to_ascii_head: "\<exists>c cs. u64_to_ascii v = c # cs \<and> is_digit c"
  using u64_to_ascii_digits [of v] u64_to_ascii_ne [of v] by (cases "u64_to_ascii v") auto

lemma scan_number_ascii: "scan_number (u64_to_ascii v) = (False, v)"
  using u64_to_ascii_head [of v] magnitude_of_ascii [of v] digit_not_sign
  by (auto simp: scan_number_def read_sign_def)

lemma scan_number_negative: "scan_number (CHR ''-'' # u64_to_ascii v) = (True, v)"
  by (simp add: scan_number_def read_sign_def is_space_def magnitude_of_ascii)

lemma atoll_int_text: "- (2 ^ 63) \<le> n \<Longrightarrow> n < 2 ^ 63 \<Longrightarrow> atoll (int_text n) = Some n"
  by (auto simp: atoll_def int_text_def scan_number_ascii scan_number_negative)

lemma strtoull_ascii: "v < 2 ^ 64 \<Longrightarrow> unat (strtoull (u64_to_ascii v)) = v"
  by (simp add: strtoull_def scan_number_ascii unat_of_nat)

definition fits_int :: "int \<Rightarrow> bool" where
  "fits_int n \<longleftrightarrow> - (2 ^ 31) \<le> n \<and> n < 2 ^ 31"

lemma getFromEnv_int_text: "env name = Some (int_text n) \<Longrightarrow> fits_int n \<Longrightarrow> getFromEnv_int env name req d = EnvVal n"
proof -
  assume "env name = Some (int_text n)" and n: "fits_int n"
  moreover have "atoll (int_text n) = Some n"
    using n by (intro atoll_int_text) (simp_all add: fits_int_def)
  moreover have "sint (word_of_int n :: u32) = n"
    using n by (simp add: fits_int_def signed_of_int signed_take_bit_int_eq_self)
  ultimately show ?thesis by (simp add: getFromEnv_int_def)
qed

text \<open>The environment that spells out settings, a Boolean as 1 or 0.\<close>

definition settings_env :: "ServerSettings \<Rightarrow> environment" where
  "settings_env st =
     [''SERVER_PORT'' \<mapsto> int_text (set_port st), ''NUM_SHARDS'' \<mapsto> u64_to_ascii (set_numShards st),
      ''SOCK_BUF_SIZE'' \<mapsto> int_text (sockBuffer st), ''CONN_QUEUE_LIMIT'' \<mapsto> u64_to_ascii (connQueueLimit st),
      ''ENABLE_COMPRESSION'' \<mapsto> (if enableCompression st then ''1'' else ''0''),
      ''RESP_INLINE_CAPACITY'' \<mapsto> u64_to_ascii (respInlineCapacity st)]"

definition settings_fit :: "ServerSettings \<Rightarrow> bool" where
  "settings_fit st \<longleftrightarrow> fits_int (set_port st) \<and> fits_int (sockBuffer st) \<and> set_numShards st < 2 ^ 64 \<and>
     connQueueLimit st < 2 ^ 64 \<and> respInlineCapacity st < 2 ^ 64"

lemmas number_simps = scan_number_def read_sign_def magnitude_of_def is_digit_def is_space_def digit_val_def

lemma strtoull_flag: "strtoull ''1'' \<noteq> 0" "strtoull ''0'' = 0"
  by (simp_all add: strtoull_def number_simps)



text \<open>
  No word turns compression on: when \<^verbatim>\<open>ENABLE_COMPRESSION\<close> holds a text that does not start with a
  digit, a sign or white space, such as true, and the settings can be read, then compression is off.
\<close>

theorem compression_word_disables:
  assumes "env ''ENABLE_COMPRESSION'' = Some (c # cs)" and "\<not> is_digit c" "\<not> is_space c" "c \<notin> set ''+-''"
    and "main_settings env = EnvVal st"
  shows "\<not> enableCompression st"
proof -
  have "strtoull (c # cs) = 0"
    using assms(2-4) by (simp add: strtoull_def scan_number_def read_sign_def magnitude_of_def)
  then have "getFromEnv_bool env ''ENABLE_COMPRESSION'' False True = EnvVal False"
    using assms(1) by (simp add: getFromEnv_bool_def)
  then show ?thesis
    using assms(5) unfolding main_settings_def
    by (cases "getFromEnv_int env ''SERVER_PORT'' True 0"; cases "getFromEnv_uint env ''NUM_SHARDS'' False 24";
        cases "getFromEnv_int env ''SOCK_BUF_SIZE'' False 1048576"; cases "getFromEnv_uint env ''CONN_QUEUE_LIMIT'' False 1048576";
        cases "getFromEnv_uint env ''RESP_INLINE_CAPACITY'' False 255") auto
qed

theorem compression_word_disables_witness:
  "\<exists>st. main_settings [''SERVER_PORT'' \<mapsto> ''9001'', ''ENABLE_COMPRESSION'' \<mapsto> ''true''] = EnvVal st \<and> \<not> enableCompression st"
proof -
  let ?env = "[''SERVER_PORT'' \<mapsto> ''9001'', ''ENABLE_COMPRESSION'' \<mapsto> ''true'']"
  have "getFromEnv_int ?env ''SERVER_PORT'' True 0 = EnvVal 9001"
    by (simp add: getFromEnv_int_def atoll_def number_simps)
  then have "\<exists>st. main_settings ?env = EnvVal st"
    by (simp add: main_settings_def getFromEnv_int_def getFromEnv_uint_def getFromEnv_bool_def or_default_def)
  then show ?thesis
    using compression_word_disables [of ?env "CHR ''t''" "''rue''"] by (auto simp: is_digit_def is_space_def)
qed

end
