(* ===== verification/Coroutines.thy ===== *)
theory Coroutines
  imports Reader
begin

section \<open>Coroutine types (src/src/server/coroutines.hpp)\<close>

text \<open>
  The task classes own the frame of their coroutine: the frame is destroyed by the destructor, or when
  another task is moved into the object. A handle is the address of a frame, \<open>None\<close> the null handle; the
  frames that exist are a set, and destroying a frame that does not exist is undefined behaviour.
  \<open>task_owner\<close> is the contract the four classes share; its client \<open>run_tasks\<close> is a program that creates,
  moves and destroys tasks in any order. The awaiters are what \<^verbatim>\<open>co_await\<close> is given.
\<close>

type_synonym handle = nat

record frames =
  live_frames :: "handle set"
  next_frame :: handle

definition no_frames :: frames where
  "no_frames = \<lparr>live_frames = {}, next_frame = 0\<rparr>"

definition new_frame :: "frames \<Rightarrow> handle \<times> frames" where
  "new_frame F = (next_frame F, F\<lparr>live_frames := insert (next_frame F) (live_frames F), next_frame := next_frame F + 1\<rparr>)"

definition destroy_frame :: "handle option \<Rightarrow> frames \<Rightarrow> frames cpp" where
  "destroy_frame h F = (case h of
       None \<Rightarrow> Val F
     | Some a \<Rightarrow> if a \<in> live_frames F then Val (F\<lparr>live_frames := live_frames F - {a}\<rparr>) else UB)"

subsection \<open>The task classes\<close>

record AsyncReadTask =
  client_fd :: int
  art_handle :: "handle option"

definition AsyncReadTask_make :: "handle \<Rightarrow> AsyncReadTask" where
  "AsyncReadTask_make h = \<lparr>client_fd = - 1, art_handle = Some h\<rparr>"

definition AsyncReadTask_move :: "AsyncReadTask \<Rightarrow> AsyncReadTask \<times> AsyncReadTask" where
  "AsyncReadTask_move art = (\<lparr>client_fd = client_fd art, art_handle = art_handle art\<rparr>, \<lparr>client_fd = - 1, art_handle = None\<rparr>)"

definition AsyncReadTask_assign :: "AsyncReadTask \<Rightarrow> AsyncReadTask \<Rightarrow> frames \<Rightarrow> ((AsyncReadTask \<times> AsyncReadTask) \<times> frames) cpp" where
  "AsyncReadTask_assign this art F = (case destroy_frame (art_handle this) F of
       Val F' \<Rightarrow> Val ((this\<lparr>client_fd := client_fd art, art_handle := art_handle art\<rparr>, art\<lparr>art_handle := None\<rparr>), F')
     | Exn m \<Rightarrow> Exn m | UB \<Rightarrow> UB | Hang \<Rightarrow> Hang)"

definition AsyncReadTask_delete :: "AsyncReadTask \<Rightarrow> frames \<Rightarrow> frames cpp" where
  "AsyncReadTask_delete this F = destroy_frame (art_handle this) F"

record AsyncSendTask =
  ast_handle :: "handle option"

definition AsyncSendTask_make :: "handle \<Rightarrow> AsyncSendTask" where
  "AsyncSendTask_make h = \<lparr>ast_handle = Some h\<rparr>"

definition AsyncSendTask_move :: "AsyncSendTask \<Rightarrow> AsyncSendTask \<times> AsyncSendTask" where
  "AsyncSendTask_move art = (\<lparr>ast_handle = ast_handle art\<rparr>, art\<lparr>ast_handle := None\<rparr>)"

definition AsyncSendTask_assign :: "AsyncSendTask \<Rightarrow> AsyncSendTask \<Rightarrow> frames \<Rightarrow> ((AsyncSendTask \<times> AsyncSendTask) \<times> frames) cpp" where
  "AsyncSendTask_assign this art F = (case destroy_frame (ast_handle this) F of
       Val F' \<Rightarrow> Val ((this\<lparr>ast_handle := ast_handle art\<rparr>, art\<lparr>ast_handle := None\<rparr>), F')
     | Exn m \<Rightarrow> Exn m | UB \<Rightarrow> UB | Hang \<Rightarrow> Hang)"

definition AsyncSendTask_delete :: "AsyncSendTask \<Rightarrow> frames \<Rightarrow> frames cpp" where
  "AsyncSendTask_delete this F = destroy_frame (ast_handle this) F"

record ProcessRequestTask =
  prt_handle :: "handle option"

definition ProcessRequestTask_make :: "handle \<Rightarrow> ProcessRequestTask" where
  "ProcessRequestTask_make h = \<lparr>prt_handle = Some h\<rparr>"

definition ProcessRequestTask_move :: "ProcessRequestTask \<Rightarrow> ProcessRequestTask \<times> ProcessRequestTask" where
  "ProcessRequestTask_move hrt = (\<lparr>prt_handle = prt_handle hrt\<rparr>, hrt\<lparr>prt_handle := None\<rparr>)"

definition ProcessRequestTask_assign ::
    "ProcessRequestTask \<Rightarrow> ProcessRequestTask \<Rightarrow> frames \<Rightarrow> ((ProcessRequestTask \<times> ProcessRequestTask) \<times> frames) cpp" where
  "ProcessRequestTask_assign this hrt F = (case destroy_frame (prt_handle this) F of
       Val F' \<Rightarrow> Val ((this\<lparr>prt_handle := prt_handle hrt\<rparr>, hrt\<lparr>prt_handle := None\<rparr>), F')
     | Exn m \<Rightarrow> Exn m | UB \<Rightarrow> UB | Hang \<Rightarrow> Hang)"

definition ProcessRequestTask_delete :: "ProcessRequestTask \<Rightarrow> frames \<Rightarrow> frames cpp" where
  "ProcessRequestTask_delete this F = destroy_frame (prt_handle this) F"

record HandleReqTask =
  hrt_handle :: "handle option"

definition HandleReqTask_make :: "handle \<Rightarrow> HandleReqTask" where
  "HandleReqTask_make h = \<lparr>hrt_handle = Some h\<rparr>"

definition HandleReqTask_move :: "HandleReqTask \<Rightarrow> HandleReqTask \<times> HandleReqTask" where
  "HandleReqTask_move hrt = (\<lparr>hrt_handle = hrt_handle hrt\<rparr>, hrt\<lparr>hrt_handle := None\<rparr>)"

definition HandleReqTask_assign :: "HandleReqTask \<Rightarrow> HandleReqTask \<Rightarrow> frames \<Rightarrow> ((HandleReqTask \<times> HandleReqTask) \<times> frames) cpp" where
  "HandleReqTask_assign this hrt F = (case destroy_frame (hrt_handle this) F of
       Val F' \<Rightarrow> Val ((this\<lparr>hrt_handle := hrt_handle hrt\<rparr>, hrt\<lparr>hrt_handle := None\<rparr>), F')
     | Exn m \<Rightarrow> Exn m | UB \<Rightarrow> UB | Hang \<Rightarrow> Hang)"

definition HandleReqTask_delete :: "HandleReqTask \<Rightarrow> frames \<Rightarrow> frames cpp" where
  "HandleReqTask_delete this F = destroy_frame (hrt_handle this) F"

subsection \<open>Awaiting\<close>

text \<open>
  What \<^verbatim>\<open>co_await\<close> asks of an awaiter. \<open>co_await\<close> gives the coroutine that runs next and, when that is the
  one that awaits, the value it goes on with.
\<close>

record 'r Awaiter =
  await_ready :: bool
  await_suspend :: "handle \<Rightarrow> handle"
  await_resume :: 'r

definition co_await :: "handle \<Rightarrow> 'r Awaiter \<Rightarrow> handle \<times> 'r option" where
  "co_await self a =
     (if await_ready a then (self, Some (await_resume a))
      else let h = await_suspend a self in (h, if h = self then Some (await_resume a) else None))"

text \<open>The result of the read task, of \<^verbatim>\<open>read\<close> and of \<^verbatim>\<open>sendmsg\<close> are arguments.\<close>

definition ReadRequestAwaiter :: "ReqReadOperationResult \<Rightarrow> ReqReadOperationResult Awaiter" where
  "ReadRequestAwaiter result = \<lparr>await_ready = False, await_suspend = (\<lambda>h. h), await_resume = result\<rparr>"

definition AsyncReadAwaiter :: "read_result \<Rightarrow> read_result Awaiter" where
  "AsyncReadAwaiter read_returns = \<lparr>await_ready = False, await_suspend = (\<lambda>h. h), await_resume = read_returns\<rparr>"

definition SuspendSelfAwaiter :: "unit Awaiter" where
  "SuspendSelfAwaiter = \<lparr>await_ready = False, await_suspend = (\<lambda>h. h), await_resume = ()\<rparr>"

definition AsyncSendAwaiter :: "'s \<Rightarrow> 's Awaiter" where
  "AsyncSendAwaiter sendmsg_returns = \<lparr>await_ready = False, await_suspend = (\<lambda>h. h), await_resume = sendmsg_returns\<rparr>"

definition ProcessRequestAwaiter :: "unit Awaiter" where
  "ProcessRequestAwaiter = \<lparr>await_ready = False, await_suspend = (\<lambda>h. h), await_resume = ()\<rparr>"

text \<open>
  No awaiter of the server lets another coroutine run: the awaiting coroutine goes on at once with the
  result, so that a round of the event loop is one sequence of calls, as the model of the loop has it.
\<close>

lemma co_await_goes_on:
  "co_await h (ReadRequestAwaiter r) = (h, Some r)" "co_await h (AsyncReadAwaiter rd) = (h, Some rd)"
  "co_await h SuspendSelfAwaiter = (h, Some ())" "co_await h (AsyncSendAwaiter sd) = (h, Some sd)"
  "co_await h ProcessRequestAwaiter = (h, Some ())"
  by (simp_all add: co_await_def ReadRequestAwaiter_def AsyncReadAwaiter_def SuspendSelfAwaiter_def AsyncSendAwaiter_def
      ProcessRequestAwaiter_def)

subsection \<open>The contract of a task\<close>

text \<open>
  A program over tasks of one class: the objects are numbered in the order they are created, \<open>None\<close> is an
  object that has been destroyed. A command that names an object that does not exist does nothing.
\<close>

datatype task_cmd = NewTask | MoveNew nat | MoveInto nat nat | Delete nat

definition object_at :: "'t option list \<Rightarrow> nat \<Rightarrow> 't option" where
  "object_at ts i = (if i < length ts then ts ! i else None)"

fun task_step :: "(handle \<Rightarrow> 't) \<Rightarrow> ('t \<Rightarrow> 't \<times> 't) \<Rightarrow> ('t \<Rightarrow> 't \<Rightarrow> frames \<Rightarrow> (('t \<times> 't) \<times> frames) cpp) \<Rightarrow>
    ('t \<Rightarrow> frames \<Rightarrow> frames cpp) \<Rightarrow> task_cmd \<Rightarrow> 't option list \<times> frames \<Rightarrow> ('t option list \<times> frames) cpp" where
  "task_step mk mv asg del NewTask (ts, F) = (case new_frame F of (h, F') \<Rightarrow> Val (ts @ [Some (mk h)], F'))"
| "task_step mk mv asg del (MoveNew i) (ts, F) = (case object_at ts i of
       Some t \<Rightarrow> Val (ts[i := Some (snd (mv t))] @ [Some (fst (mv t))], F)
     | None \<Rightarrow> Val (ts, F))"
| "task_step mk mv asg del (MoveInto i j) (ts, F) = (case (object_at ts i, object_at ts j) of
       (Some t, Some u) \<Rightarrow> if i = j then Val (ts, F) else (case asg t u F of
           Val ((t', u'), F') \<Rightarrow> Val (ts[i := Some t', j := Some u'], F')
         | Exn m \<Rightarrow> Exn m | UB \<Rightarrow> UB | Hang \<Rightarrow> Hang)
     | _ \<Rightarrow> Val (ts, F))"
| "task_step mk mv asg del (Delete i) (ts, F) = (case object_at ts i of
       Some t \<Rightarrow> (case del t F of Val F' \<Rightarrow> Val (ts[i := None], F') | Exn m \<Rightarrow> Exn m | UB \<Rightarrow> UB | Hang \<Rightarrow> Hang)
     | None \<Rightarrow> Val (ts, F))"

fun run_tasks :: "(handle \<Rightarrow> 't) \<Rightarrow> ('t \<Rightarrow> 't \<times> 't) \<Rightarrow> ('t \<Rightarrow> 't \<Rightarrow> frames \<Rightarrow> (('t \<times> 't) \<times> frames) cpp) \<Rightarrow>
    ('t \<Rightarrow> frames \<Rightarrow> frames cpp) \<Rightarrow> task_cmd list \<Rightarrow> 't option list \<times> frames \<Rightarrow> ('t option list \<times> frames) cpp" where
  "run_tasks mk mv asg del [] s = Val s"
| "run_tasks mk mv asg del (c # cs) s = (case task_step mk mv asg del c s of
       Val s' \<Rightarrow> run_tasks mk mv asg del cs s' | Exn m \<Rightarrow> Exn m | UB \<Rightarrow> UB | Hang \<Rightarrow> Hang)"

definition owned_by :: "('t \<Rightarrow> handle option) \<Rightarrow> 't option list \<Rightarrow> nat \<rightharpoonup> handle" where
  "owned_by handle_of ts i = Option.bind (object_at ts i) handle_of"

text \<open>Who owns what: every frame that exists has exactly one owner.\<close>

definition owns_frames :: "(nat \<rightharpoonup> handle) \<Rightarrow> frames \<Rightarrow> bool" where
  "owns_frames own F \<longleftrightarrow> (\<forall>i j h. own i = Some h \<and> own j = Some h \<longrightarrow> i = j) \<and>
     (\<forall>h. h \<in> live_frames F \<longleftrightarrow> (\<exists>i. own i = Some h)) \<and> (\<forall>h\<in>live_frames F. h < next_frame F)"

lemma owns_new:
  assumes "owns_frames own F" "own k = None" "new_frame F = (h, F')"
  shows "owns_frames (own(k \<mapsto> h)) F'"
proof -
  have new: "h = next_frame F" "live_frames F' = insert h (live_frames F)" "next_frame F' = Suc h"
    using assms(3) by (auto simp: new_frame_def)
  have "own i \<noteq> Some h" for i using assms(1) unfolding owns_frames_def new(1) by blast
  moreover have "(\<exists>i. (own(k \<mapsto> h)) i = Some h') \<longleftrightarrow> h' = h \<or> (\<exists>i. own i = Some h')" for h'
    using assms(2) by (metis fun_upd_apply option.discI option.inject)
  ultimately show ?thesis
    using assms(1) unfolding owns_frames_def new by (simp add: less_Suc_eq)
qed

lemma owns_drop:
  assumes "owns_frames own F"
  shows "\<exists>F'. destroy_frame (own i) F = Val F' \<and> owns_frames (own(i := None)) F'"
proof (cases "own i")
  case None
  then show ?thesis using assms by (simp add: destroy_frame_def fun_upd_idem)
next
  case (Some h)
  then have "h \<in> live_frames F" using assms by (auto simp: owns_frames_def)
  moreover have "own j = Some h' \<Longrightarrow> h' \<noteq> h \<Longrightarrow> j \<noteq> i" for j h' using Some by auto
  moreover have "own j \<noteq> Some h" if "j \<noteq> i" for j using that assms Some by (auto simp: owns_frames_def)
  ultimately show ?thesis
    using assms Some by (auto simp: destroy_frame_def owns_frames_def)
qed

lemma owns_move:
  assumes "owns_frames own F" "own k = None" "i \<noteq> k"
  shows "owns_frames (own(i := None, k := own i)) F"
proof -
  have "(\<exists>a. (own(i := None, k := own i)) a = Some h) \<longleftrightarrow> (\<exists>a. own a = Some h)" for h
    using assms(2,3) by (metis fun_upd_apply option.discI)
  then show ?thesis using assms by (auto simp: owns_frames_def split: if_splits)
qed

locale task_owner =
  fixes handle_of :: "'t \<Rightarrow> handle option"
    and mk :: "handle \<Rightarrow> 't"
    and mv :: "'t \<Rightarrow> 't \<times> 't"
    and asg :: "'t \<Rightarrow> 't \<Rightarrow> frames \<Rightarrow> (('t \<times> 't) \<times> frames) cpp"
    and del :: "'t \<Rightarrow> frames \<Rightarrow> frames cpp"
  assumes make_handle: "handle_of (mk h) = Some h"
    and move_handle: "handle_of (fst (mv t)) = handle_of t" "handle_of (snd (mv t)) = None"
    and assign_ok: "destroy_frame (handle_of t) F = Val F' \<Longrightarrow>
      \<exists>t' u'. asg t u F = Val ((t', u'), F') \<and> handle_of t' = handle_of u \<and> handle_of u' = None"
    and delete_ok: "del t F = destroy_frame (handle_of t) F"
begin

abbreviation owner :: "'t option list \<Rightarrow> nat \<rightharpoonup> handle" where
  "owner \<equiv> owned_by handle_of"

lemma owner_append: "owner (ts @ [Some t]) = (owner ts)(length ts := handle_of t)"
  by (auto simp: owned_by_def object_at_def fun_eq_iff nth_append)

lemma owner_update: "i < length ts \<Longrightarrow> owner (ts[i := x]) = (owner ts)(i := Option.bind x handle_of)"
  by (auto simp: owned_by_def object_at_def fun_eq_iff)

lemma owner_outside: "owner ts (length ts) = None"
  by (simp add: owned_by_def object_at_def)

lemma object_owner: "object_at ts i = Some t \<Longrightarrow> i < length ts \<and> owner ts i = handle_of t"
  by (auto simp: owned_by_def object_at_def split: if_splits)

lemma task_step_owned:
  assumes "owns_frames (owner ts) F"
  shows "\<exists>ts' F'. task_step mk mv asg del c (ts, F) = Val (ts', F') \<and> owns_frames (owner ts') F'"
proof (cases c)
  case NewTask
  obtain h F' where "new_frame F = (h, F')" by (cases "new_frame F")
  then show ?thesis
    using NewTask owns_new [OF assms owner_outside] by (simp add: owner_append make_handle)
next
  case (MoveNew i)
  show ?thesis
  proof (cases "object_at ts i")
    case None
    then show ?thesis using MoveNew assms by simp
  next
    case (Some t)
    then show ?thesis
      using MoveNew object_owner [OF Some] owns_move [OF assms owner_outside, of i]
      by (simp add: owner_append owner_update move_handle)
  qed
next
  case (MoveInto i j)
  show ?thesis
  proof (cases "\<exists>t u. object_at ts i = Some t \<and> object_at ts j = Some u \<and> i \<noteq> j")
    case False
    then show ?thesis using MoveInto assms by (auto split: option.splits)
  next
    case True
    then obtain t u where tu: "object_at ts i = Some t" "object_at ts j = Some u" "i \<noteq> j" by blast
    note own = object_owner [OF tu(1)] object_owner [OF tu(2)]
    obtain F' where F': "destroy_frame (handle_of t) F = Val F'" "owns_frames ((owner ts)(i := None)) F'"
      using owns_drop [OF assms, of i] own by auto
    then obtain t' u' where "asg t u F = Val ((t', u'), F')" "handle_of t' = handle_of u" "handle_of u' = None"
      using assign_ok by blast
    then show ?thesis
      using MoveInto tu own owns_move [OF F'(2), of i j] by (simp add: owner_update fun_upd_twist)
  qed
next
  case (Delete i)
  show ?thesis
  proof (cases "object_at ts i")
    case None
    then show ?thesis using Delete assms by simp
  next
    case (Some t)
    then show ?thesis
      using Delete object_owner [OF Some] owns_drop [OF assms, of i] by (auto simp: owner_update delete_ok)
  qed
qed

theorem run_tasks_owned:
  assumes "owns_frames (owner ts) F"
  shows "\<exists>ts' F'. run_tasks mk mv asg del cs (ts, F) = Val (ts', F') \<and> owns_frames (owner ts') F'"
  using assms
proof (induction cs arbitrary: ts F)
  case (Cons c cs)
  then show ?case using task_step_owned [OF Cons.prems, of c] by auto
qed auto

text \<open>From the empty program on, nothing goes wrong, and what exists at the end has an object that owns it.\<close>

theorem tasks_own_frames:
  "\<exists>ts F. run_tasks mk mv asg del cs ([], no_frames) = Val (ts, F) \<and>
    ran (owned_by handle_of ts) = live_frames F \<and> inj_on (owned_by handle_of ts) (dom (owned_by handle_of ts))"
proof -
  have "owns_frames (owner []) no_frames"
    by (simp add: owns_frames_def owned_by_def object_at_def no_frames_def)
  from run_tasks_owned [OF this, of cs] obtain ts F where
    run: "run_tasks mk mv asg del cs ([], no_frames) = Val (ts, F)" and own: "owns_frames (owner ts) F" by blast
  have "ran (owner ts) = live_frames F" using own by (simp add: owns_frames_def ran_def set_eq_iff)
  moreover have "inj_on (owner ts) (dom (owner ts))" using own by (auto simp: owns_frames_def inj_on_def)
  ultimately show ?thesis using run by blast
qed

end

interpretation read_task: task_owner art_handle AsyncReadTask_make AsyncReadTask_move AsyncReadTask_assign AsyncReadTask_delete
  by unfold_locales (simp_all add: AsyncReadTask_make_def AsyncReadTask_move_def AsyncReadTask_assign_def AsyncReadTask_delete_def)

interpretation send_task: task_owner ast_handle AsyncSendTask_make AsyncSendTask_move AsyncSendTask_assign AsyncSendTask_delete
  by unfold_locales (simp_all add: AsyncSendTask_make_def AsyncSendTask_move_def AsyncSendTask_assign_def AsyncSendTask_delete_def)

interpretation process_task: task_owner prt_handle ProcessRequestTask_make ProcessRequestTask_move ProcessRequestTask_assign ProcessRequestTask_delete
  by unfold_locales (simp_all add: ProcessRequestTask_make_def ProcessRequestTask_move_def ProcessRequestTask_assign_def ProcessRequestTask_delete_def)

interpretation handle_task: task_owner hrt_handle HandleReqTask_make HandleReqTask_move HandleReqTask_assign HandleReqTask_delete
  by unfold_locales (simp_all add: HandleReqTask_make_def HandleReqTask_move_def HandleReqTask_assign_def HandleReqTask_delete_def)


lemmas other_tasks_own_frames = send_task.tasks_own_frames process_task.tasks_own_frames handle_task.tasks_own_frames

end
