(* ===== verification/Kvs_Lifetime.thy ===== *)
theory Kvs_Lifetime
  imports Kvs_Props
begin

section \<open>The lifetime of a store\<close>

text \<open>
  The destructor, and what it leaves in the heap. \<^verbatim>\<open>~KeyValueStore\<close> deallocates the entry of every slot of
  the table, the same index more than once when a deleted entry has been handed out again; the pool
  and the table are arrays of their own and go with it. Two kinds of buffers survive: those that
  \<^verbatim>\<open>decompressEntry\<close> made, which no entry points to, and those of entries that growing has lost.
\<close>

definition KeyValueStore_dtor :: "kvs \<Rightarrow> unit cpp \<times> cheap" where
  "KeyValueStore_dtor s = and_then (cleanTable s) (\<lambda>_ p. (Val (), heap p)) heap"

text \<open>Buffers that no entry points to, and live entries that no slot points to.\<close>

definition owned :: "pool_t \<Rightarrow> addr set" where
  "owned p = {a. Some a \<in> e_value ` set (pool p)}"

definition strays :: "pool_t \<Rightarrow> addr set" where
  "strays p = dom (mem (heap p)) - owned p"

definition unanchored :: "kvs \<Rightarrow> nat set" where
  "unanchored s = dom (contents (entryPool s)) - set (concat (table s))"

subsection \<open>The destructor\<close>

text \<open>
  What is left of the invariant of the pool while the table is cleaned: deallocating an index twice
  ties a loop into the free list, but no entry ever holds a freed buffer.
\<close>

definition releasable :: "pool_t \<Rightarrow> bool" where
  "releasable p \<longleftrightarrow> length (pool p) = capacity p \<and>
     (\<forall>i a. i < capacity p \<longrightarrow> e_value (pool p ! i) = Some a \<longrightarrow> mem (heap p) a \<noteq> None) \<and>
     (\<forall>i j a. i < capacity p \<longrightarrow> j < capacity p \<longrightarrow> e_value (pool p ! i) = Some a \<longrightarrow> e_value (pool p ! j) = Some a \<longrightarrow> i = j)"

lemma releasableD:
  assumes "releasable p"
  shows "length (pool p) = capacity p"
    "\<And>i a. i < capacity p \<Longrightarrow> e_value (pool p ! i) = Some a \<Longrightarrow> mem (heap p) a \<noteq> None"
    "\<And>i j a. i < capacity p \<Longrightarrow> j < capacity p \<Longrightarrow> e_value (pool p ! i) = Some a \<Longrightarrow> e_value (pool p ! j) = Some a \<Longrightarrow> i = j"
  using assms unfolding releasable_def by blast+

text \<open>Forgetting the buffer of an entry that is then freed keeps this.\<close>

lemma releasable_forget:
  assumes "releasable p" "pool p' = (pool p)[i := e]" "capacity p' = capacity p" "e_value e = None"
    and "\<And>j a. j < capacity p \<Longrightarrow> j \<noteq> i \<Longrightarrow> e_value (pool p ! j) = Some a \<Longrightarrow> mem (heap p') a \<noteq> None"
  shows "releasable p'"
proof -
  note r = releasableD [OF assms(1)]
  have v: "e_value (pool p' ! j) = Some a \<Longrightarrow> j \<noteq> i \<and> e_value (pool p ! j) = Some a" if "j < capacity p" for j a
    using that assms(2,4) r(1) by (cases "j = i") simp_all
  have "mem (heap p') a \<noteq> None" if "j < capacity p" "e_value (pool p' ! j) = Some a" for j a
    using v [OF that] assms(5) that(1) by blast
  moreover have "j = l" if "j < capacity p" "l < capacity p" "e_value (pool p' ! j) = Some a" "e_value (pool p' ! l) = Some a" for j l a
    using r(3) v that by blast
  moreover have "length (pool p') = capacity p'" using assms(2,3) r(1) by simp
  ultimately show ?thesis unfolding releasable_def assms(3) by blast
qed

lemma pool_inv_releasable:
  assumes "pool_inv p free"
  shows "releasable p"
  unfolding releasable_def
proof (intro conjI allI impI)
  show "mem (heap p) a \<noteq> None" if "i < capacity p" "e_value (pool p ! i) = Some a" for i a
    using pool_invD(4) [OF assms that(1)] that(2) by (auto simp: entry_ok_def split: option.splits)
qed (use pool_invD(1) [OF assms] pool_inv_value_inj [OF assms] in auto)

text \<open>The buffers of the entries with these indices.\<close>

definition held :: "pool_t \<Rightarrow> nat set \<Rightarrow> addr set" where
  "held p I = {a. \<exists>i\<in>I. i < capacity p \<and> e_value (pool p ! i) = Some a}"

lemma deallocate_releases:
  assumes "releasable p" "i < capacity p"
  obtains p' where "deallocate i p = (Val (), p')" "releasable p'" "capacity p' = capacity p"
    "dom (mem (heap p')) = dom (mem (heap p)) - held p {i}"
    "\<And>j. j < capacity p \<Longrightarrow> e_value (pool p' ! j) = (if j = i then None else e_value (pool p ! j))"
proof -
  note r = releasableD [OF assms(1)]
  let ?e = "\<lparr>e_key = None, e_value = None, e_vSize = 0, e_compressed = False, e_nextFree = freeListHead p\<rparr>"
  let ?p = "\<lambda>h. p\<lparr>pool := (pool p)[i := ?e], freeListHead := i, heap := h\<rparr>"
  have val: "e_value (pool (?p h) ! j) = (if j = i then None else e_value (pool p ! j))" if "j < capacity p" for j h
    using that r(1) assms(2) by simp
  show thesis
  proof (cases "e_value (pool p ! i)")
    case None
    have "releasable (?p (heap p))" by (rule releasable_forget [OF assms(1), of _ i ?e]) (use r(2) in simp_all)
    moreover have "deallocate i p = (Val (), ?p (heap p))" using None assms(2) by (simp add: deallocate_def delete_buf_def)
    moreover have "held p {i} = {}" using None by (simp add: held_def)
    ultimately show thesis using that [of "?p (heap p)"] val by simp
  next
    case (Some a)
    then obtain b where b: "mem (heap p) a = Some b" using r(2) [OF assms(2)] by blast
    let ?h = "(heap p)\<lparr>mem := (mem (heap p))(a := None)\<rparr>"
    have "mem ?h c \<noteq> None" if "j < capacity p" "j \<noteq> i" "e_value (pool p ! j) = Some c" for j c
      using r(2) [OF that(1,3)] r(3) [OF that(1) assms(2) that(3)] Some that(2) by auto
    then have "releasable (?p ?h)" by (intro releasable_forget [OF assms(1), of _ i ?e]) simp_all
    moreover have "deallocate i p = (Val (), ?p ?h)" using Some b assms(2) by (simp add: deallocate_def delete_buf_def)
    moreover have "held p {i} = {a}" using Some assms(2) by (auto simp: held_def)
    ultimately show thesis using that [of "?p ?h"] val by simp
  qed
qed

lemma clean_slots_releases:
  assumes "releasable p" "\<forall>x\<in>set xs. x < capacity p"
  shows "\<exists>p'. clean_slots xs p = (Val (), p') \<and> dom (mem (heap p')) = dom (mem (heap p)) - held p (set xs - {0})"
  using assms
proof (induction xs arbitrary: p)
  case Nil
  then show ?case by (simp add: held_def)
next
  case (Cons x xs)
  show ?case
  proof (cases "x = 0")
    case True
    then show ?thesis using Cons by simp
  next
    case False
    obtain p1 where p1: "deallocate x p = (Val (), p1)" "releasable p1" "capacity p1 = capacity p"
      "dom (mem (heap p1)) = dom (mem (heap p)) - held p {x}"
      "\<And>j. j < capacity p \<Longrightarrow> e_value (pool p1 ! j) = (if j = x then None else e_value (pool p ! j))"
      using deallocate_releases [OF Cons.prems(1), of x] Cons.prems(2) by auto
    obtain p2 where p2: "clean_slots xs p1 = (Val (), p2)"
      "dom (mem (heap p2)) = dom (mem (heap p1)) - held p1 (set xs - {0})"
      using Cons.IH [OF p1(2)] Cons.prems(2) p1(3) by auto
    have "held p {x} \<union> held p1 (set xs - {0}) = held p (set (x # xs) - {0})"
      using p1(3,5) False by (auto simp: held_def split: if_splits)
    then show ?thesis using p1(1,4) p2 False by auto
  qed
qed

lemma dtor_leaves:
  assumes "shape s free"
  shows "\<exists>h. KeyValueStore_dtor s = (Val (), h) \<and>
    dom (mem h) \<subseteq> strays (entryPool s) \<union> held (entryPool s) (unanchored s)"
proof -
  let ?p = "entryPool s"
  note sh = shapeD [OF assms]
  have "\<forall>x\<in>set (concat (table s)). x < capacity ?p" using sh(2,3) by (fastforce simp: table_ok_def)
  from clean_slots_releases [OF pool_inv_releasable [OF sh(1)] this] obtain p where
    p: "clean_slots (concat (table s)) ?p = (Val (), p)"
    "dom (mem (heap p)) = dom (mem (heap ?p)) - held ?p (set (concat (table s)) - {0})" by blast
  have "a \<in> strays ?p \<union> held ?p (unanchored s)" if a: "a \<in> dom (mem (heap p))" for a
  proof (cases "a \<in> owned ?p")
    case True
    then obtain i where i: "i < capacity ?p" "e_value (pool ?p ! i) = Some a"
      using pool_invD(1) [OF sh(1)] by (auto simp: owned_def in_set_conv_nth image_iff)
    then have key: "e_key (pool ?p ! i) \<noteq> None" using pool_invD(4) [OF sh(1) i(1)] by (auto simp: entry_ok_def split: option.splits)
    then have "contents ?p i \<noteq> None" "i \<noteq> 0"
      using contents_key [OF sh(1) i(1)] pool_invD(8) [OF sh(1)] by (auto intro: ccontr)
    moreover have "i \<notin> set (concat (table s)) - {0}" using a p(2) i by (auto simp: held_def)
    ultimately show ?thesis using i by (auto simp: held_def unanchored_def)
  next
    case False
    then show ?thesis using a p(2) by (auto simp: strays_def)
  qed
  then show ?thesis using p(1) by (intro exI [of _ "heap p"]) (auto simp: KeyValueStore_dtor_def cleanTable_def)
qed

subsection \<open>What the operations leave behind\<close>

lemma owned_nth: "owned p = {a. \<exists>j<length (pool p). e_value (pool p ! j) = Some a}"
  by (force simp: owned_def image_iff in_set_conv_nth)

text \<open>One entry changes, its old buffer is freed and only its new buffer is allocated.\<close>

lemma strays_update:
  assumes p': "i < length (pool p)" "pool p' = (pool p)[i := e]"
    and old: "\<And>a. e_value (pool p ! i) = Some a \<Longrightarrow> mem (heap p') a = None"
    and new: "\<And>a. mem (heap p') a \<noteq> None \<Longrightarrow> mem (heap p) a \<noteq> None \<or> e_value e = Some a"
  shows "strays p' \<subseteq> strays p"
proof
  fix a assume a: "a \<in> strays p'"
  then have m: "mem (heap p') a \<noteq> None" and out: "\<And>j. j < length (pool p) \<Longrightarrow> e_value ((pool p)[i := e] ! j) \<noteq> Some a"
    using p'(2) by (auto simp: strays_def owned_nth)
  have "e_value e \<noteq> Some a" using out [OF p'(1)] p'(1) by simp
  moreover have "e_value (pool p ! j) \<noteq> Some a" if "j < length (pool p)" for j
    using out [OF that] old m by (cases "j = i") auto
  ultimately show "a \<in> strays p" using new [OF m] by (auto simp: strays_def owned_nth)
qed

lemma delete_buf_mem:
  "delete_buf v h = Some h' \<Longrightarrow> mem h' = (case v of None \<Rightarrow> mem h | Some a \<Rightarrow> (mem h)(a := None))"
  by (auto simp: delete_buf_def split: option.splits)

lemma deallocate_strays:
  assumes "length (pool p) = capacity p" "deallocate i p = (Val (), p')"
  shows "strays p' \<subseteq> strays p"
proof -
  let ?e = "\<lparr>e_key = None, e_value = None, e_vSize = 0, e_compressed = False, e_nextFree = freeListHead p\<rparr>"
  have h: "i < capacity p" "delete_buf (e_value (pool p ! i)) (heap p) = Some (heap p')" "pool p' = (pool p)[i := ?e]"
    using assms(2) by (auto simp: deallocate_def split: if_splits option.splits)
  show ?thesis using h assms(1) delete_buf_mem [OF h(2)]
    by (intro strays_update [of i p p' ?e]) (auto split: option.splits if_splits)
qed

lemma write_entry_strays:
  assumes "i < length (pool p)" "e_value (pool p ! i) = None"
  shows "strays (write_entry i k buf cmp p) \<subseteq> strays p"
  using assms by (intro strays_update [OF assms(1)]) (auto simp: write_entry_def new_buf_def Let_def split: if_splits)

lemma expandPool_strays:
  assumes "length (pool p) = capacity p" "expandPool n p = (Val (), p')"
  shows "strays p' \<subseteq> strays p"
proof -
  have n: "n \<noteq> 0" "capacity p \<le> n" using assms(2) by (auto simp: expandPool_def split: if_splits)
  let ?es = "link_free (capacity p) (n - 1) (pool p @ replicate (n - capacity p) entry0)"
  have p': "p' = p\<lparr>pool := ?es[n - 1 := (?es ! (n - 1))\<lparr>e_nextFree := 0\<rparr>], freeListHead := capacity p, capacity := n\<rparr>"
    using assms(2) n by (simp add: expandPool_def Let_def)
  have "e_value (pool p' ! j) = e_value (pool p ! j)" if "j < capacity p" for j
    using that n assms(1) unfolding p' by (auto simp: nth_list_update nth_link_free nth_append)
  then show ?thesis using n assms(1) unfolding p' by (fastforce simp: strays_def owned_nth)
qed

text \<open>
  Without compression no entry is ever marked as compressed, and \<^verbatim>\<open>get\<close> does not allocate. \<open>no_leak\<close> is
  what every step of \<^verbatim>\<open>set\<close> and \<^verbatim>\<open>del\<close> does.
\<close>

definition plain :: "pool_t \<Rightarrow> bool" where
  "plain p \<longleftrightarrow> list_all (\<lambda>e. \<not> e_compressed e) (pool p)"

lemma plain_update: "plain p \<Longrightarrow> pool p' = (pool p)[i := e] \<Longrightarrow> \<not> e_compressed e \<Longrightarrow> plain p'"
  using set_update_subset_insert [of "pool p" i e] by (auto simp: plain_def list_all_iff)

lemma plain_nth: "plain p \<Longrightarrow> i < length (pool p) \<Longrightarrow> \<not> e_compressed (pool p ! i)"
  by (simp add: plain_def list_all_length)

definition no_leak :: "kvs \<Rightarrow> kvs \<Rightarrow> bool" where
  "no_leak s s' \<longleftrightarrow> strays (entryPool s') \<subseteq> strays (entryPool s) \<and> compressionEnabled s' = compressionEnabled s \<and>
     (compressionEnabled s \<or> (plain (entryPool s) \<longrightarrow> plain (entryPool s')))"

lemma no_leak_refl: "no_leak s (s\<lparr>numCollisions := c\<rparr>)"
  by (simp add: no_leak_def)

lemma no_leak_trans: "no_leak s s' \<Longrightarrow> no_leak s' s'' \<Longrightarrow> no_leak s s''"
  by (auto simp: no_leak_def)

lemma deallocate_no_leak:
  assumes "length (pool (entryPool s)) = capacity (entryPool s)" "deallocate i (entryPool s) = (Val (), q)"
  shows "no_leak s (s\<lparr>entryPool := q\<rparr>)"
proof -
  have "plain q" if "plain (entryPool s)"
    using that assms(2) by (auto simp: deallocate_def split: if_splits option.splits intro: plain_update)
  then show ?thesis using deallocate_strays [OF assms] by (simp add: no_leak_def)
qed

lemma plain_uncompressed:
  "encode_value z False val = Val (c, b) \<Longrightarrow> \<not> c"
  by (auto simp: encode_value_def)

lemma insertEntry_no_leak:
  assumes inv: "pool_inv (entryPool s) (x # xs)" and run: "insertEntry z key val s = (Val i, s')"
  shows "no_leak s s'"
proof -
  let ?p = "(entryPool s)\<lparr>freeListHead := e_nextFree (pool (entryPool s) ! x)\<rparr>"
  have a: "allocate (entryPool s) = (Val x, ?p)" using allocate_pop(1) [OF inv] .
  obtain c b where s': "entryPool s' = write_entry x key b c ?p" "compressionEnabled s' = compressionEnabled s"
    "encode_value z (compressionEnabled s) val = Val (c, b)"
    using run a by (auto simp: insertEntry_def and_then_def split: cpp.splits prod.splits)
  have x: "x < capacity (entryPool s)" "contents (entryPool s) x = None" using free_range [OF inv, of x] by simp_all
  then have "e_key (pool (entryPool s) ! x) = None" using contents_key [OF inv x(1)] by simp
  then have "e_value (pool (entryPool s) ! x) = None" using pool_invD(4) [OF inv x(1)] by (simp add: entry_ok_def)
  then have "strays (entryPool s') \<subseteq> strays ?p"
    unfolding s' using x(1) pool_invD(1) [OF inv] by (intro write_entry_strays) simp_all
  moreover have "plain (entryPool s')" if "plain (entryPool s)" "\<not> compressionEnabled s"
  proof -
    let ?e = "(pool (entryPool s) ! x)\<lparr>e_key := Some key, e_value := Some (next_addr (heap (entryPool s))), e_vSize := length b\<rparr>"
    have "\<not> c" using plain_uncompressed s'(3) that(2) by simp
    moreover have "\<not> e_compressed ?e" using plain_nth [OF that(1), of x] x(1) pool_invD(1) [OF inv] by simp
    ultimately show ?thesis using s'(1)
      by (intro plain_update [OF that(1), of _ x ?e]) (simp_all add: write_entry_def new_buf_def Let_def)
  qed
  ultimately show ?thesis using s'(2) by (auto simp: no_leak_def strays_def owned_def)
qed

lemma fill_slot_no_leak:
  assumes "pool_inv (entryPool s) (x # xs)" "fill_slot z key val idx i s = (Val b, s')"
  shows "no_leak s s'"
  using insertEntry_no_leak [OF assms(1), of z key val] assms(2)
  by (auto simp: fill_slot_def and_then_def no_leak_def split: prod.splits cpp.splits)

lemma store_at_no_leak:
  assumes ok: "kvs_ok z s free" "free \<noteq> []" and run: "store_at z key val p s = (Val b, s')"
  shows "no_leak s s'"
proof (cases "key_of (entryPool s) (slot (table s) p)")
  case None
  obtain x xs where "free = x # xs" using ok(2) by (cases free) auto
  then have "pool_inv (entryPool s) (x # xs)" using shapeD(1) [OF kvs_okD(1) [OF ok(1)]] by simp
  then show ?thesis using fill_slot_no_leak run None by (simp add: store_at_def)
next
  case (Some k)
  note sh = shapeD [OF kvs_okD(1) [OF ok(1)]]
  let ?i = "slot (table s) p"
  obtain c where "contents (entryPool s) ?i = Some c" using Some key_of_SomeD by blast
  then obtain q where q: "deallocate ?i (entryPool s) = (Val (), q)" "pool_inv q (?i # free)"
    using deallocate_used [OF sh(1)] by metis
  then have "fill_slot z key val (fst p) (snd p) (s\<lparr>entryPool := q\<rparr>) = (Val b, s')" using run Some by (simp add: store_at_def)
  then have "no_leak (s\<lparr>entryPool := q\<rparr>) s'" using fill_slot_no_leak [of "s\<lparr>entryPool := q\<rparr>" ?i free] q(2) by simp
  then show ?thesis using no_leak_trans deallocate_no_leak [OF pool_invD(1) [OF sh(1)] q(1)] by blast
qed

lemma prepare_no_leak:
  assumes "kvs_ok z s free" "prepare s = (Val (), s1)"
  shows "no_leak s s1"
proof -
  let ?p = "entryPool s"
  have len: "length (pool ?p) = capacity ?p" using pool_invD(1) [OF shapeD(1) [OF kvs_okD(1) [OF assms(1)]]] .
  have "s1 = s \<or> (\<exists>n. expandPool n ?p = (Val (), entryPool s1) \<and> compressionEnabled s1 = compressionEnabled s)"
    using assms(2) by (auto simp: prepare_def resize_def and_then_def Let_def split: if_splits prod.splits cpp.splits)
  moreover have "plain q" if "plain ?p" "expandPool n ?p = (Val (), q)" for n q
    using that len
    by (auto simp: plain_def expandPool_def Let_def list_all_length nth_list_update nth_link_free nth_append entry0_def split: if_splits)
  moreover have "strays q \<subseteq> strays ?p" if "expandPool n ?p = (Val (), q)" for n q using expandPool_strays [OF len that] .
  ultimately show ?thesis unfolding no_leak_def by blast
qed

lemma kvs_set_no_leak:
  assumes "kvs_inv z s" "zlib_ok z" "kvs_set_key z key val s = (Val b, s')"
  shows "no_leak s s'"
proof -
  have more: "\<not> overdue s" using assms(3) kvs_set_overdue [OF assms(1), of key val] by auto
  obtain s1 free where prep: "prepare s = (Val (), s1)" and ok: "kvs_ok z s1 free" "free \<noteq> []"
    "threshold (tableSize s1) \<le> length free + numEntries s1"
    using prepare_ok [OF assms(1)] more by (auto simp: overdue_def)
  obtain free0 where "kvs_ok z s free0" using assms(1) by (auto simp: kvs_inv_def)
  from prepare_no_leak [OF this prep] have s1: "no_leak s s1" .
  obtain cc where run: "kvs_set z key val (hashFunc key) s = (case target s1 key of
      None \<Rightarrow> (Val False, s1\<lparr>numCollisions := cc\<rparr>) | Some p \<Rightarrow> store_at z key val p (s1\<lparr>numCollisions := cc\<rparr>))"
    using set_attempts_eq [OF kvs_okD(1) [OF ok(1)], of z key val "hashFunc key" "[0..<MAX_READ_WRITE_ATTEMPTS]"] prep
    by (auto simp: kvs_set_prepare target_def positions_def)
  let ?s2 = "s1\<lparr>numCollisions := cc\<rparr>"
  have s2: "no_leak s ?s2" using no_leak_trans [OF s1 no_leak_refl] .
  have "kvs_ok z ?s2 free" using ok(1) by (simp add: kvs_ok_def shape_def)
  then have "no_leak ?s2 s'" if "target s1 key = Some p" for p
    using store_at_no_leak [of z ?s2 free key val p b s'] ok(2) run that assms(3) by (simp add: kvs_set_key_def)
  then show ?thesis using s2 no_leak_trans run assms(3) by (cases "target s1 key") (auto simp: kvs_set_key_def)
qed

lemma kvs_del_no_leak:
  assumes "kvs_inv z s" "kvs_del_key key s = (Val b, s')"
  shows "no_leak s s'" "table s' = table s" "cerr s' = cerr s" "dom (contents (entryPool s')) \<subseteq> dom (contents (entryPool s))"
proof -
  obtain free where ok: "kvs_ok z s free" using assms(1) by (auto simp: kvs_inv_def)
  note sh = shapeD [OF kvs_okD(1) [OF ok]]
  have "no_leak s s' \<and> table s' = table s \<and> cerr s' = cerr s \<and> dom (contents (entryPool s')) \<subseteq> dom (contents (entryPool s))"
  proof (cases "lookup_idx s key")
    case None
    then show ?thesis using assms(2) kvs_del_absent [OF ok None] by (simp add: kvs_del_key_def no_leak_def)
  next
    case (Some i)
    obtain q where q: "s' = s\<lparr>entryPool := q\<rparr>" "deallocate i (entryPool s) = (Val (), q)"
      using find_entry_lookup [OF kvs_okD(1) [OF ok], of key] Some assms(2)
      by (auto simp: kvs_del_key_def kvs_del_def and_then_def split: prod.splits cpp.splits)
    obtain c where "contents (entryPool s) i = Some c" using key_of_SomeD [OF lookup_idx_SomeD [OF Some]] by blast
    from deallocate_used [OF sh(1) this] q(2) have "contents q = (contents (entryPool s))(i := None)" by (metis prod.inject)
    then show ?thesis using deallocate_no_leak [OF pool_invD(1) [OF sh(1)] q(2)] q(1) by auto
  qed
  then show "no_leak s s'" "table s' = table s" "cerr s' = cerr s" "dom (contents (entryPool s')) \<subseteq> dom (contents (entryPool s))"
    by simp_all
qed

text \<open>\<^verbatim>\<open>get\<close> allocates at most one buffer, and only when it finds a compressed value.\<close>

lemma kvs_get_cases:
  assumes "length (pool (entryPool s)) = capacity (entryPool s)" "kvs_get z key h s = (Val r, s')"
  obtains "s' = s"
  | out where "s' = s\<lparr>entryPool := (entryPool s)\<lparr>heap := snd (new_buf out (heap (entryPool s)))\<rparr>\<rparr>"
    "r = Some (next_addr (heap (entryPool s)))" "\<not> plain (entryPool s)"
proof -
  have "s' = s \<or> (\<exists>out. s' = s\<lparr>entryPool := (entryPool s)\<lparr>heap := snd (new_buf out (heap (entryPool s)))\<rparr>\<rparr> \<and>
    r = Some (next_addr (heap (entryPool s))) \<and> \<not> plain (entryPool s))"
    using assms
    by (auto simp: kvs_get_def decompressEntry_def and_then_def pool_get_def new_buf_def dest: plain_nth
        split: prod.splits cpp.splits option.splits if_splits)
  then show thesis using that by blast
qed

definition leaks :: "bool \<Rightarrow> kv_res \<Rightarrow> nat" where
  "leaks enabled r = (case r of Found (Some v) \<Rightarrow> if enabled then 1 else 0 | _ \<Rightarrow> 0)"

lemma kvs_fetch_leak:
  assumes inv: "kvs_inv z s" and run: "kvs_fetch z key s = (Val r, s')"
    and e: "compressionEnabled s \<or> plain (entryPool s)" and fin: "finite (strays (entryPool s))"
  shows "finite (strays (entryPool s')) \<and>
    card (strays (entryPool s')) \<le> card (strays (entryPool s)) + leaks (compressionEnabled s) (Found r)"
    and "compressionEnabled s' = compressionEnabled s" "pool (entryPool s') = pool (entryPool s)"
    "table s' = table s" "cerr s' = cerr s" "contents (entryPool s') = contents (entryPool s)"
proof -
  obtain free where ok: "kvs_ok z s free" using inv by (auto simp: kvs_inv_def)
  note sh = shapeD [OF kvs_okD(1) [OF ok]]
  obtain a where a: "kvs_get z key (hashFunc key) s = (Val a, s')" "r = read_str s' a"
    using run by (auto simp: kvs_fetch_def kvs_get_key_def and_then_def split: prod.splits cpp.splits)
  show "contents (entryPool s') = contents (entryPool s)" using kvs_fetch_safe [OF inv, of key] run by auto
  have "compressionEnabled s' = compressionEnabled s \<and> pool (entryPool s') = pool (entryPool s) \<and> table s' = table s \<and> cerr s' = cerr s"
    by (rule kvs_get_cases [OF pool_invD(1) [OF sh(1)] a(1)]) simp_all
  then show "compressionEnabled s' = compressionEnabled s" "pool (entryPool s') = pool (entryPool s)" "table s' = table s" "cerr s' = cerr s"
    by simp_all
  from kvs_get_cases [OF pool_invD(1) [OF sh(1)] a(1)]
  show "finite (strays (entryPool s')) \<and>
    card (strays (entryPool s')) \<le> card (strays (entryPool s)) + leaks (compressionEnabled s) (Found r)"
  proof cases
    case (2 out)
    let ?a = "next_addr (heap (entryPool s))"
    have en: "compressionEnabled s" using 2(3) e by simp
    have "strays (entryPool s') \<subseteq> insert ?a (strays (entryPool s))"
      unfolding 2(1) by (auto simp: strays_def owned_def new_buf_def)
    then have "finite (strays (entryPool s'))" "card (strays (entryPool s')) \<le> card (strays (entryPool s)) + 1"
      using fin card_mono [of "insert ?a (strays (entryPool s))" "strays (entryPool s')"] card_insert_le_m1
      by (auto intro: finite_subset simp: card_insert_if split: if_splits)
    moreover have "r \<noteq> None" using a(2) unfolding 2 by (simp add: read_str_def new_buf_def)
    ultimately show "finite (strays (entryPool s')) \<and>
        card (strays (entryPool s')) \<le> card (strays (entryPool s)) + leaks (compressionEnabled s) (Found r)"
      using en by (auto simp: leaks_def)
  qed (use fin in \<open>simp_all add: leaks_def\<close>)
qed

subsection \<open>Anchored entries\<close>

text \<open>Every live entry is in the table, or was reported when growing lost it.\<close>

definition anchored :: "kvs \<Rightarrow> bool" where
  "anchored s \<longleftrightarrow> unanchored s \<subseteq> set (cerr s)"

lemma anchoredI:
  "(\<And>i. contents (entryPool s) i \<noteq> None \<Longrightarrow> i \<in> set (concat (table s)) \<or> i \<in> set (cerr s)) \<Longrightarrow> anchored s"
  unfolding anchored_def unanchored_def by blast

lemma anchoredD:
  "anchored s \<Longrightarrow> contents (entryPool s) i \<noteq> None \<Longrightarrow> i \<in> set (concat (table s)) \<or> i \<in> set (cerr s)"
  unfolding anchored_def unanchored_def by blast

lemma anchored_collisions [simp]: "anchored (s\<lparr>numCollisions := c\<rparr>) = anchored s"
  by (simp add: anchored_def unanchored_def)

lemma prepare_anchored:
  assumes "kvs_ok z s free" "prepare s = (Val (), s1)" "anchored s"
  shows "anchored s1"
proof (cases "s1 = s")
  case False
  then have r: "resize s = (Val (), s1)" using assms(2) by (auto simp: prepare_def split: if_splits)
  then have more: "\<not> exhausted s" using resize_exhausted by fastforce
  obtain p t lost where g: "resize s = (Val (), grown s p t lost)" "contents p = contents (entryPool s)"
    "migrated p (next_table_size s) (concat (table s)) (initializeTable (next_table_size s)) t lost"
    using resize_ok [OF assms(1) more] by metis
  have s1: "s1 = grown s p t lost" using g(1) r by simp
  have n: "0 < next_table_size s" using next_table_size_grows [OF assms(1) more] by simp
  have t: "table_ok t (next_table_size s)" using g(3) by (simp add: migrated_def)
  have "i \<in> set (concat t) \<or> i \<in> set lost" if i: "i \<in> set (concat (table s))" "contents p i \<noteq> None" for i
  proof (cases "i \<in> set lost")
    case False
    obtain k where "key_of p i = Some k" using i(2) key_of_None [of p i] by auto
    then have "settled t (next_table_size s) i k" using g(3) i(1) False by (auto simp: migrated_def)
    then obtain q where "q \<in> set (positions (next_table_size s) (hashFunc k))" "slot t q = i"
      using settled_in_positions by blast
    then show ?thesis using slot_in_concat [OF t in_table_positions [OF n]] by blast
  qed simp
  then show ?thesis using anchoredD [OF assms(3)] g(2) unfolding s1 by (intro anchoredI) (metis UnCI grown_simps set_append)
qed (use assms in simp)

lemma kvs_set_anchored:
  assumes inv: "kvs_inv z s" "zlib_ok z" and args: "set_args key val"
    and run: "kvs_set_key z key val s = (Val b, s')" and an: "anchored s"
  shows "anchored s'"
proof -
  have more: "\<not> overdue s" using run kvs_set_overdue [OF inv(1), of key val] by auto
  have k: "is_cstr key" "storable val" using args by (simp_all add: set_args_def)
  obtain s1 free where prep: "prepare s = (Val (), s1)" and ok: "kvs_ok z s1 free" "free \<noteq> []"
    "threshold (tableSize s1) \<le> length free + numEntries s1"
    using prepare_ok [OF inv(1)] more by (auto simp: overdue_def)
  obtain free0 where "kvs_ok z s free0" using inv(1) by (auto simp: kvs_inv_def)
  from prepare_anchored [OF this prep an] have an1: "anchored s1" .
  note sh = shapeD [OF kvs_okD(1) [OF ok(1)]]
  show ?thesis
  proof (cases "target s1 key")
    case None
    then show ?thesis using kvs_set_full [OF prep ok(1) None, of val] run an1 by (auto simp: kvs_set_key_def)
  next
    case (Some p)
    have pt: "in_table (tableSize s1) p" and st: "settable s1 key p"
      using find_SomeD [OF Some [unfolded target_def]] in_table_positions [OF sh(4)] by blast+
    obtain x c d where s': "contents (entryPool s') = (contents (entryPool s1))(x \<mapsto> (key, c, d))"
      "table s' = write_slot (table s1) (fst p) (snd p) x" "cerr s' = cerr s1" "tableSize s' = tableSize s1"
      "hit s1 key p \<Longrightarrow> x = slot (table s1) p" "kvs_inv z s'"
    proof (rule kvs_set_stores [OF prep ok inv(2) k Some])
      fix s2 x c d
      assume r: "kvs_set z key val (hashFunc key) s = (Val True, s2)" and
        "kvs_inv z s2" "contents (entryPool s2) = (contents (entryPool s1))(x \<mapsto> (key, c, d))" "cerr s2 = cerr s1"
        "table s2 = write_slot (table s1) (fst p) (snd p) x" "tableSize s2 = tableSize s1" "hit s1 key p \<Longrightarrow> x = slot (table s1) p"
      moreover have "s2 = s'" using r run by (simp add: kvs_set_key_def)
      ultimately show thesis using that by blast
    qed
    have t': "table_ok (table s') (tableSize s1)" using s'(4,6) by (auto simp: kvs_inv_def kvs_ok_def shape_def)
    have sl: "slot (table s') q = (if q = p then x else slot (table s1) q)" if "in_table (tableSize s1) q" for q
      using slot_write [OF sh(2) pt that, of x] s'(2) by simp
    have "i \<in> set (concat (table s'))" if i: "contents (entryPool s') i \<noteq> None" "i = x \<or> i \<in> set (concat (table s1))" for i
    proof (cases "i = x")
      case True
      then show ?thesis using slot_in_concat [OF t' pt] sl [OF pt] by simp
    next
      case False
      then obtain q where q: "in_table (tableSize s1) q" "slot (table s1) q = i" using i(2) unfolding table_slots [OF sh(2)] by blast
      have "contents (entryPool s1) i \<noteq> None" using i(1) False s'(1) by simp
      then have "q \<noteq> p" using st q(2) False s'(5) key_of_None [of "entryPool s1" i] by (auto simp: settable_def hit_def)
      then show ?thesis using slot_in_concat [OF t' q(1)] sl [OF q(1)] q(2) by simp
    qed
    then show ?thesis using anchoredD [OF an1] s'(1,3) by (intro anchoredI) (metis fun_upd_apply)
  qed
qed

lemma held_card:
  assumes "I \<subseteq> set xs"
  shows "finite (held p I)" "card (held p I) \<le> length xs"
proof -
  have sub: "held p I \<subseteq> (\<lambda>i. the (e_value (pool p ! i))) ` set xs" using assms by (force simp: held_def)
  then show "finite (held p I)" by (rule finite_subset) simp
  have "card (held p I) \<le> card ((\<lambda>i. the (e_value (pool p ! i))) ` set xs)" using sub by (intro card_mono) simp_all
  also have "\<dots> \<le> card (set xs)" by (intro card_image_le) simp
  finally show "card (held p I) \<le> length xs" using card_length [of xs] by linarith
qed

subsection \<open>Runs\<close>

definition accounted :: "'z zlib \<Rightarrow> bool \<Rightarrow> nat \<Rightarrow> kvs \<Rightarrow> bool" where
  "accounted z enabled n s \<longleftrightarrow> kvs_inv z s \<and> anchored s \<and> compressionEnabled s = enabled \<and> (enabled \<or> plain (entryPool s)) \<and>
     finite (strays (entryPool s)) \<and> card (strays (entryPool s)) \<le> n"

lemma accounted_no_leak:
  assumes "accounted z enabled n s" "kvs_inv z s'" "anchored s'" "no_leak s s'"
  shows "accounted z enabled n s'"
  using assms card_mono [of "strays (entryPool s)" "strays (entryPool s')"] finite_subset
  unfolding accounted_def no_leak_def by fastforce

lemma exec_accounted:
  assumes acc: "accounted z enabled n s" and z: "zlib_ok z" and x: "op_args_ok set_args x"
    and run: "exec_op (kvs_ops z) x s = (Val r, s')"
  shows "accounted z enabled (n + leaks enabled r) s'"
proof -
  have inv: "kvs_inv z s" "anchored s" using acc by (simp_all add: accounted_def)
  have inv': "kvs_inv z s'" using kv.exec_safe [of z s x] z inv(1) x run by auto
  show ?thesis
  proof (cases x)
    case (Put k v)
    then obtain b where b: "kvs_set_key z k v s = (Val b, s')" "r = Stored b"
      using run by (auto simp: kvs_ops_def and_then_def split: prod.splits cpp.splits)
    have "accounted z enabled n s'"
      using accounted_no_leak [OF acc inv'] kvs_set_anchored [OF inv(1) z _ b(1) inv(2)] kvs_set_no_leak [OF inv(1) z b(1)] Put x by simp
    then show ?thesis using b(2) by (simp add: leaks_def)
  next
    case (Get k)
    then obtain f where f: "kvs_fetch z k s = (Val f, s')" "r = Found f"
      using run by (auto simp: kvs_ops_def and_then_def split: prod.splits cpp.splits)
    have a: "compressionEnabled s = enabled" "enabled \<or> plain (entryPool s)" "finite (strays (entryPool s))" "card (strays (entryPool s)) \<le> n"
      using acc by (simp_all add: accounted_def)
    have e: "compressionEnabled s \<or> plain (entryPool s)" using a by simp
    note l = kvs_fetch_leak [OF inv(1) f(1) e a(3)]
    have "anchored s'" using inv(2) l(4-6) by (simp add: anchored_def unanchored_def)
    then show ?thesis using inv' a l(1-3) f(2) by (auto simp: accounted_def plain_def)
  next
    case (Del k)
    then obtain b where b: "kvs_del_key k s = (Val b, s')" "r = Removed b"
      using run by (auto simp: kvs_ops_def and_then_def split: prod.splits cpp.splits)
    note d = kvs_del_no_leak [OF inv(1) b(1)]
    have "contents (entryPool s) i \<noteq> None" if "contents (entryPool s') i \<noteq> None" for i
      using d(4) that unfolding dom_def by blast
    then have "anchored s'" using anchoredD [OF inv(2)] d(2,3) by (intro anchoredI) metis
    then have "accounted z enabled n s'" using accounted_no_leak [OF acc inv' _ d(1)] by simp
    then show ?thesis using b(2) by (simp add: leaks_def)
  qed
qed

lemma run_accounted:
  assumes "accounted z enabled n s" "zlib_ok z" "list_all (op_args_ok set_args) xs" "run_ops (kvs_ops z) xs s = (Val rs, s')"
  shows "accounted z enabled (n + sum_list (map (leaks enabled) rs)) s'"
  using assms
proof (induction xs arbitrary: s n rs)
  case (Cons x xs)
  obtain r s1 rs1 where r: "exec_op (kvs_ops z) x s = (Val r, s1)" "run_ops (kvs_ops z) xs s1 = (Val rs1, s')" "rs = r # rs1"
    using Cons.prems(4) by (auto simp: and_then_def split: prod.splits cpp.splits)
  have "accounted z enabled (n + leaks enabled r) s1" using exec_accounted [OF Cons.prems(1,2) _ r(1)] Cons.prems(3) by simp
  from Cons.IH [OF this Cons.prems(2) _ r(2)] show ?case using Cons.prems(3) r(3) by (simp add: add.assoc)
qed simp

lemma fresh_accounted:
  assumes "2 \<le> initialSize st" "set_usePrimeNumbers st \<longrightarrow> sorted_wrt (<) (initialSize st # primes)" "KeyValueStore primes st = Val s"
  shows "accounted z (set_compressionEnabled st) 0 s"
proof -
  have s: "kvs_inv z s" using fresh_store [of st primes z] assms by (metis cpp.inject(1))
  let ?n = "initialSize st"
  obtain p where p: "MemoryPool primes ?n = Val p" "pool_inv p [1..<?n]" "contents p = Map.empty" using MemoryPool_ok [OF assms(1)] by metis
  have e: "entryPool s = p" "compressionEnabled s = set_compressionEnabled st" using assms(3) p(1) by (auto simp: KeyValueStore_def)
  have h: "heap p = empty_heap" "list_all (\<lambda>e. \<not> e_compressed e) (pool p)"
    using p(1) assms(1)
    by (auto simp: MemoryPool_def Let_def list_all_length nth_list_update nth_link_free entry0_def split: if_splits)
  have "anchored s" using p(3) e(1) by (intro anchoredI) simp
  moreover have "strays p = {}" using h(1) by (simp add: strays_def empty_heap_def)
  ultimately show ?thesis using s e h(2) by (simp add: accounted_def plain_def)
qed



subsection \<open>\<open>copyEntry\<close>\<close>

text \<open>
  A function of the store that nothing calls. It copies the value up to its first NUL, with \<^verbatim>\<open>strlen\<close>; without
  a NUL in the buffer it reads past its end. The new buffers are recorded in the entry only.
\<close>

definition copyEntry :: "entry \<Rightarrow> entry \<Rightarrow> cheap \<Rightarrow> (entry \<times> cheap) cpp" where
  "copyEntry dest src h = (case (e_key src, e_value src) of
       (Some k, Some a) \<Rightarrow> (case mem h a of
           None \<Rightarrow> UB
         | Some buf \<Rightarrow>
             if NUL \<notin> set buf then UB
             else let (a', h') = new_buf (cstr buf @ [NUL]) h
               in Val (dest\<lparr>e_key := Some k, e_value := Some a', e_vSize := e_vSize src, e_compressed := e_compressed src\<rparr>, h'))
     | _ \<Rightarrow> UB)"

text \<open>The copy of an entry holds the same value exactly when the buffer ends with its first NUL, as the uncompressed ones do.\<close>

lemma copyEntry_faithful:
  assumes "entry_ok h src" "entry_contents h src = Some (k, c, b)" "NUL \<in> set b"
  shows "\<exists>e h'. copyEntry dest src h = Val (e, h') \<and> (entry_contents h' e = Some (k, c, b) \<longleftrightarrow> b = cstr b @ [NUL])"
  using assms by (auto simp: copyEntry_def entry_ok_def entry_contents_def new_buf_def split: option.splits)

end
