(* ===== verification/Resp_Cuts.thy ===== *)
theory Resp_Cuts
  imports Reader_Props
begin

section \<open>Requests that arrive in pieces\<close>

text \<open>
  A request can be cut anywhere by the network. \<^verbatim>\<open>parseRespMessageLength\<close> calls a beginning of a request
  incomplete, which makes the reader wait for the rest, except when the cut is directly behind the prefix
  of a header line or between its CR and LF: then it reports an error, and the connection is closed.
  \<open>bad_cuts\<close> are these positions.
\<close>

fun bulk_cuts :: "bytes list \<Rightarrow> nat list" where
  "bulk_cuts [] = []"
| "bulk_cuts (s # args) =
     1 # (length (u64_to_ascii (length s)) + 2) # map (\<lambda>k. length (bulk s) + k) (bulk_cuts args)"

definition header_length :: "bytes list \<Rightarrow> nat" where
  "header_length args = length (u64_to_ascii (length args)) + 3"

definition bad_cuts :: "bytes list \<Rightarrow> nat list" where
  "bad_cuts args = 1 # (length (u64_to_ascii (length args)) + 2) # map (\<lambda>k. header_length args + k) (bulk_cuts args)"

subsection \<open>Numbers\<close>

lemma u64_to_ascii_short: "v < 10 ^ Suc m \<Longrightarrow> length (u64_to_ascii v) \<le> Suc m"
proof (induction m arbitrary: v)
  case 0
  then show ?case by (subst u64_to_ascii_rec) simp
next
  case (Suc m)
  then have "length (u64_to_ascii (v div 10)) \<le> Suc m" by (intro Suc.IH) (simp add: less_mult_imp_div_less mult.commute)
  then show ?case by (subst u64_to_ascii_rec) simp
qed

text \<open>The leading digits of a number are the digits of a number that is not greater, and not zero.\<close>

lemma leading_digits:
  assumes "0 < j" "j \<le> length (u64_to_ascii v)"
  shows "\<exists>w. take j (u64_to_ascii v) = u64_to_ascii w \<and> w \<le> v \<and> (0 < v \<longrightarrow> 0 < w)"
  using assms(2)
proof (induction v rule: less_induct)
  case (less v)
  show ?case
  proof (cases "j = length (u64_to_ascii v)")
    case True
    then show ?thesis by (intro exI [of _ v]) simp
  next
    case False
    have v: "10 \<le> v"
    proof (rule ccontr)
      assume "\<not> 10 \<le> v"
      then have "length (u64_to_ascii v) = 1" by (subst u64_to_ascii_rec) simp
      then show False using False less.prems assms(1) by simp
    qed
    then have u: "u64_to_ascii v = u64_to_ascii (v div 10) @ [char_of (48 + v mod 10)]" by (subst u64_to_ascii_rec) simp
    then have "j \<le> length (u64_to_ascii (v div 10))" using False less.prems by simp
    moreover from this obtain w where "take j (u64_to_ascii (v div 10)) = u64_to_ascii w" "w \<le> v div 10" "0 < w"
      using less.IH [of "v div 10"] v by (auto simp: div_greater_zero_iff)
    ultimately show ?thesis using u by (intro exI [of _ w]) auto
  qed
qed

text \<open>The beginning of a number: accepted as far as it goes, rejected behind its CR.\<close>

lemma read_len_begun:
  assumes "v < 2 ^ 64"
  shows "0 < j \<Longrightarrow> j \<le> length (u64_to_ascii v) \<Longrightarrow>
      \<exists>w. read_len (pre @ take j (u64_to_ascii v)) (length pre) False 0 = Some (length pre + j, w) \<and> w \<le> v \<and> (0 < v \<longrightarrow> 0 < w)"
    and "read_len (pre @ u64_to_ascii v @ [CR]) (length pre) False 0 = None"
proof -
  show "read_len (pre @ u64_to_ascii v @ [CR]) (length pre) False 0 = None"
    using read_len_cut(2) [OF u64_to_ascii_digits, of False v pre 0] by simp
  assume j: "0 < j" "j \<le> length (u64_to_ascii v)"
  then obtain w where w: "take j (u64_to_ascii v) = u64_to_ascii w" "w \<le> v" "0 < v \<longrightarrow> 0 < w" using leading_digits by blast
  moreover have "length (u64_to_ascii w) = j" using j(2) by (simp add: w(1) [symmetric])
  moreover have "read_len (pre @ u64_to_ascii w) (length pre) False 0 = Some (length pre + length (u64_to_ascii w), w)"
    using read_len_cut(1) [OF u64_to_ascii_digits, of False w pre 0] foldl_add_digit [of w] w(2) assms by simp
  ultimately show "\<exists>w. read_len (pre @ take j (u64_to_ascii v)) (length pre) False 0 = Some (length pre + j, w) \<and> w \<le> v \<and> (0 < v \<longrightarrow> 0 < w)"
    by auto
qed

lemma mem_shift: "(k :: nat) \<in> set (map (\<lambda>x. n + x) xs) \<longleftrightarrow> n \<le> k \<and> k - n \<in> set xs"
  by (force simp: image_iff)

subsection \<open>The beginning of a bulk string\<close>

lemma parse_args_empty: "parse_args (Suc n) pre start (length pre) = parse_status Incomplete"
  by simp

lemma parse_args_number:
  assumes "buf = pre @ RESP_BULK_PREFIX # t"
  shows "read_len buf (length pre + 1) False 0 = None \<Longrightarrow> parse_args (Suc n) buf start (length pre) = parse_status ParseError"
    and "read_len buf (length pre + 1) False 0 = Some (i, v) \<Longrightarrow> length buf < i + v + 2 \<Longrightarrow> i + v + 2 < 2 ^ 64 \<Longrightarrow>
      parse_args (Suc n) buf start (length pre) = parse_status Incomplete"
  using assms by (simp_all add: nth_append)

lemma bulk_cut:
  assumes k: "k < length (bulk s)" and len: "length s < 10 ^ 18" "length pre < 2 ^ 62"
  shows "parse_args (Suc n) (pre @ take k (bulk s)) start (length pre) =
    parse_status (if k = 1 \<or> k = length (u64_to_ascii (length s)) + 2 then ParseError else Incomplete)"
proof -
  let ?ds = "u64_to_ascii (length s)" and ?pre = "pre @ [RESP_BULK_PREFIX]"
  let ?d = "length (u64_to_ascii (length s))"
  have big: "length s < 2 ^ 64" using len(1) by (rule less_trans) simp
  have d: "?d \<le> 18" using u64_to_ascii_short [of "length s" 17] len(1) by simp
  consider (empty) "k = 0" | (prefix) "k = 1" | (digits) j where "k = Suc j" "0 < j" "j \<le> ?d" | (cr) "k = ?d + 2"
    | (data) j where "k = ?d + 3 + j"
  proof -
    have "k = 0 \<or> k = 1 \<or> (k = Suc (k - 1) \<and> 0 < k - 1 \<and> k - 1 \<le> ?d) \<or> k = ?d + 2 \<or> k = ?d + 3 + (k - (?d + 3))" by linarith
    then show thesis using that by blast
  qed
  then show ?thesis
  proof cases
    case empty
    then show ?thesis by simp
  next
    case prefix
    then have "take k (bulk s) = [RESP_BULK_PREFIX]" by (simp add: bulk_def)
    moreover have "read_len ?pre (length pre + 1) False 0 = None" by (subst read_len.simps) simp
    ultimately show ?thesis using parse_args_number(1) [of ?pre pre "[]"] prefix by simp
  next
    case digits
    have t: "pre @ take k (bulk s) = ?pre @ take j ?ds" using digits by (simp add: bulk_def)
    obtain w where w: "read_len (?pre @ take j ?ds) (length ?pre) False 0 = Some (length ?pre + j, w)" "w \<le> length s"
      using read_len_begun(1) [OF big digits(2,3), of ?pre] by blast
    have "parse_args (Suc n) (?pre @ take j ?ds) start (length pre) = parse_status Incomplete"
      using w digits d len by (intro parse_args_number(2) [of _ pre "take j ?ds" "length ?pre + j" w]) simp_all
    then show ?thesis unfolding t using digits by simp
  next
    case cr
    have t: "pre @ take k (bulk s) = ?pre @ ?ds @ [CR]" using cr by (simp add: bulk_def)
    have "parse_args (Suc n) (?pre @ ?ds @ [CR]) start (length pre) = parse_status ParseError"
      using read_len_begun(2) [OF big, of ?pre] by (intro parse_args_number(1) [of _ pre "?ds @ [CR]"]) simp_all
    then show ?thesis unfolding t using cr by simp
  next
    case data
    let ?rest = "take j (s @ [CR, LF])"
    have "k = Suc (?d + Suc (Suc j))" using data by simp
    then have t: "pre @ take k (bulk s) = ?pre @ ?ds @ CR # LF # ?rest" by (simp add: bulk_def)
    have "read_len (?pre @ ?ds @ CR # LF # ?rest) (length ?pre) False 0 = Some (length ?pre + ?d + 2, length s)"
      using read_len_digits [OF u64_to_ascii_digits, of False "length s" ?pre ?rest 0] foldl_add_digit [OF big] by simp
    moreover have "j < length s + 2" using k data by (simp add: bulk_def)
    ultimately have "parse_args (Suc n) (?pre @ ?ds @ CR # LF # ?rest) start (length pre) = parse_status Incomplete"
      using len d by (intro parse_args_number(2) [of _ pre "?ds @ CR # LF # ?rest" "length ?pre + ?d + 2" "length s"]) simp_all
    then show ?thesis unfolding t using data by simp
  qed
qed

subsection \<open>The beginning of a request\<close>

lemma bulk_cuts_pos: "k \<in> set (bulk_cuts args) \<Longrightarrow> 0 < k"
  by (induction args arbitrary: k) auto

lemma first_bulk_cuts: "k < length (bulk s) \<Longrightarrow> k \<in> set (bulk_cuts (s # args)) \<longleftrightarrow> k = 1 \<or> k = length (u64_to_ascii (length s)) + 2"
  by auto

lemma later_bulk_cuts:
  assumes "length (bulk s) \<le> k"
  shows "k \<in> set (bulk_cuts (s # args)) \<longleftrightarrow> k - length (bulk s) \<in> set (bulk_cuts args)"
proof -
  have "length (u64_to_ascii (length s)) + 2 < length (bulk s)" "1 < length (bulk s)" by (simp_all add: bulk_def)
  then show ?thesis using assms mem_shift [of k "length (bulk s)" "bulk_cuts args"] by auto
qed

lemma parse_args_cut:
  assumes "k < length (concat (map bulk args))" "length (pre @ concat (map bulk args)) < 2 ^ 59"
  shows "parse_args (length args) (pre @ take k (concat (map bulk args))) start (length pre) =
    parse_status (if k \<in> set (bulk_cuts args) then ParseError else Incomplete)"
  using assms
proof (induction args arbitrary: pre k)
  case (Cons s args)
  have len: "length s < 10 ^ 18" "length pre < 2 ^ 62" using Cons.prems(2) by (simp_all add: bulk_def)
  show ?case
  proof (cases "k < length (bulk s)")
    case True
    then show ?thesis using bulk_cut [OF True len, of "length args" start] first_bulk_cuts [OF True, of args] by simp
  next
    case False
    let ?k = "k - length (bulk s)" and ?pre = "pre @ bulk s"
    let ?t = "take ?k (concat (map bulk args))"
    let ?n = "u64_to_ascii (length s)"
    let ?buf = "pre @ bulk s @ ?t"
    have t: "take k (concat (map bulk (s # args))) = bulk s @ ?t" using False by simp
    have buf: "?buf = pre @ RESP_BULK_PREFIX # ?n @ CR # LF # (s @ CR # LF # ?t)"
      and buf2: "?buf = (pre @ RESP_BULK_PREFIX # ?n @ [CR, LF] @ s) @ CR # LF # ?t" by (simp_all add: bulk_def)
    let ?i = "length pre + length ?n + 3"
    have num: "read_len ?buf (length pre + 1) False 0 = Some (?i, length s)"
      unfolding buf by (rule read_number(1)) (use len(1) in simp)
    have small: "length ?buf < 2 ^ 63" using Cons.prems by simp
    have pos: "?i + length s = length (pre @ RESP_BULK_PREFIX # ?n @ [CR, LF] @ s)" by simp
    have "crlf_at ?buf (?i + length s) = Val True"
      unfolding pos using small unfolding buf2 by (intro crlf_at_found) simp
    moreover have "length pre < length ?buf" "?buf ! length pre = RESP_BULK_PREFIX" "?i + length s + 2 \<le> length ?buf"
      by (simp_all add: bulk_def)
    ultimately have "parse_args (Suc (length args)) ?buf start (length pre) = parse_args (length args) ?buf start (?i + length s + 2)"
      using num small by (intro parse_args_step)
    also have "?i + length s + 2 = length ?pre" by (simp add: bulk_def)
    also have "parse_args (length args) ?buf start (length ?pre) =
        parse_status (if ?k \<in> set (bulk_cuts args) then ParseError else Incomplete)"
      using Cons.IH [of ?k ?pre] Cons.prems False by simp
    finally show ?thesis using later_bulk_cuts [of s k args] False unfolding t by simp
  qed
qed simp

text \<open>
  C22: A request that has arrived in part is waited for or refused, depending on the last byte: of every
  request, a beginning that ends directly behind the \<^verbatim>\<open>*\<close> or a \<^verbatim>\<open>$\<close> of a header line, or between the CR and
  the LF of one, is reported as an error, wherever in the buffer it stands, and every other beginning as
  incomplete; none is taken for a complete request.
\<close>

theorem request_cuts:
  assumes "args \<noteq> []" and "0 < k" and "k < length (resp_request args)" and "length (pre @ resp_request args) < 2 ^ 59"
  shows "parseRespMessageLength (pre @ take k (resp_request args)) (length pre) =
    parse_status (if k \<in> set (bad_cuts args) then ParseError else Incomplete)"
proof -
  let ?ds = "u64_to_ascii (length args)" and ?pre = "pre @ [RESP_ARRAY_PREFIX]"
  let ?d = "length (u64_to_ascii (length args))"
  obtain n where n: "length args = Suc n" using assms(1) by (cases args) auto
  have big: "length args < 2 ^ 64" using assms(4) length_args_bulks [of args] by (simp add: resp_request_def)
  have start: "length pre < length (?pre @ t)" "(?pre @ t) ! length pre = RESP_ARRAY_PREFIX" for t by (simp_all add: nth_append)
  have small: "header_length args = ?d + 3" by (simp add: header_length_def)
  have hit: "k \<in> set (bad_cuts args) \<longleftrightarrow> k = 1 \<or> k = ?d + 2 \<or> (?d + 3 \<le> k \<and> k - (?d + 3) \<in> set (bulk_cuts args))"
    using mem_shift [of k "?d + 3" "bulk_cuts args"] by (auto simp: bad_cuts_def small)
  consider (prefix) "k = 1" | (digits) j where "k = Suc j" "0 < j" "j \<le> ?d" | (cr) "k = ?d + 2" | (data) j where "k = Suc (?d + Suc (Suc j))"
  proof -
    have "k = 1 \<or> (k = Suc (k - 1) \<and> 0 < k - 1 \<and> k - 1 \<le> ?d) \<or> k = ?d + 2 \<or> k = Suc (?d + Suc (Suc (k - (?d + 3))))"
      using assms(2) by linarith
    then show thesis using that by blast
  qed
  then show ?thesis
  proof cases
    case prefix
    then have "take k (resp_request args) = [RESP_ARRAY_PREFIX]" by (simp add: resp_request_def)
    moreover have "read_len ?pre (length pre + 1) False 0 = None" by (subst read_len.simps) simp
    ultimately show ?thesis using prefix hit by (simp add: parseRespMessageLength_def)
  next
    case digits
    have t: "pre @ take k (resp_request args) = ?pre @ take j ?ds" using digits by (simp add: resp_request_def)
    obtain w where w: "read_len (?pre @ take j ?ds) (length ?pre) False 0 = Some (length ?pre + j, w)" "0 < w"
      using read_len_begun(1) [OF big digits(2,3), of ?pre] n by auto
    have "parse_args w (?pre @ take j ?ds) (length pre) (length ?pre + j) = parse_status Incomplete"
      using w(2) digits(3) by (cases w) simp_all
    then have "parseRespMessageLength (?pre @ take j ?ds) (length pre) = parse_status Incomplete"
      using w(1) start [of "take j ?ds"] by (simp add: parseRespMessageLength_def)
    moreover have "k \<notin> set (bad_cuts args)" unfolding hit using digits by auto
    ultimately show ?thesis unfolding t by simp
  next
    case cr
    have t: "pre @ take k (resp_request args) = ?pre @ ?ds @ [CR]" using cr by (simp add: resp_request_def)
    have "read_len (?pre @ ?ds @ [CR]) (length ?pre) False 0 = None" using read_len_begun(2) [OF big, of ?pre] by simp
    then show ?thesis unfolding t using cr hit start [of "?ds @ [CR]"] by (simp add: parseRespMessageLength_def)
  next
    case data
    let ?hd = "pre @ RESP_ARRAY_PREFIX # ?ds @ [CR, LF]" and ?t = "take j (concat (map bulk args))"
    have t: "pre @ take k (resp_request args) = ?hd @ ?t" using data by (simp add: resp_request_def)
    have "read_len (?hd @ ?t) (length pre + 1) False 0 = Some (length ?hd, length args)"
      using read_number(1) [OF big, of pre RESP_ARRAY_PREFIX ?t] by simp
    moreover have "j < length (concat (map bulk args))" using assms(3) data by (simp add: resp_request_def)
    then have "parse_args (length args) (?hd @ ?t) (length pre) (length ?hd) =
        parse_status (if j \<in> set (bulk_cuts args) then ParseError else Incomplete)"
      using assms(4) by (intro parse_args_cut) (simp_all add: resp_request_def)
    ultimately have "parseRespMessageLength (?hd @ ?t) (length pre) =
        parse_status (if j \<in> set (bulk_cuts args) then ParseError else Incomplete)"
      using parse_header_step [of "length pre" "?hd @ ?t" "length ?hd" "length args"] by (simp add: nth_append)
    moreover have "k \<in> set (bad_cuts args) \<longleftrightarrow> j \<in> set (bulk_cuts args)" unfolding hit using data by auto
    ultimately show ?thesis unfolding t by simp
  qed
qed

lemma small_examples: "length (resp_request [''GET'', ''a'']) = 20" "bad_cuts [''GET'', ''a''] = [1, 3, 5, 7, 14, 16]"
  by code_simp+

theorem request_cuts_witness:
  "parseRespMessageLength (take 16 (resp_request [''GET'', ''a''])) 0 = parse_status ParseError \<and>
   parseRespMessageLength (take 17 (resp_request [''GET'', ''a''])) 0 = parse_status Incomplete"
  using request_cuts [of "[''GET'', ''a'']" 16 "[]"] request_cuts [of "[''GET'', ''a'']" 17 "[]"] small_examples by simp

subsection \<open>What the reader does with it\<close>

text \<open>A request that has begun: its strings and how many of its bytes have arrived; \<open>None\<close> for none.\<close>

fun begun_bytes :: "(bytes list \<times> nat) option \<Rightarrow> bytes" where
  "begun_bytes None = []"
| "begun_bytes (Some (args, k)) = take k (resp_request args)"

fun begun_ok :: "(bytes list \<times> nat) option \<Rightarrow> bool" where
  "begun_ok None = True"
| "begun_ok (Some (args, k)) \<longleftrightarrow> args \<noteq> [] \<and> 0 < k \<and> k < length (resp_request args) \<and> k \<notin> set (bad_cuts args) \<and>
     length (resp_request args) < 2 ^ 30"

lemma parse_loop_begun:
  assumes "begun_ok b" "length pre < 2 ^ 30"
  shows "parse_loop (pre @ begun_bytes b) (length pre) reqs = Some (Val (Parsed (pre @ begun_bytes b) (length pre) reqs))"
proof (cases b)
  case None
  then show ?thesis by (simp add: parse_loop_unfold)
next
  case (Some ak)
  then obtain args k where b: "b = Some (args, k)" by (cases ak) simp
  let ?buf = "pre @ take k (resp_request args)"
  have ak: "args \<noteq> []" "0 < k" "k < length (resp_request args)" "k \<notin> set (bad_cuts args)" "length (resp_request args) < 2 ^ 30"
    using assms(1) b by simp_all
  have "length (pre @ resp_request args) < 2 ^ 59" using ak(5) assms(2) by simp
  then have "parseRespMessageLength ?buf (length pre) = parse_status Incomplete" using request_cuts [OF ak(1-3), of pre] ak(4) by simp
  moreover obtain t where t: "take k (resp_request args) = RESP_ARRAY_PREFIX # t"
    using ak(2) by (cases k) (simp_all add: resp_request_def)
  have "length pre < length ?buf" "?buf ! length pre = RESP_ARRAY_PREFIX" unfolding t by simp_all
  ultimately show ?thesis by (subst parse_loop_unfold) (simp add: b parse_status_def)
qed

text \<open>Whole requests and then the beginning of another: the whole ones are queued, the beginning stays in the buffer.\<close>

lemma parse_loop_requests:
  assumes "begun_ok b" "length (concat (map resp_request reqs) @ begun_bytes b) < 2 ^ 30"
  shows "\<exists>buf. parse_loop (concat (map resp_request reqs) @ begun_bytes b) 0 [] =
      Some (Val (Parsed buf (length (concat (map resp_request reqs))) (map (view_of \<circ> RespMsg) reqs))) \<and>
    drop (length (concat (map resp_request reqs))) buf = begun_bytes b \<and>
    length (concat (map resp_request reqs)) \<le> length buf"
proof -
  have w: "concat (map wire (map RespMsg reqs)) = concat (map resp_request reqs)" by (simp add: comp_def)
  have "length ([] @ concat (map wire (map RespMsg reqs)) @ begun_bytes b) < 2 ^ 63" using assms(2) unfolding w by simp
  then obtain pre where pre: "length pre = length (concat (map resp_request reqs))"
    "parse_loop (concat (map resp_request reqs) @ begun_bytes b) 0 [] = parse_loop (pre @ begun_bytes b) (length pre) (map (view_of \<circ> RespMsg) reqs)"
    using parse_loop_wire [of "map RespMsg reqs" "[]" "begun_bytes b" "[]"] unfolding w by (auto simp: list_all_iff)
  then show ?thesis using parse_loop_begun [OF assms(1), of pre] assms(2) by (intro exI [of _ "pre @ begun_bytes b"]) simp
qed

end
