(* ===== verification/Many_Conns.thy ===== *)
theory Many_Conns
  imports Session Resp_Cuts
begin

section \<open>Rounds with many connections\<close>

text \<open>
  One \<^verbatim>\<open>epoll_wait\<close> reports many connections. All are read first, then their requests are run connection
  by connection on the same shards, then all responses, which are live until then, are sent. What a
  connection delivers in a round are the missing bytes of a request that has begun, whole requests, and
  the beginning of another; or its end, with which everything that came before in the same round is dropped.
\<close>

record batch =
  b_fd :: int
  b_chunks :: "bytes list"
  b_gone :: bool
  b_reqs :: "bytes list list"
  b_begun :: "(bytes list \<times> nat) option"
  b_now :: timespec

definition batch_event :: "batch \<Rightarrow> epoll_event" where
  "batch_event b = \<lparr>ev_fd = b_fd b, ev_error = False, ev_in = True,
     ev_reads = map ReadData (b_chunks b) @ [if b_gone b then ReadEof else ReadAgain], ev_clock = Some (b_now b)\<rparr>"

text \<open>\<open>r\<close> are the bytes that wait in the buffer of the connection.\<close>

definition batch_ok :: "bytes \<Rightarrow> batch \<Rightarrow> bool" where
  "batch_ok r b \<longleftrightarrow>
     (if b_gone b then b_reqs b = [] \<and> b_begun b = None \<and> length (b_chunks b) < READ_MAX_ATTEMPTS
      else r @ concat (b_chunks b) = concat (map resp_request (b_reqs b)) @ begun_bytes (b_begun b) \<and> begun_ok (b_begun b) \<and>
        length (b_chunks b) \<le> READ_MAX_ATTEMPTS \<and> length (r @ concat (b_chunks b)) < 2 ^ 30)"

definition batch_status :: "batch \<Rightarrow> ReqReadOperationResult" where
  "batch_status b = (if b_gone b then Failure else if b_reqs b = [] then AwaitingData else Success)"

text \<open>The specification: the batches one after the other, each with the transaction of its connection.\<close>

fun spec_round :: "'z zlib \<Rightarrow> (int \<times> cmd list) list \<Rightarrow> (int \<Rightarrow> tx_view) \<times> CacheServer \<Rightarrow>
    bytes list list cpp \<times> (int \<Rightarrow> tx_view) \<times> CacheServer" where
  "spec_round z [] s = (Val [], s)"
| "spec_round z ((fd, xs) # bs) (txs, sv) = (case spec_run z xs (txs fd, sv) of
       (Val ans, tx, sv) \<Rightarrow> and_then (spec_round z bs (txs(fd := tx), sv)) (\<lambda>rest s. (Val (ans # rest), s)) id
     | (Exn m, tx, sv) \<Rightarrow> (Exn m, txs, sv)
     | (UB, tx, sv) \<Rightarrow> (UB, txs, sv)
     | (Hang, tx, sv) \<Rightarrow> (Hang, txs, sv))"

definition commands :: "batch \<Rightarrow> int \<times> cmd list" where
  "commands b = (b_fd b, map command_of (b_reqs b))"

text \<open>The transaction of a connection that has ended is dropped before the requests are run.\<close>

definition hung_up :: "batch list \<Rightarrow> (int \<Rightarrow> tx_view) \<Rightarrow> int \<Rightarrow> tx_view" where
  "hung_up bs txs fd = (if list_ex (\<lambda>b. b_fd b = fd \<and> b_gone b) bs then Idle else txs fd)"

text \<open>The bytes that wait for the rest of their request after a round.\<close>

definition refilled :: "batch list \<Rightarrow> (int \<Rightarrow> bytes) \<Rightarrow> int \<Rightarrow> bytes" where
  "refilled bs m fd = (case find (\<lambda>b. b_fd b = fd) bs of None \<Rightarrow> m fd | Some b \<Rightarrow> begun_bytes (b_begun b))"

subsection \<open>The states of a connection in a round\<close>

definition conn_of :: "EventServer \<Rightarrow> int \<Rightarrow> ConnectionData option" where
  "conn_of es = connections (connManager es)"

definition conn_idle :: "ConnectionData \<Rightarrow> bool" where
  "conn_idle d \<longleftrightarrow> pendingRequests d = [] \<and> bytesToErase d = 0 \<and> tx_ok (cd_respTransaction d)"

definition conn_loaded :: "batch \<Rightarrow> ConnectionData \<Rightarrow> bool" where
  "conn_loaded b d \<longleftrightarrow> bytesToErase d \<le> length (readBuffer d) \<and> drop (bytesToErase d) (readBuffer d) = begun_bytes (b_begun b) \<and>
     pendingRequests d = map resp_view (b_reqs b) \<and> tx_ok (cd_respTransaction d) \<and> (b_reqs b = [] \<longrightarrow> bytesToErase d = 0)"

definition with_conns :: "(int \<rightharpoonup> ConnectionData) \<Rightarrow> EventServer \<Rightarrow> EventServer" where
  "with_conns cs es = es\<lparr>connManager := (connManager es)\<lparr>connections := cs\<rparr>\<rparr>"

lemma with_conns_simps [simp]:
  "conn_of (with_conns cs es) = cs" "with_conns cs (with_conns cs' es) = with_conns cs es" "with_conns (conn_of es) es = es"
  "cache (with_conns cs es) = cache es" "sent_to (with_conns cs es) = sent_to es" "numRequests (with_conns cs es) = numRequests es"
  "conn_mutex (connManager (with_conns cs es)) = conn_mutex (connManager es)" "connections (connManager (with_conns cs es)) = cs"
  "conn_of (es\<lparr>cache := sv\<rparr>) = conn_of es" "conn_of (es\<lparr>numRequests := n\<rparr>) = conn_of es" "conn_of (es\<lparr>sent_to := s\<rparr>) = conn_of es"
  "put_data fd d es = with_conns ((conn_of es)(fd \<mapsto> d)) es"
  "(with_conns cs es)\<lparr>cache := sv\<rparr> = with_conns cs (es\<lparr>cache := sv\<rparr>)"
  by (simp_all add: with_conns_def conn_of_def put_data_def put_conn_def)

text \<open>The transactions, the times of the last activity and the waiting bytes.\<close>

definition tx_in :: "(int \<rightharpoonup> ConnectionData) \<Rightarrow> int \<Rightarrow> tx_view" where
  "tx_in cs fd = (case cs fd of None \<Rightarrow> Idle | Some d \<Rightarrow> tx_of (cd_respTransaction d))"

definition last_in :: "(int \<rightharpoonup> ConnectionData) \<Rightarrow> int \<rightharpoonup> timespec" where
  "last_in cs fd = map_option lastActivity (cs fd)"

definition buf_in :: "(int \<rightharpoonup> ConnectionData) \<Rightarrow> int \<Rightarrow> bytes" where
  "buf_in cs fd = (case cs fd of None \<Rightarrow> [] | Some d \<Rightarrow> readBuffer d)"

definition touched :: "batch list \<Rightarrow> (int \<rightharpoonup> timespec) \<Rightarrow> int \<rightharpoonup> timespec" where
  "touched bs l = fold (\<lambda>b l. l(b_fd b \<mapsto> b_now b)) bs l"

lemma touched_simps [simp]: "touched [] l = l" "touched (b # bs) l = touched bs (l(b_fd b \<mapsto> b_now b))"
  by (simp_all add: touched_def)

lemma touched_dom: "dom (touched bs l) = b_fd ` set bs \<union> dom l"
  by (induction bs arbitrary: l) auto

lemma last_in_upd: "last_in (cs(fd \<mapsto> d)) = (last_in cs)(fd \<mapsto> lastActivity d)"
  by (simp add: last_in_def fun_eq_iff)

lemma tx_in_upd: "tx_in (cs(fd \<mapsto> d)) = (tx_in cs)(fd := tx_of (cd_respTransaction d))"
  by (simp add: tx_in_def fun_eq_iff)

lemma buf_in_upd: "buf_in (cs(fd \<mapsto> d)) = (buf_in cs)(fd := readBuffer d)"
  by (simp add: buf_in_def fun_eq_iff)

lemma refilled_cong:
  assumes "\<And>fd. fd \<notin> b_fd ` set bs \<Longrightarrow> m fd = m' fd"
  shows "refilled bs m = refilled bs m'"
proof (rule ext)
  fix fd
  show "refilled bs m fd = refilled bs m' fd"
  proof (cases "find (\<lambda>b. b_fd b = fd) bs")
    case None
    then have "fd \<notin> b_fd ` set bs" by (auto simp: find_None_iff)
    then show ?thesis using None assms by (simp add: refilled_def)
  qed (simp add: refilled_def)
qed

lemma refilled_Nil [simp]: "refilled [] m = m"
  by (simp add: refilled_def fun_eq_iff)

lemma refilled_Cons: "refilled (b # bs) m = (refilled bs m)(b_fd b := begun_bytes (b_begun b))"
  by (simp add: refilled_def fun_eq_iff)

lemma hung_up_simps:
  "hung_up [] txs = txs" "hung_up (b # bs) txs = hung_up bs (if b_gone b then txs(b_fd b := Idle) else txs)"
  by (auto simp: hung_up_def fun_eq_iff)

subsection \<open>Reading\<close>

text \<open>What reading does to a connection: a request that has begun is continued, a connection that has ended is emptied.\<close>

definition batch_read :: "batch \<Rightarrow> ConnectionData \<Rightarrow> ConnectionData \<Rightarrow> bool" where
  "batch_read b d d' \<longleftrightarrow> conn_loaded b d' \<and> lastActivity d' = b_now b \<and>
     tx_of (cd_respTransaction d') = (if b_gone b then Idle else tx_of (cd_respTransaction d))"

lemma read_loop_gone:
  assumes "att + length bss < READ_MAX_ATTEMPTS"
  shows "read_loop (map ReadData bss @ [ReadEof]) att err buf = (PeerClosed, buf @ concat bss)"
  using assms by (induction bss arbitrary: att buf) auto

text \<open>Reading changes the table of connections only.\<close>

definition same_but_conns :: "EventServer \<Rightarrow> EventServer \<Rightarrow> bool" where
  "same_but_conns es es' \<longleftrightarrow> cache es' = cache es \<and> sent_to es' = sent_to es \<and>
     conn_mutex (connManager es') = conn_mutex (connManager es)"

lemma read_gone:
  assumes "\<not> conn_mutex (connManager es)" "conn_of es (b_fd b) = Some d" "b_gone b" "batch_ok r b"
  shows "\<exists>es1. readRequestAsync (b_fd b) (ev_reads (batch_event b)) es = (Val (batch_status b), es1) \<and> same_but_conns es es1 \<and>
    conn_of es1 = (conn_of es)(b_fd b := None)"
proof -
  have "length (b_chunks b) < READ_MAX_ATTEMPTS" using assms(3,4) by (simp add: batch_ok_def)
  then have "read_loop (map ReadData (b_chunks b) @ [ReadEof]) 0 0 (readBuffer d) = (PeerClosed, readBuffer d @ concat (b_chunks b))"
    using read_loop_gone [of 0 "b_chunks b"] by simp
  then show ?thesis using assms(1-3)
    by (simp add: readRequestAsync_def batch_event_def batch_status_def conn_at_def conn_of_def fail_closed_def on_manager_def
        closeConnection_eq drop_conn_def same_but_conns_def Let_def)
qed

lemma read_requests:
  assumes "conn_of es (b_fd b) = Some d" "conn_idle d" "\<not> b_gone b" "batch_ok (readBuffer d) b"
  shows "\<exists>d'. readRequestAsync (b_fd b) (ev_reads (batch_event b)) es = (Val (batch_status b), put_data (b_fd b) d' es) \<and>
    conn_loaded b d' \<and> cd_respTransaction d' = cd_respTransaction d"
proof -
  let ?w = "concat (map resp_request (b_reqs b))"
  have b: "readBuffer d @ concat (b_chunks b) = ?w @ begun_bytes (b_begun b)" "begun_ok (b_begun b)"
    "length (b_chunks b) \<le> READ_MAX_ATTEMPTS" using assms(3,4) by (simp_all add: batch_ok_def)
  have small: "length (?w @ begun_bytes (b_begun b)) < 2 ^ 30" using assms(3,4) unfolding batch_ok_def by metis
  obtain buf where buf: "parse_loop (?w @ begun_bytes (b_begun b)) 0 [] =
      Some (Val (Parsed buf (length ?w) (map (view_of \<circ> RespMsg) (b_reqs b))))"
    "drop (length ?w) buf = begun_bytes (b_begun b)" "length ?w \<le> length buf" using parse_loop_requests [OF b(2) small] by blast
  have view: "map (view_of \<circ> RespMsg) (b_reqs b) = map resp_view (b_reqs b)" by (simp add: resp_view_def)
  let ?d = "d\<lparr>readBuffer := buf, pendingRequests := map resp_view (b_reqs b), bytesToErase := length ?w\<rparr>"
  have "read_loop (map ReadData (b_chunks b) @ [ReadAgain]) 0 0 (readBuffer d) = (Drained, ?w @ begun_bytes (b_begun b))"
    using read_loop_data [of 0 "b_chunks b" 0 "readBuffer d"] b(1,3) by simp
  then have "readRequestAsync (b_fd b) (ev_reads (batch_event b)) es = (Val (batch_status b), put_data (b_fd b) ?d es)"
    using assms(1-3) buf(1) view
    by (simp add: readRequestAsync_def batch_event_def batch_status_def conn_at_def conn_of_def conn_idle_def Let_def del: with_conns_simps)
  moreover have "conn_loaded b ?d" using buf(2,3) assms(2) by (simp add: conn_loaded_def conn_idle_def)
  ultimately show ?thesis by (intro exI [of _ ?d]) simp
qed

lemma read_one:
  assumes "\<not> conn_mutex (connManager es)" "conn_of es (b_fd b) = Some d" "conn_idle d" "batch_ok (readBuffer d) b"
  shows "\<exists>es' d'. batch_read b d d' \<and> conn_of es' = (conn_of es)(b_fd b \<mapsto> d') \<and> same_but_conns es es' \<and>
    read_events (batch_event b # evs) es = and_then (read_events evs es') (\<lambda>rs es. (Val ((b_fd b, batch_status b) # rs), es)) id"
proof -
  let ?active = "\<lambda>d. d\<lparr>lastActivity := b_now b\<rparr>"
  obtain es1 where es1: "readRequestAsync (b_fd b) (ev_reads (batch_event b)) es = (Val (batch_status b), es1)" "same_but_conns es es1"
    and d1: "batch_read b d (?active (conn_at (connManager es1) (b_fd b)))" "\<And>fd. fd \<noteq> b_fd b \<Longrightarrow> conn_of es1 fd = conn_of es fd"
  proof (cases "b_gone b")
    case True
    then obtain es1 where es1: "readRequestAsync (b_fd b) (ev_reads (batch_event b)) es = (Val (batch_status b), es1)" "same_but_conns es es1"
      "conn_of es1 = (conn_of es)(b_fd b := None)" using read_gone [OF assms(1,2) _ assms(4)] by blast
    then have "conn_at (connManager es1) (b_fd b) = default_connection" by (simp add: conn_at_def conn_of_def)
    moreover have "batch_read b d (?active default_connection)" using True assms(4)
      by (simp add: batch_read_def conn_loaded_def batch_ok_def default_connection_def new_connection_def tx_ok_def tx_of_def)
    ultimately show thesis using that [of es1] es1 by simp
  next
    case False
    then obtain d' where d': "readRequestAsync (b_fd b) (ev_reads (batch_event b)) es = (Val (batch_status b), put_data (b_fd b) d' es)"
      "conn_loaded b d'" "cd_respTransaction d' = cd_respTransaction d" using read_requests [OF assms(2,3) _ assms(4)] by blast
    moreover have "conn_at (connManager (put_data (b_fd b) d' es)) (b_fd b) = d'" by (simp add: conn_at_def)
    moreover have "same_but_conns es (put_data (b_fd b) d' es)" by (simp add: same_but_conns_def)
    ultimately show thesis using that [of "put_data (b_fd b) d' es"] False by (auto simp: batch_read_def conn_loaded_def)
  qed
  let ?d = "?active (conn_at (connManager es1) (b_fd b))"
  have "\<not> conn_mutex (connManager es1)" using es1(2) assms(1) by (simp add: same_but_conns_def)
  then have "read_events (batch_event b # evs) es =
      and_then (read_events evs (put_data (b_fd b) ?d es1)) (\<lambda>rs es. (Val ((b_fd b, batch_status b) # rs), es)) id"
    using es1(1) by (simp add: batch_event_def on_manager_def updateActivity_eq put_data_def del: with_conns_simps)
  moreover have "conn_of (put_data (b_fd b) ?d es1) = (conn_of es)(b_fd b \<mapsto> ?d)" using d1(2) by (auto simp: fun_eq_iff)
  moreover have "same_but_conns es (put_data (b_fd b) ?d es1)" using es1(2) by (simp add: same_but_conns_def)
  ultimately show ?thesis using d1(1) by blast
qed

lemma read_many:
  assumes "\<not> conn_mutex (connManager es)" "distinct (map b_fd bs)" "list_all (\<lambda>b. batch_ok (buf_in (conn_of es) (b_fd b)) b) bs"
    and "list_all (\<lambda>b. \<exists>d. conn_of es (b_fd b) = Some d \<and> conn_idle d) bs"
  shows "\<exists>es'. read_events (map batch_event bs) es = (Val (map (\<lambda>b. (b_fd b, batch_status b)) bs), es') \<and> same_but_conns es es' \<and>
    list_all (\<lambda>b. \<exists>d. conn_of es' (b_fd b) = Some d \<and> conn_loaded b d) bs \<and> tx_in (conn_of es') = hung_up bs (tx_in (conn_of es)) \<and>
    last_in (conn_of es') = touched bs (last_in (conn_of es)) \<and> (\<forall>fd. fd \<notin> b_fd ` set bs \<longrightarrow> conn_of es' fd = conn_of es fd)"
  using assms
proof (induction bs arbitrary: es)
  case Nil
  then show ?case by (intro exI [of _ es]) (simp add: same_but_conns_def hung_up_simps)
next
  case (Cons b bs)
  obtain d where d: "conn_of es (b_fd b) = Some d" "conn_idle d" using Cons.prems(4) by auto
  then have "batch_ok (readBuffer d) b" using Cons.prems(3) by (simp add: buf_in_def)
  from read_one [OF Cons.prems(1) d this, of "map batch_event bs"] obtain es1 d' where
    1: "batch_read b d d'" "conn_of es1 = (conn_of es)(b_fd b \<mapsto> d')" "same_but_conns es es1"
    "read_events (batch_event b # map batch_event bs) es =
      and_then (read_events (map batch_event bs) es1) (\<lambda>rs es. (Val ((b_fd b, batch_status b) # rs), es)) id" by blast
  have other: "b_fd x \<noteq> b_fd b" if "x \<in> set bs" for x
    using Cons.prems(2) that by (metis distinct.simps(2) image_eqI list.set_map list.simps(9))
  have "list_all (\<lambda>b. \<exists>d. conn_of es1 (b_fd b) = Some d \<and> conn_idle d) bs"
    "list_all (\<lambda>b. batch_ok (buf_in (conn_of es1) (b_fd b)) b) bs"
    using Cons.prems(3,4) other 1(2) by (auto simp: list_all_iff buf_in_upd)
  moreover have "\<not> conn_mutex (connManager es1)" "distinct (map b_fd bs)" using Cons.prems(1,2) 1(3) by (simp_all add: same_but_conns_def)
  ultimately obtain es2 where
    2: "read_events (map batch_event bs) es1 = (Val (map (\<lambda>b. (b_fd b, batch_status b)) bs), es2)" "same_but_conns es1 es2"
    "list_all (\<lambda>b. \<exists>d. conn_of es2 (b_fd b) = Some d \<and> conn_loaded b d) bs" "tx_in (conn_of es2) = hung_up bs (tx_in (conn_of es1))"
    "last_in (conn_of es2) = touched bs (last_in (conn_of es1))"
    "\<forall>fd. fd \<notin> b_fd ` set bs \<longrightarrow> conn_of es2 fd = conn_of es1 fd" using Cons.IH [of es1] by blast
  have "tx_in (conn_of es1) = (if b_gone b then (tx_in (conn_of es))(b_fd b := Idle) else tx_in (conn_of es))"
    using d(1) 1(1,2) by (auto simp: tx_in_def fun_eq_iff batch_read_def)
  then have "tx_in (conn_of es2) = hung_up (b # bs) (tx_in (conn_of es))" using 2(4) by (simp add: hung_up_simps)
  moreover have "last_in (conn_of es2) = touched (b # bs) (last_in (conn_of es))"
    using 2(5) 1(1,2) by (simp add: last_in_upd batch_read_def)
  moreover have "conn_of es2 (b_fd b) = Some d'" using 2(6) 1(2) Cons.prems(2) by simp
  moreover have "same_but_conns es es2" using 1(3) 2(2) by (simp add: same_but_conns_def)
  ultimately show ?case using 1 2 by (intro exI [of _ es2]) (auto simp: batch_read_def)
qed

subsection \<open>Running the requests\<close>

lemma slots_append: "slots_of (ps @ qs) = slots_of ps @ slots_of qs"
  by (simp add: slots_of_def)

lemma live_append:
  assumes "live a L ps bs" "live a' (L \<union> set (slots_of ps)) qs cs" "keeps (L \<union> set (slots_of ps)) a a'"
  shows "live a' L (ps @ qs) (bs @ cs)"
proof -
  have "packet_bytes a' p = packet_bytes a p" if "p \<in> set ps" for p
  proof (rule packet_bytes_kept)
    show "packet_ok p" using assms(1) that by (simp add: live_def list_all_iff)
    have "owned_slots p \<subseteq> set (slots_of ps)" using that by (auto simp: owned_slots_def slots_of_def)
    then show "keeps (owned_slots p) a a'" using assms(3) by (auto simp: keeps_def)
  qed
  then have "map (packet_bytes a') ps = map (packet_bytes a) ps" by simp
  moreover have "L \<union> set (slots_of ps) \<union> set (slots_of qs) = L \<union> set (slots_of (ps @ qs))" by (auto simp: slots_append)
  ultimately show ?thesis using assms(1,2) by (auto simp: live_def slots_append)
qed

text \<open>One connection: its requests are run and leave its buffer; without requests nothing happens.\<close>

lemma handle_one:
  assumes "conn_of es (b_fd b) = Some d" "conn_loaded b d" "batch_ok r b"
    and "shards_inv z (cache es)" "arena_inv (arena (cache es)) L" "cache es = sv\<lparr>arena := arena (cache es)\<rparr>"
    and "spec_run z (map command_of (b_reqs b)) (tx_in (conn_of es) (b_fd b), sv) = (Val bs, tx, sv1)"
  shows "\<exists>ps a d'. handle_reader z (b_fd b, batch_status b) es =
      (Val ps, with_conns ((conn_of es)(b_fd b \<mapsto> d')) (es\<lparr>cache := sv1\<lparr>arena := a\<rparr>\<rparr>)) \<and>
    live a L ps bs \<and> keeps L (arena (cache es)) a \<and> shards_inv z sv1 \<and> conn_idle d' \<and> tx_of (cd_respTransaction d') = tx \<and>
    lastActivity d' = lastActivity d \<and> readBuffer d' = begun_bytes (b_begun b)"
proof (cases "b_reqs b = []")
  case True
  then have st: "batch_status b = Failure \<or> batch_status b = AwaitingData" by (simp add: batch_status_def)
  have s: "bs = []" "tx = tx_of (cd_respTransaction d)" "sv1 = sv" using assms(1,7) True by (auto simp: tx_in_def)
  have "es\<lparr>cache := sv\<lparr>arena := arena (cache es)\<rparr>\<rparr> = es" using assms(6) by simp
  moreover have "(conn_of es)(b_fd b \<mapsto> d) = conn_of es" using assms(1) by auto
  ultimately have "handle_reader z (b_fd b, batch_status b) es =
      (Val [], with_conns ((conn_of es)(b_fd b \<mapsto> d)) (es\<lparr>cache := sv1\<lparr>arena := arena (cache es)\<rparr>\<rparr>))"
    using st s(3) by (auto simp: handle_reader_def)
  moreover have "shards_inv z (sv\<lparr>arena := arena (cache es)\<rparr>)" using assms(4,6) by metis
  then have "shards_inv z sv1" using s(3) by simp
  moreover have "live (arena (cache es)) L [] bs" using s(1) assms(5) by (simp add: live_def)
  ultimately show ?thesis using assms(2) True s
    by (intro exI [of _ "[]"] exI [of _ "arena (cache es)"] exI [of _ d]) (auto simp: conn_loaded_def conn_idle_def keeps_def)
next
  case False
  then have ok: "\<not> b_gone b" "batch_status b = Success" using assms(3) by (auto simp: batch_ok_def batch_status_def)
  have small: "list_all (\<lambda>args. length (resp_request args) < 2 ^ 30) (b_reqs b)"
  proof (rule requests_small)
    have "length (concat (map resp_request (b_reqs b)) @ begun_bytes (b_begun b)) < 2 ^ 30"
      using assms(3) ok(1) unfolding batch_ok_def by metis
    then show "length (concat (map resp_request (b_reqs b))) < 2 ^ 30" by simp
  qed
  let ?c = "\<lparr>server = cache es, respTransaction = cd_respTransaction d\<rparr>"
  have inv: "conn_inv z ?c L" using assms(2,4,5) by (simp add: conn_inv_def server_inv_def conn_loaded_def)
  have "tx_in (conn_of es) (b_fd b) = tx_of (respTransaction ?c)" using assms(1) by (simp add: tx_in_def)
  then have run: "spec_run z (map command_of (b_reqs b)) (tx_of (respTransaction ?c), server ?c) = (Val bs, tx, sv1\<lparr>arena := arena (cache es)\<rparr>)"
    using spec_run_arena [of z "map command_of (b_reqs b)" "tx_in (conn_of es) (b_fd b)" "arena (cache es)" sv] assms(6,7) by simp
  then obtain ps a t where ps: "process_pending z (map resp_view (b_reqs b)) ?c = (Val ps, \<lparr>server = sv1\<lparr>arena := a\<rparr>, respTransaction = t\<rparr>)"
    "live a L ps bs" "keeps L (arena (cache es)) a" "tx_of t = tx" "tx_ok t" "shards_inv z sv1"
    using process_pending_simulates [OF inv small] by auto
  let ?d = "d\<lparr>pendingRequests := [], cd_respTransaction := t, readBuffer := begun_bytes (b_begun b), bytesToErase := 0\<rparr>"
  have "erase_read (d\<lparr>pendingRequests := [], cd_respTransaction := t\<rparr>) = Val ?d"
    using assms(2) by (auto simp: erase_read_def conn_loaded_def)
  then have "handle_reader z (b_fd b, batch_status b) es = (Val ps, with_conns ((conn_of es)(b_fd b \<mapsto> ?d)) (es\<lparr>cache := sv1\<lparr>arena := a\<rparr>\<rparr>))"
    using ps(1) assms(1,2) ok(2) by (simp add: handle_reader_def Let_def conn_loaded_def conn_at_def conn_of_def)
  moreover have "conn_idle ?d" using ps(5) by (simp add: conn_idle_def)
  ultimately show ?thesis using ps by (intro exI [of _ ps] exI [of _ a] exI [of _ ?d]) simp
qed

lemma handle_many:
  assumes "distinct (map b_fd bs)" "list_all (\<lambda>b. \<exists>r. batch_ok r b) bs"
    and "list_all (\<lambda>b. \<exists>d. conn_of es (b_fd b) = Some d \<and> conn_loaded b d) bs"
    and "shards_inv z (cache es)" "arena_inv (arena (cache es)) L" "cache es = sv\<lparr>arena := arena (cache es)\<rparr>"
    and "spec_round z (map commands bs) (tx_in (conn_of es), sv) = (Val ans, txs, sv1)"
  shows "\<exists>pss cs a. handle_readers z (map (\<lambda>b. (b_fd b, batch_status b)) bs) es =
      (Val (zip (map b_fd bs) pss), with_conns cs (es\<lparr>cache := sv1\<lparr>arena := a\<rparr>\<rparr>)) \<and>
    live a L (concat pss) (concat ans) \<and> map length pss = map length ans \<and> length pss = length bs \<and>
    keeps L (arena (cache es)) a \<and> shards_inv z sv1 \<and>
    list_all (\<lambda>b. \<exists>d. cs (b_fd b) = Some d \<and> conn_idle d) bs \<and> tx_in cs = txs \<and>
    last_in cs = last_in (conn_of es) \<and> buf_in cs = refilled bs (buf_in (conn_of es)) \<and>
    (\<forall>fd. fd \<notin> b_fd ` set bs \<longrightarrow> cs fd = conn_of es fd)"
  using assms
proof (induction bs arbitrary: es L sv ans)
  case Nil
  have "live (arena (cache es)) L [] []" using Nil by (simp add: live_def)
  moreover have "shards_inv z (sv\<lparr>arena := arena (cache es)\<rparr>)" using Nil.prems(4,6) by metis
  then have "shards_inv z sv" by simp
  ultimately show ?case using Nil
    by (intro exI [of _ "[]"] exI [of _ "conn_of es"] exI [of _ "arena (cache es)"]) (auto simp: keeps_def)
next
  case (Cons b bs)
  let ?fd = "b_fd b"
  obtain d where d: "conn_of es ?fd = Some d" "conn_loaded b d" using Cons.prems(3) by auto
  obtain buf where ok: "batch_ok buf b" using Cons.prems(2) by auto
  obtain bs1 tx sv2 rest where r: "spec_run z (map command_of (b_reqs b)) (tx_in (conn_of es) ?fd, sv) = (Val bs1, tx, sv2)"
    "spec_round z (map commands bs) ((tx_in (conn_of es))(?fd := tx), sv2) = (Val rest, txs, sv1)" "ans = bs1 # rest"
    using Cons.prems(7) by (auto simp: commands_def [of b] and_then_def split: prod.splits cpp.splits)
  from handle_one [OF d ok Cons.prems(4-6) r(1)] obtain ps a d' where
    h: "handle_reader z (?fd, batch_status b) es = (Val ps, with_conns ((conn_of es)(?fd \<mapsto> d')) (es\<lparr>cache := sv2\<lparr>arena := a\<rparr>\<rparr>))"
    and lv: "live a L ps bs1" "keeps L (arena (cache es)) a" "shards_inv z sv2" "conn_idle d'" "tx_of (cd_respTransaction d') = tx"
      "lastActivity d' = lastActivity d" "readBuffer d' = begun_bytes (b_begun b)" by blast
  let ?es = "with_conns ((conn_of es)(?fd \<mapsto> d')) (es\<lparr>cache := sv2\<lparr>arena := a\<rparr>\<rparr>)"
  have txs: "tx_in (conn_of ?es) = (tx_in (conn_of es))(?fd := tx)" using lv(5) by (auto simp: tx_in_def fun_eq_iff)
  have other: "b_fd x \<noteq> ?fd" if "x \<in> set bs" for x
    using Cons.prems(1) that by (metis distinct.simps(2) image_eqI list.set_map list.simps(9))
  have "list_all (\<lambda>b. \<exists>d. conn_of ?es (b_fd b) = Some d \<and> conn_loaded b d) bs"
    using Cons.prems(3) other by (auto simp: list_all_iff)
  moreover have "distinct (map b_fd bs)" "list_all (\<lambda>b. \<exists>r. batch_ok r b) bs" "shards_inv z (cache ?es)"
    "arena_inv (arena (cache ?es)) (L \<union> set (slots_of ps))"
    "cache ?es = sv2\<lparr>arena := arena (cache ?es)\<rparr>" using Cons.prems(1,2) lv by (simp_all add: live_def)
  moreover have "spec_round z (map commands bs) (tx_in (conn_of ?es), sv2) = (Val rest, txs, sv1)" using r(2) unfolding txs .
  ultimately obtain pss cs a' where
    m: "handle_readers z (map (\<lambda>b. (b_fd b, batch_status b)) bs) ?es = (Val (zip (map b_fd bs) pss), with_conns cs (?es\<lparr>cache := sv1\<lparr>arena := a'\<rparr>\<rparr>))"
    "live a' (L \<union> set (slots_of ps)) (concat pss) (concat rest)" "map length pss = map length rest" "length pss = length bs"
    "keeps (L \<union> set (slots_of ps)) (arena (cache ?es)) a'" "shards_inv z sv1"
    "list_all (\<lambda>b. \<exists>d. cs (b_fd b) = Some d \<and> conn_idle d) bs" "tx_in cs = txs"
    "\<forall>fd. fd \<notin> b_fd ` set bs \<longrightarrow> cs fd = conn_of ?es fd" "last_in cs = last_in (conn_of ?es)"
    "buf_in cs = refilled bs (buf_in (conn_of ?es))"
    using Cons.IH [of ?es "L \<union> set (slots_of ps)" sv2 rest] by blast
  have "last_in (conn_of ?es) = last_in (conn_of es)" using lv(6) d(1) by (auto simp: last_in_def fun_eq_iff)
  then have last: "last_in cs = last_in (conn_of es)" using m(10) by simp
  have at: "cs ?fd = Some d'" using m(9) Cons.prems(1) by simp
  then have "buf_in cs ?fd = begun_bytes (b_begun b)" using lv(7) by (simp add: buf_in_def)
  moreover have "buf_in cs fd = refilled bs (buf_in (conn_of es)) fd" if "fd \<noteq> ?fd" for fd
    using that unfolding m(11) by (simp add: refilled_def buf_in_upd split: option.splits)
  ultimately have buf: "buf_in cs = refilled (b # bs) (buf_in (conn_of es))" by (simp add: refilled_Cons fun_eq_iff)
  have k: "keeps (L \<union> set (slots_of ps)) a a'" using m(5) by simp
  have "live a' L (concat (ps # pss)) (concat (bs1 # rest))" using live_append [OF lv(1) m(2) k] by simp
  moreover have "keeps L (arena (cache es)) a'" using keeps_trans [OF lv(2) k] .
  moreover have "length ps = length bs1" using live_packets(3) [OF lv(1)] .
  ultimately show ?case using h m(1-9) last buf at r(3) lv(4) Cons.prems(1)
    by (intro exI [of _ "ps # pss"] exI [of _ cs] exI [of _ a']) auto
qed

subsection \<open>Sending\<close>

fun deliver :: "int list \<Rightarrow> bytes list list \<Rightarrow> (int \<Rightarrow> bytes) \<Rightarrow> int \<Rightarrow> bytes" where
  "deliver (fd # fds) (bs # ans) out = deliver fds ans (out(fd := out fd @ concat bs))"
| "deliver fds ans out = out"

definition answers_to :: "int \<Rightarrow> batch list \<Rightarrow> bytes list list \<Rightarrow> bytes" where
  "answers_to fd bs ans = concat (concat (map snd (filter (\<lambda>(b, a). b_fd b = fd) (zip bs ans))))"

lemma deliver_answers: "deliver (map b_fd bs) ans out fd = out fd @ answers_to fd bs ans"
proof (induction bs arbitrary: ans out)
  case (Cons b bs)
  then show ?case by (cases ans) (auto simp: answers_to_def)
qed (simp add: answers_to_def)

lemma live_split:
  assumes "live a L (ps @ qs) (bs @ cs)" "length ps = length bs"
  shows "live a (L \<union> set (slots_of qs)) ps bs" "live a (L \<union> set (slots_of ps)) qs cs"
  using assms by (auto simp: live_def slots_append Un_ac)

lemma send_many:
  assumes "live (arena (cache es)) L (concat pss) (concat ans)" "map length pss = map length ans" "length fds = length pss"
    and "list_all (\<lambda>(fd, bs). kernel_ok (sock fd) (length (concat bs)) \<and> length (concat bs) \<le> taken (sock fd)) (zip fds ans)"
  shows "send_all sock (zip fds pss) es = (Val (), es\<lparr>sent_to := deliver fds ans (sent_to es)\<rparr>)"
  using assms
proof (induction pss arbitrary: ans fds es L)
  case (Cons ps pss)
  obtain fd fds' where fd: "fds = fd # fds'" using Cons.prems(3) by (cases fds) auto
  obtain bs ans' where bs: "ans = bs # ans'" "length ps = length bs" "map length pss = map length ans'"
    using Cons.prems(2) by (cases ans) auto
  have "live (arena (cache es)) L (ps @ concat pss) (bs @ concat ans')" using Cons.prems(1) bs(1) by simp
  note l = live_split [OF this bs(2)]
  have sock: "kernel_ok (sock fd) (length (concat bs))" "length (concat bs) \<le> taken (sock fd)"
    "list_all (\<lambda>(fd, bs). kernel_ok (sock fd) (length (concat bs)) \<and> length (concat bs) \<le> taken (sock fd)) (zip fds' ans')"
    using Cons.prems(4) fd bs(1) by simp_all
  let ?es = "es\<lparr>sent_to := (sent_to es)(fd := sent_to es fd @ concat bs)\<rparr>"
  have "(if ps \<noteq> [] then sendResponses fd ps (sock fd) es else (Val (), es)) = (Val (), ?es)"
    using sendResponses_live [OF l(1) sock(1,2), of fd] bs(2) by (cases "ps = []") (auto simp: fun_upd_idem)
  moreover have "send_all sock (zip fds' pss) ?es = (Val (), ?es\<lparr>sent_to := deliver fds' ans' (sent_to ?es)\<rparr>)"
    using Cons.IH [of ?es "L \<union> set (slots_of ps)" ans' fds'] l(2) bs(3) sock(3) Cons.prems(3) fd by (simp add: fun_upd_def)
  ultimately show ?case using fd bs(1) by simp
qed simp

subsection \<open>Rounds\<close>

definition all_at_rest :: "'z zlib \<Rightarrow> int set \<Rightarrow> EventServer \<Rightarrow> bool" where
  "all_at_rest z fds es \<longleftrightarrow> \<not> conn_mutex (connManager es) \<and> server_inv z (cache es) {} \<and>
     (\<forall>fd. fd \<in> fds \<longrightarrow> (\<exists>d. conn_of es fd = Some d \<and> conn_idle d))"

lemma round_many:
  assumes rest: "all_at_rest z fds es" and sub: "b_fd ` set bs \<subseteq> fds" and bs: "distinct (map b_fd bs)"
    and ok: "list_all (\<lambda>b. batch_ok (buf_in (conn_of es) (b_fd b)) b) bs" and sv: "cache es = sv\<lparr>arena := arena (cache es)\<rparr>"
    and spec: "spec_round z (map commands bs) (hung_up bs (tx_in (conn_of es)), sv) = (Val ans, txs, sv1)"
    and sock: "list_all (\<lambda>(fd, a). kernel_ok (sock fd) (length (concat a)) \<and> length (concat a) \<le> taken (sock fd)) (zip (map b_fd bs) ans)"
  shows "\<exists>es' a. handle_round z (map batch_event bs) sock es = (Val (), es') \<and> all_at_rest z fds es' \<and>
    tx_in (conn_of es') = txs \<and> last_in (conn_of es') = touched bs (last_in (conn_of es)) \<and>
    buf_in (conn_of es') = refilled bs (buf_in (conn_of es)) \<and> cache es' = sv1\<lparr>arena := a\<rparr> \<and>
    sent_to es' = deliver (map b_fd bs) ans (sent_to es) \<and> length ans = length bs"
proof -
  let ?es0 = "es\<lparr>numRequests := numRequests es + length bs\<rparr>"
  have r: "\<not> conn_mutex (connManager es)" "shards_inv z (cache es)" "arena_inv (arena (cache es)) {}"
    "\<And>fd. fd \<in> fds \<Longrightarrow> \<exists>d. conn_of es fd = Some d \<and> conn_idle d" using rest by (auto simp: all_at_rest_def server_inv_def)
  have "list_all (\<lambda>b. \<exists>d. conn_of ?es0 (b_fd b) = Some d \<and> conn_idle d) bs" using r(4) sub by (auto simp: list_all_iff)
  then obtain es1 where 1: "read_events (map batch_event bs) ?es0 = (Val (map (\<lambda>b. (b_fd b, batch_status b)) bs), es1)"
    "same_but_conns ?es0 es1" "list_all (\<lambda>b. \<exists>d. conn_of es1 (b_fd b) = Some d \<and> conn_loaded b d) bs"
    "tx_in (conn_of es1) = hung_up bs (tx_in (conn_of es))" "\<forall>fd. fd \<notin> b_fd ` set bs \<longrightarrow> conn_of es1 fd = conn_of es fd"
    "last_in (conn_of es1) = touched bs (last_in (conn_of es))" using read_many [OF _ bs, of ?es0] ok r(1) by auto
  have "list_all (\<lambda>b. \<exists>r. batch_ok r b) bs" using ok by (auto simp: list_all_iff)
  note l = bs this 1(3)
  have c: "cache es1 = cache es" "sent_to es1 = sent_to es" "\<not> conn_mutex (connManager es1)"
    using 1(2) r(1) by (simp_all add: same_but_conns_def)
  have "shards_inv z (cache es1)" "arena_inv (arena (cache es1)) {}" "cache es1 = sv\<lparr>arena := arena (cache es1)\<rparr>"
    "spec_round z (map commands bs) (tx_in (conn_of es1), sv) = (Val ans, txs, sv1)"
    using c 1(4) r spec sv by simp_all
  from handle_many [OF l this] obtain pss cs' a where
    h: "handle_readers z (map (\<lambda>b. (b_fd b, batch_status b)) bs) es1 = (Val (zip (map b_fd bs) pss), with_conns cs' (es1\<lparr>cache := sv1\<lparr>arena := a\<rparr>\<rparr>))"
    "live a {} (concat pss) (concat ans)" "map length pss = map length ans" "length pss = length bs" "shards_inv z sv1"
    "list_all (\<lambda>b. \<exists>d. cs' (b_fd b) = Some d \<and> conn_idle d) bs" "tx_in cs' = txs"
    "\<forall>fd. fd \<notin> b_fd ` set bs \<longrightarrow> cs' fd = conn_of es1 fd" "last_in cs' = last_in (conn_of es1)"
    "buf_in cs' = refilled bs (buf_in (conn_of es1))" by blast
  let ?es2 = "with_conns cs' (es1\<lparr>cache := sv1\<lparr>arena := a\<rparr>\<rparr>)"
  let ?es3 = "?es2\<lparr>sent_to := deliver (map b_fd bs) ans (sent_to es)\<rparr>"
  have send: "send_all sock (zip (map b_fd bs) pss) ?es2 = (Val (), ?es3)"
    using send_many [of ?es2 "{}" pss ans "map b_fd bs" sock] h sock c(2) by simp
  let ?es4 = "drop_responses (zip (map b_fd bs) pss) ?es3"
  have "handle_round z (map batch_event bs) sock es = (Val (), ?es4)" using 1(1) h(1) send by (simp add: handle_round_def)
  moreover have "map snd (zip (map b_fd bs) pss) = pss" using h(4) by simp
  then have es4: "cache ?es4 = sv1\<lparr>arena := destroy_all (concat pss) a\<rparr>" "conn_of ?es4 = cs'" "sent_to ?es4 = sent_to ?es3"
    "connManager ?es4 = connManager ?es3" by (simp_all add: drop_responses_def)
  moreover have "server_inv z (cache ?es4) {}" using h(5) destroy_live [OF h(2)] unfolding es4(1) by (simp add: server_inv_def)
  moreover have "\<exists>d. cs' fd = Some d \<and> conn_idle d" if "fd \<in> fds" for fd
    using h(6,8) 1(5) r(4) [OF that] by (cases "fd \<in> b_fd ` set bs") (auto simp: list_all_iff)
  moreover have "buf_in cs' = refilled bs (buf_in (conn_of es))"
    unfolding h(10) using 1(5) by (intro refilled_cong) (simp add: buf_in_def)
  moreover have "length ans = length bs" using h(3,4) by (metis length_map)
  moreover have "\<not> conn_mutex (connManager ?es3)" using c(3) by (simp add: with_conns_def)
  ultimately show ?thesis
    using h(7,9) 1(6) by (intro exI [of _ ?es4] exI [of _ "destroy_all (concat pss) a"]) (simp add: all_at_rest_def)
qed

text \<open>Rounds one after the other, as the handling thread runs them.\<close>

type_synonym service_round = "batch list \<times> (int \<Rightarrow> send_result list)"

fun round_events :: "service_round \<Rightarrow> epoll_result" where
  "round_events (bs, sock) = EpollEvents (map batch_event bs) sock"

fun spec_rounds :: "'z zlib \<Rightarrow> service_round list \<Rightarrow> (int \<Rightarrow> tx_view) \<times> CacheServer \<Rightarrow>
    bytes list list list cpp \<times> (int \<Rightarrow> tx_view) \<times> CacheServer" where
  "spec_rounds z [] s = (Val [], s)"
| "spec_rounds z (r # rs) (txs, sv) =
     and_then (spec_round z (map commands (fst r)) (hung_up (fst r) txs, sv))
       (\<lambda>ans s. and_then (spec_rounds z rs s) (\<lambda>rest s. (Val (ans # rest), s)) id) id"

definition round_ok :: "int set \<Rightarrow> (int \<Rightarrow> bytes) \<Rightarrow> service_round \<Rightarrow> bytes list list \<Rightarrow> bool" where
  "round_ok fds begun r ans \<longleftrightarrow> b_fd ` set (fst r) \<subseteq> fds \<and> distinct (map b_fd (fst r)) \<and>
     list_all (\<lambda>b. batch_ok (begun (b_fd b)) b) (fst r) \<and>
     list_all (\<lambda>(fd, a). kernel_ok (snd r fd) (length (concat a)) \<and> length (concat a) \<le> taken (snd r fd)) (zip (map b_fd (fst r)) ans)"

fun rounds_ok :: "int set \<Rightarrow> (int \<Rightarrow> bytes) \<Rightarrow> service_round list \<Rightarrow> bytes list list list \<Rightarrow> bool" where
  "rounds_ok fds begun (r # rs) (ans # anss) \<longleftrightarrow> round_ok fds begun r ans \<and> rounds_ok fds (refilled (fst r) begun) rs anss"
| "rounds_ok fds begun rs anss \<longleftrightarrow> rs = [] \<and> anss = []"

lemma round_value:
  assumes "all_at_rest z fds es" "cache es = sv\<lparr>arena := arena (cache es)\<rparr>" "round_ok fds (buf_in (conn_of es)) r ans"
    and "spec_round z (map commands (fst r)) (hung_up (fst r) (tx_in (conn_of es)), sv) = (Val ans, txs, sv1)"
  shows "\<exists>es'. next_value z (round_events r) (Running es) = Running es' \<and> all_at_rest z fds es' \<and> tx_in (conn_of es') = txs \<and>
    last_in (conn_of es') = touched (fst r) (last_in (conn_of es)) \<and> buf_in (conn_of es') = refilled (fst r) (buf_in (conn_of es)) \<and>
    cache es' = sv1\<lparr>arena := arena (cache es')\<rparr> \<and> sent_to es' = (\<lambda>fd. sent_to es fd @ answers_to fd (fst r) ans)"
proof (cases "fst r = []")
  case True
  then have "next_value z (round_events r) (Running es) = Running es" by (cases r) (simp add: next_value_def)
  then show ?thesis using True assms by (intro exI [of _ es]) (simp add: answers_to_def hung_up_simps)
next
  case False
  note o = assms(3) [unfolded round_ok_def]
  from round_many [OF assms(1) _ _ _ assms(2,4), of "snd r"] o obtain es1 a where
    "handle_round z (map batch_event (fst r)) (snd r) es = (Val (), es1)" "all_at_rest z fds es1" "tx_in (conn_of es1) = txs"
    "last_in (conn_of es1) = touched (fst r) (last_in (conn_of es))" "buf_in (conn_of es1) = refilled (fst r) (buf_in (conn_of es))"
    "cache es1 = sv1\<lparr>arena := a\<rparr>" "sent_to es1 = deliver (map b_fd (fst r)) ans (sent_to es)" by auto
  then show ?thesis using False by (cases r; intro exI [of _ es1]) (simp add: next_value_def deliver_answers fun_eq_iff)
qed

lemma rounds_many:
  assumes "all_at_rest z fds es" "cache es = sv\<lparr>arena := arena (cache es)\<rparr>"
    and "spec_rounds z rs (tx_in (conn_of es), sv) = (Val anss, txs, sv1)"
    and "rounds_ok fds (buf_in (conn_of es)) rs anss"
  shows "\<exists>es' a. fold (next_value z) (map round_events rs) (Running es) = Running es' \<and> all_at_rest z fds es' \<and>
    tx_in (conn_of es') = txs \<and> cache es' = sv1\<lparr>arena := a\<rparr> \<and> length anss = length rs \<and>
    sent_to es' = (\<lambda>fd. sent_to es fd @ concat (map (\<lambda>(r, ans). answers_to fd (fst r) ans) (zip rs anss)))"
  using assms
proof (induction rs arbitrary: es sv anss)
  case Nil
  then show ?case by (intro exI [of _ es] exI [of _ "arena (cache es)"]) auto
next
  case (Cons r rs)
  obtain ans txs' sv' rest where st: "spec_round z (map commands (fst r)) (hung_up (fst r) (tx_in (conn_of es)), sv) = (Val ans, txs', sv')"
    "spec_rounds z rs (txs', sv') = (Val rest, txs, sv1)" "anss = ans # rest"
    using Cons.prems(3) by (auto simp: and_then_def split: prod.splits cpp.splits)
  have ok: "round_ok fds (buf_in (conn_of es)) r ans" "rounds_ok fds (refilled (fst r) (buf_in (conn_of es))) rs rest"
    using Cons.prems(4) st(3) by simp_all
  from round_value [OF Cons.prems(1,2) ok(1) st(1)] obtain es2 where
    es2: "next_value z (round_events r) (Running es) = Running es2" "all_at_rest z fds es2" "tx_in (conn_of es2) = txs'"
    "buf_in (conn_of es2) = refilled (fst r) (buf_in (conn_of es))"
    "cache es2 = sv'\<lparr>arena := arena (cache es2)\<rparr>" "sent_to es2 = (\<lambda>fd. sent_to es fd @ answers_to fd (fst r) ans)" by blast
  from Cons.IH [OF es2(2,5), of rest] st(2) es2(3,4) ok(2) obtain es' a' where
    "fold (next_value z) (map round_events rs) (Running es2) = Running es'" "all_at_rest z fds es'" "tx_in (conn_of es') = txs"
    "cache es' = sv1\<lparr>arena := a'\<rparr>" "length rest = length rs"
    "sent_to es' = (\<lambda>fd. sent_to es2 fd @ concat (map (\<lambda>(r, ans). answers_to fd (fst r) ans) (zip rs rest)))" by auto
  then show ?case using es2(1,6) st(3) by (intro exI [of _ es'] exI [of _ a']) (simp add: fun_eq_iff)
qed

subsection \<open>A state with two connections\<close>

definition two_conns :: EventServer where
  "two_conns = ex_loop\<lparr>connManager := ex_manager\<lparr>connections := [5 \<mapsto> new_connection zero_time 3, 6 \<mapsto> new_connection zero_time 3]\<rparr>\<rparr>"

lemma two_conns_at_rest: "all_at_rest store_zlib {5, 6} two_conns" "tx_in (conn_of two_conns) = (\<lambda>_. Idle)"
  "buf_in (conn_of two_conns) = (\<lambda>_. [])" "cache two_conns = ex_server"
  using ex_server_ok(2)
  by (auto simp: two_conns_def all_at_rest_def conn_of_def tx_in_def buf_in_def fun_eq_iff tx_of_def ex_loop_def ex_manager_def
      new_connection_def conn_idle_def tx_ok_def)

end
