(* ===== verification/Metrics.thy ===== *)
theory Metrics
  imports Event_Loop Complex_Main
begin

section \<open>Metrics (src/src/metrics, \<open>MetricsChannel\<close> and \<open>metricsUpdater\<close> of src/src/server)\<close>

text \<open>
  Snapshots of the counters of the server go through a queue to a thread that shows them as metrics.
  The prometheus library is not part of the repository: its counters and gauges are a parameter \<open>p\<close>,
  and \<open>prom_ok\<close> states what its documentation says of them: a counter ignores a negative increment and
  adds any other, exactly as long as the numbers are whole and a double holds them.
\<close>

record CacheServerMetrics =
  m_numErrors :: nat
  m_numActiveConnections :: nat
  m_numRequests :: nat

subsection \<open>The channel\<close>

text \<open>Every operation holds the mutex of the channel from its first to its last statement.\<close>

type_synonym MetricsChannel = "CacheServerMetrics list"

definition channel_push :: "CacheServerMetrics \<Rightarrow> MetricsChannel \<Rightarrow> MetricsChannel" where
  "channel_push m ch = ch @ [m]"

definition channel_try_pop :: "CacheServerMetrics \<Rightarrow> MetricsChannel \<Rightarrow> bool \<times> CacheServerMetrics \<times> MetricsChannel" where
  "channel_try_pop m ch = (case ch of [] \<Rightarrow> (False, m, []) | m' # ch' \<Rightarrow> (True, m', ch'))"

definition channel_empty :: "MetricsChannel \<Rightarrow> bool" where
  "channel_empty ch = (ch = [])"

text \<open>One round of \<^verbatim>\<open>metricsUpdater\<close>, after the wait of four seconds: nothing ever releases the semaphore.\<close>

definition snapshot :: "EventServer \<Rightarrow> CacheServerMetrics" where
  "snapshot es = \<lparr>m_numErrors = numErrors (cache es), m_numActiveConnections = activeConnectionsCounter (connManager es),
     m_numRequests = numRequests es\<rparr>"

definition metricsUpdater_round :: "EventServer \<Rightarrow> MetricsChannel \<Rightarrow> MetricsChannel" where
  "metricsUpdater_round es ch = channel_push (snapshot es) ch"

subsection \<open>The metrics server\<close>

record ('c, 'g) prometheus =
  counter_Value :: "'c \<Rightarrow> real"
  counter_Increment :: "real \<Rightarrow> 'c \<Rightarrow> 'c"
  gauge_Set :: "real \<Rightarrow> 'g \<Rightarrow> 'g"
  gauge_Value :: "'g \<Rightarrow> real"

definition double_exact :: nat where "double_exact = 2 ^ 53"

definition prom_ok :: "('c, 'g) prometheus \<Rightarrow> bool" where
  "prom_ok p \<longleftrightarrow>
     (\<forall>v c. v < 0 \<longrightarrow> counter_Value p (counter_Increment p v c) = counter_Value p c) \<and>
     (\<forall>m n c. counter_Value p c = real m \<and> m + n \<le> double_exact \<longrightarrow>
        counter_Value p (counter_Increment p (real n) c) = real (m + n)) \<and>
     (\<forall>n g. n \<le> double_exact \<longrightarrow> gauge_Value p (gauge_Set p (real n) g) = real n)"

record ('c, 'g) MetricsServer =
  server_num_active_connections :: 'g
  server_num_requests_total :: 'c
  server_num_errors_total :: 'c

definition UpdateMetrics :: "('c, 'g) prometheus \<Rightarrow> CacheServerMetrics \<Rightarrow> ('c, 'g) MetricsServer \<Rightarrow> ('c, 'g) MetricsServer" where
  "UpdateMetrics p serverMetrics ms0 =
     (let ms1 = ms0\<lparr>server_num_active_connections :=
            gauge_Set p (real (m_numActiveConnections serverMetrics)) (server_num_active_connections ms0)\<rparr>;
          numErrorsInc = real (m_numErrors serverMetrics) - counter_Value p (server_num_errors_total ms1);
          ms2 = ms1\<lparr>server_num_errors_total := counter_Increment p numErrorsInc (server_num_errors_total ms1)\<rparr>;
          numRequestsInc = real (m_numRequests serverMetrics) - counter_Value p (server_num_requests_total ms2)
      in ms2\<lparr>server_num_requests_total := counter_Increment p numRequestsInc (server_num_requests_total ms2)\<rparr>)"

text \<open>
  The registry of the library and the HTTP server that shows it, a second parameter \<open>q\<close>: adding a counter
  or a gauge under a name gives the new object, and \<^verbatim>\<open>Exposer\<close> throws when it cannot listen. \<open>registry_ok\<close> is
  what is documented: the names are those that were added, in their order, and new objects stand at zero.
  The objects are shown by value here; the library gives pointers into the registry.
\<close>

record ('c, 'g, 'r) prom_registry =
  Registry :: 'r
  BuildCounter :: "string \<Rightarrow> string \<Rightarrow> 'r \<Rightarrow> 'c \<times> 'r"
  BuildGauge :: "string \<Rightarrow> string \<Rightarrow> 'r \<Rightarrow> 'g \<times> 'r"
  reg_names :: "'r \<Rightarrow> string list"
  Exposer :: "string \<Rightarrow> string option"

definition registry_ok :: "('c, 'g) prometheus \<Rightarrow> ('c, 'g, 'r) prom_registry \<Rightarrow> bool" where
  "registry_ok p q \<longleftrightarrow> reg_names q (Registry q) = [] \<and>
     (\<forall>n h r. reg_names q (snd (BuildCounter q n h r)) = reg_names q r @ [n] \<and> counter_Value p (fst (BuildCounter q n h r)) = 0) \<and>
     (\<forall>n h r. reg_names q (snd (BuildGauge q n h r)) = reg_names q r @ [n] \<and> gauge_Value p (fst (BuildGauge q n h r)) = 0)"

definition RegisterMetrics :: "('c, 'g, 'r) prom_registry \<Rightarrow> 'r \<Rightarrow> ('c, 'g) MetricsServer \<times> 'r" where
  "RegisterMetrics q registry =
     (let (errors, registry) = BuildCounter q ''server_num_errors_total'' ''Total number of TCP server errors'' registry;
          (connections, registry) = BuildGauge q ''server_num_active_connections'' ''Number of active connections'' registry;
          (requests, registry) = BuildCounter q ''server_num_requests_total'' ''Total number of server requests'' registry
      in (\<lparr>server_num_active_connections = connections, server_num_requests_total = requests,
           server_num_errors_total = errors\<rparr>, registry))"

text \<open>The constructor: the metrics and the registry that the HTTP server shows. \<open>Some m\<close> is an exception of \<^verbatim>\<open>Exposer\<close>.\<close>

definition MetricsServer_ctor :: "('c, 'g, 'r) prom_registry \<Rightarrow> string \<Rightarrow> (('c, 'g) MetricsServer \<times> 'r) cpp" where
  "MetricsServer_ctor q metrics_url = (case Exposer q metrics_url of
       Some m \<Rightarrow> Exn m
     | None \<Rightarrow> Val (RegisterMetrics q (Registry q)))"

text \<open>One turn of the inner loop of the updater thread in \<^verbatim>\<open>main\<close>.\<close>

definition consume_metrics ::
    "('c, 'g) prometheus \<Rightarrow> MetricsChannel \<times> ('c, 'g) MetricsServer \<Rightarrow> MetricsChannel \<times> ('c, 'g) MetricsServer" where
  "consume_metrics p = (\<lambda>(ch, ms).
     case channel_try_pop \<lparr>m_numErrors = 0, m_numActiveConnections = 0, m_numRequests = 0\<rparr> ch of
       (True, m, ch') \<Rightarrow> (ch', UpdateMetrics p m ms)
     | (False, _, ch') \<Rightarrow> (ch', ms))"

text \<open>
  \<^verbatim>\<open>CreateLinearBuckets\<close>, which nothing calls, for boundaries far from the limits of \<^verbatim>\<open>int64_t\<close>; with a
  step that is not positive the loop never ends.
\<close>

partial_function (option) CreateLinearBuckets :: "int \<Rightarrow> int \<Rightarrow> int \<Rightarrow> int list option" where
  "CreateLinearBuckets i stop step =
     (if i < stop then Option.bind (CreateLinearBuckets (i + step) stop step) (\<lambda>bs. Some (i # bs))
      else Some [])"

declare CreateLinearBuckets.simps [code]

lemma CreateLinearBuckets_returns:
  assumes "0 < step"
  shows "\<exists>bs. CreateLinearBuckets i stop step = Some bs \<and> sorted_wrt (<) bs \<and> (\<forall>b\<in>set bs. i \<le> b \<and> b < stop)"
proof (induction "nat (stop - i)" arbitrary: i rule: less_induct)
  case less
  show ?case
  proof (cases "i < stop")
    case True
    then obtain bs where "CreateLinearBuckets (i + step) stop step = Some bs" "sorted_wrt (<) bs"
        "\<forall>b\<in>set bs. i + step \<le> b \<and> b < stop"
      using less [of "i + step"] assms by auto
    then show ?thesis using True assms by (subst CreateLinearBuckets.simps) force
  qed (subst CreateLinearBuckets.simps, simp)
qed

subsection \<open>What is shown is the last snapshot taken from the channel\<close>

datatype metrics_action = Push CacheServerMetrics | Consume

fun metrics_step ::
    "('c, 'g) prometheus \<Rightarrow> metrics_action \<Rightarrow> MetricsChannel \<times> ('c, 'g) MetricsServer \<Rightarrow> MetricsChannel \<times> ('c, 'g) MetricsServer" where
  "metrics_step p (Push m) (ch, ms) = (channel_push m ch, ms)"
| "metrics_step p Consume s = consume_metrics p s"

fun pushed :: "metrics_action list \<Rightarrow> CacheServerMetrics list" where
  "pushed [] = []"
| "pushed (Push m # as) = m # pushed as"
| "pushed (Consume # as) = pushed as"

definition no_metrics :: CacheServerMetrics where
  "no_metrics = \<lparr>m_numErrors = 0, m_numActiveConnections = 0, m_numRequests = 0\<rparr>"

definition shows_metrics :: "('c, 'g) prometheus \<Rightarrow> ('c, 'g) MetricsServer \<Rightarrow> CacheServerMetrics \<Rightarrow> bool" where
  "shows_metrics p ms m \<longleftrightarrow> counter_Value p (server_num_errors_total ms) = real (m_numErrors m) \<and>
     counter_Value p (server_num_requests_total ms) = real (m_numRequests m) \<and>
     gauge_Value p (server_num_active_connections ms) = real (m_numActiveConnections m)"

definition metrics_le :: "CacheServerMetrics \<Rightarrow> CacheServerMetrics \<Rightarrow> bool" where
  "metrics_le m m' \<longleftrightarrow> m_numErrors m \<le> m_numErrors m' \<and> m_numRequests m \<le> m_numRequests m'"

definition metrics_exact :: "CacheServerMetrics \<Rightarrow> bool" where
  "metrics_exact m \<longleftrightarrow> m_numErrors m \<le> double_exact \<and> m_numRequests m \<le> double_exact \<and> m_numActiveConnections m \<le> double_exact"

lemma counter_raised:
  assumes "prom_ok p" "counter_Value p c = real a" "a \<le> b" "b \<le> double_exact"
  shows "counter_Value p (counter_Increment p (real b - counter_Value p c) c) = real b"
proof -
  have "real b - counter_Value p c = real (b - a)" using assms(2,3) by (simp add: of_nat_diff)
  moreover have "a + (b - a) \<le> double_exact" using assms(3,4) by simp
  ultimately show ?thesis using assms(1,2,3) unfolding prom_ok_def by fastforce
qed

lemma UpdateMetrics_shows:
  assumes "prom_ok p" "shows_metrics p ms m" "metrics_le m m'" "metrics_exact m'"
  shows "shows_metrics p (UpdateMetrics p m' ms) m'"
  using assms counter_raised [OF assms(1), of "server_num_errors_total ms" "m_numErrors m" "m_numErrors m'"]
    counter_raised [OF assms(1), of "server_num_requests_total ms" "m_numRequests m" "m_numRequests m'"]
  by (simp add: UpdateMetrics_def shows_metrics_def metrics_le_def metrics_exact_def prom_ok_def Let_def)

lemma pushed_append [simp]: "pushed (as @ bs) = pushed as @ pushed bs"
  by (induction as rule: pushed.induct) simp_all

lemma last_taken_le:
  assumes "sorted_wrt metrics_le ms" and "k < length ms"
  shows "metrics_le (last (no_metrics # take k ms)) (ms ! k)"
proof (cases k)
  case 0
  then show ?thesis by (simp add: metrics_le_def no_metrics_def)
next
  case (Suc j)
  then have "last (take k ms) = ms ! j" "take k ms \<noteq> []" using assms(2) by (auto simp: take_Suc_conv_app_nth)
  then show ?thesis using assms Suc by (simp add: sorted_wrt_nth_less)
qed

lemma consume_takes_next:
  assumes "prom_ok p" "sorted_wrt metrics_le ms" "list_all metrics_exact ms" "k \<le> length ms"
    "shows_metrics p sv (last (no_metrics # take k ms))" "consume_metrics p (drop k ms, sv) = (ch, sv')"
  shows "\<exists>k' \<le> length ms. ch = drop k' ms \<and> shows_metrics p sv' (last (no_metrics # take k' ms))"
proof (cases "k < length ms")
  case True
  then have step: "ch = drop (Suc k) ms" "sv' = UpdateMetrics p (ms ! k) sv"
    using assms(6) by (simp_all add: consume_metrics_def channel_try_pop_def Cons_nth_drop_Suc [symmetric])
  have "shows_metrics p sv' (ms ! k)"
    unfolding step(2) using True assms(3)
    by (intro UpdateMetrics_shows [OF assms(1,5) last_taken_le [OF assms(2) True]]) (simp add: list_all_length)
  moreover have "last (no_metrics # take (Suc k) ms) = ms ! k"
    using True by (simp add: take_Suc_conv_app_nth)
  ultimately show ?thesis using True step(1) by (intro exI [of _ "Suc k"]) simp
next
  case False
  then show ?thesis using assms(4,5,6) by (intro exI [of _ k]) (auto simp: consume_metrics_def channel_try_pop_def)
qed

lemma registered_at_zero:
  assumes "registry_ok p q" "MetricsServer_ctor q url = Val (ms, r)"
  shows "shows_metrics p ms no_metrics"
    "reg_names q r = [''server_num_errors_total'', ''server_num_active_connections'', ''server_num_requests_total'']"
  using assms
  by (auto simp: MetricsServer_ctor_def RegisterMetrics_def registry_ok_def shows_metrics_def no_metrics_def case_prod_beta Let_def
      split: option.splits)

lemma snapshots_taken:
  assumes "prom_ok p" and "shows_metrics p ms no_metrics"
    and "sorted_wrt metrics_le (pushed as)" and "list_all metrics_exact (pushed as)"
    and "fold (metrics_step p) as ([], ms) = (ch, ms')"
  shows "\<exists>k \<le> length (pushed as). ch = drop k (pushed as) \<and> shows_metrics p ms' (last (no_metrics # take k (pushed as)))"
  using assms(3-5)
proof (induction as arbitrary: ch ms' rule: rev_induct)
  case Nil
  then show ?case using assms(2) by simp
next
  case (snoc a as)
  obtain ch1 ms1 where before: "fold (metrics_step p) as ([], ms) = (ch1, ms1)" by (cases "fold (metrics_step p) as ([], ms)")
  then obtain k where k: "k \<le> length (pushed as)" "ch1 = drop k (pushed as)"
      "shows_metrics p ms1 (last (no_metrics # take k (pushed as)))"
    using snoc.IH [OF _ _ before] snoc.prems(1,2) by (auto simp: sorted_wrt_append)
  show ?case
  proof (cases a)
    case (Push m)
    then show ?thesis using snoc.prems(3) before k by (intro exI [of _ k]) (auto simp: channel_push_def)
  next
    case Consume
    then show ?thesis
      using consume_takes_next [OF assms(1) _ _ k(1,3)] snoc.prems before k(2) by simp
  qed
qed

text \<open>
  C32: The channel keeps the order and what is shown is a snapshot of the server: the constructor registers the
  three metrics at zero, and after any interleaving of snapshots that are pushed and turns that take one,
  some number of them has been taken, the others wait in the order they were pushed, and the metrics show
  the last one taken (zeros before the first); once the channel is empty they show the newest. The
  counters of the server never go down, and stay within the whole numbers that a double holds.
\<close>

theorem metrics_show_snapshots:
  assumes "prom_ok p" and "registry_ok p q" and "MetricsServer_ctor q url = Val (ms, r)"
    and "sorted_wrt metrics_le (pushed as)" and "list_all metrics_exact (pushed as)"
    and "fold (metrics_step p) as ([], ms) = (ch, ms')"
  shows "distinct (reg_names q r) \<and> length (reg_names q r) = 3 \<and>
    (\<exists>k \<le> length (pushed as). ch = drop k (pushed as) \<and> shows_metrics p ms' (last (no_metrics # take k (pushed as))))"
  using snapshots_taken [OF assms(1) registered_at_zero(1) [OF assms(2,3)] assms(4-6)] registered_at_zero(2) [OF assms(2,3)]
  by simp

text \<open>A library whose counters and gauges are the numbers themselves.\<close>

definition number_prometheus :: "(real, real) prometheus" where
  "number_prometheus = \<lparr>counter_Value = (\<lambda>c. c), counter_Increment = (\<lambda>v c. if v < 0 then c else c + v),
     gauge_Set = (\<lambda>v g. v), gauge_Value = (\<lambda>g. g)\<rparr>"

lemma number_prometheus_ok: "prom_ok number_prometheus"
  by (simp add: prom_ok_def number_prometheus_def)

definition list_registry :: "(real, real, string list) prom_registry" where
  "list_registry = \<lparr>Registry = [], BuildCounter = (\<lambda>n h r. (0, r @ [n])), BuildGauge = (\<lambda>n h r. (0, r @ [n])), reg_names = (\<lambda>r. r),
     Exposer = (\<lambda>url. None)\<rparr>"

lemma list_registry_ok: "registry_ok number_prometheus list_registry"
  by (simp add: registry_ok_def list_registry_def number_prometheus_def)

definition fresh_metrics :: "(real, real) MetricsServer" where
  "fresh_metrics = \<lparr>server_num_active_connections = 0, server_num_requests_total = 0, server_num_errors_total = 0\<rparr>"

definition ex_metrics :: "metrics_action list" where
  "ex_metrics = [Consume, Push \<lparr>m_numErrors = 0, m_numActiveConnections = 2, m_numRequests = 3\<rparr>,
     Push \<lparr>m_numErrors = 1, m_numActiveConnections = 1, m_numRequests = 8\<rparr>, Consume]"

theorem metrics_show_snapshots_witness:
  "\<exists>r. MetricsServer_ctor list_registry ''0.0.0.0:8081'' = Val (fresh_metrics, r) \<and>
   (let (ch, ms) = fold (metrics_step number_prometheus) ex_metrics ([], fresh_metrics)
    in \<exists>k \<le> length (pushed ex_metrics). ch = drop k (pushed ex_metrics) \<and>
      shows_metrics number_prometheus ms (last (no_metrics # take k (pushed ex_metrics))))"
proof -
  obtain r where r: "MetricsServer_ctor list_registry ''0.0.0.0:8081'' = Val (fresh_metrics, r)"
    by (simp add: MetricsServer_ctor_def RegisterMetrics_def list_registry_def fresh_metrics_def)
  moreover have "sorted_wrt metrics_le (pushed ex_metrics)" "list_all metrics_exact (pushed ex_metrics)"
    by (simp_all add: ex_metrics_def metrics_le_def metrics_exact_def double_exact_def)
  ultimately show ?thesis
    using metrics_show_snapshots [OF number_prometheus_ok list_registry_ok r _ _ surjective_pairing, of ex_metrics]
    by (simp only: case_prod_beta Let_def) blast
qed

end
