(* ===== verification/Threads.thy ===== *)
theory Threads
  imports Metrics
begin

section \<open>Threads and shutdown (\<open>Start\<close> and \<open>Stop\<close> of src/src/server/server.cpp, src/src/main.cpp)\<close>

text \<open>
  \<^verbatim>\<open>Start\<close> creates the threads of the server and waits on a latch until the two workers have left their
  loops; \<^verbatim>\<open>Stop\<close> runs in a signal handler. The state holds the shared variables, the stop token of each
  \<^verbatim>\<open>jthread\<close> (\<open>None\<close> before the thread is created: \<^verbatim>\<open>request_stop\<close> does nothing then) and where each thread
  is. A step of a thread is one access to what the threads share, or one turn of the work a worker
  does: a round of \<^verbatim>\<open>acceptConnections\<close> or one resumption of the coroutine \<^verbatim>\<open>handleRequests\<close>, whose results of
  system calls come with the step. A schedule is a list of steps in any order. A signal that arrives
  while \<^verbatim>\<open>Stop\<close> is running is not modelled; the accesses to the table of connections within a turn are
  not interleaved with those of the other worker.
\<close>

datatype start_pc = StartEntry | SpawnMetrics | SpawnConn | SpawnReq | LatchWait | Returned

datatype stop_pc = NoSignal | TestRunning | ClearRunning | StopMetrics | StopConn | StopReq

datatype worker_pc = NotCreated | Body | TestToken | CountDown | Ended | Stuck

record threads =
  isRunning :: bool
  shutdownLatch :: nat
  metrics_token :: "bool option"
  conn_token :: "bool option"
  req_token :: "bool option"
  start_at :: start_pc
  stop_at :: stop_pc
  metrics_at :: worker_pc
  conn_at_pc :: worker_pc
  req_at :: worker_pc
  handler :: loop_state
  channel :: MetricsChannel

definition init_threads :: "EventServer \<Rightarrow> threads" where
  "init_threads es = \<lparr>isRunning = False, shutdownLatch = 2, metrics_token = None, conn_token = None, req_token = None,
     start_at = StartEntry, stop_at = NoSignal, metrics_at = NotCreated, conn_at_pc = NotCreated, req_at = NotCreated,
     handler = Running es, channel = []\<rparr>"

definition server_data :: "loop_state \<Rightarrow> EventServer option" where
  "server_data st = (case st of Running es \<Rightarrow> Some es | Done es \<Rightarrow> Some es | Crashed \<Rightarrow> None)"

definition request_stop :: "bool option \<Rightarrow> bool option" where
  "request_stop t = map_option (\<lambda>_. True) t"

definition stop_requested :: "bool option \<Rightarrow> bool" where
  "stop_requested t = (t = Some True)"

subsection \<open>\<^verbatim>\<open>Start\<close> and \<^verbatim>\<open>Stop\<close>\<close>

definition Start_step :: "threads \<Rightarrow> threads" where
  "Start_step s = (case start_at s of
       StartEntry \<Rightarrow> s\<lparr>isRunning := True, start_at := SpawnMetrics\<rparr>
     | SpawnMetrics \<Rightarrow> s\<lparr>metrics_token := Some False, metrics_at := TestToken, start_at := SpawnConn\<rparr>
     | SpawnConn \<Rightarrow> s\<lparr>conn_token := Some False, conn_at_pc := Body, start_at := SpawnReq\<rparr>
     | SpawnReq \<Rightarrow> s\<lparr>req_token := Some False, req_at := Body, start_at := LatchWait\<rparr>
     | LatchWait \<Rightarrow> if shutdownLatch s = 0 then s\<lparr>start_at := Returned\<rparr> else s
     | Returned \<Rightarrow> s)"

definition Stop_step :: "threads \<Rightarrow> threads" where
  "Stop_step s = (case stop_at s of
       NoSignal \<Rightarrow> s
     | TestRunning \<Rightarrow> s\<lparr>stop_at := (if isRunning s then ClearRunning else NoSignal)\<rparr>
     | ClearRunning \<Rightarrow> s\<lparr>isRunning := False, stop_at := StopMetrics\<rparr>
     | StopMetrics \<Rightarrow> s\<lparr>metrics_token := request_stop (metrics_token s), stop_at := StopConn\<rparr>
     | StopConn \<Rightarrow> s\<lparr>conn_token := request_stop (conn_token s), stop_at := StopReq\<rparr>
     | StopReq \<Rightarrow> s\<lparr>req_token := request_stop (req_token s), stop_at := NoSignal\<rparr>)"

text \<open>The handler that \<^verbatim>\<open>main\<close> installs for \<^verbatim>\<open>SIGINT\<close> and \<^verbatim>\<open>SIGTERM\<close> calls \<^verbatim>\<open>Stop\<close>.\<close>

definition signal_step :: "threads \<Rightarrow> threads" where
  "signal_step s = (if stop_at s = NoSignal then s\<lparr>stop_at := TestRunning\<rparr> else s)"

subsection \<open>The workers\<close>

definition conn_worker_step :: "accept_round \<Rightarrow> threads \<Rightarrow> threads" where
  "conn_worker_step r s = (case conn_at_pc s of
       Body \<Rightarrow> (case handler s of
           Running es \<Rightarrow> (case accept_once r (connManager es) of
               (Val _, cm) \<Rightarrow> s\<lparr>handler := Running (es\<lparr>connManager := cm\<rparr>), conn_at_pc := TestToken\<rparr>
             | (_, cm) \<Rightarrow> s\<lparr>handler := Running (es\<lparr>connManager := cm\<rparr>), conn_at_pc := Stuck\<rparr>)
         | Done es \<Rightarrow> (case accept_once r (connManager es) of
               (Val _, cm) \<Rightarrow> s\<lparr>handler := Done (es\<lparr>connManager := cm\<rparr>), conn_at_pc := TestToken\<rparr>
             | (_, cm) \<Rightarrow> s\<lparr>handler := Done (es\<lparr>connManager := cm\<rparr>), conn_at_pc := Stuck\<rparr>)
         | Crashed \<Rightarrow> s)
     | TestToken \<Rightarrow> s\<lparr>conn_at_pc := (if stop_requested (conn_token s) then CountDown else Body)\<rparr>
     | CountDown \<Rightarrow> s\<lparr>shutdownLatch := shutdownLatch s - 1, conn_at_pc := Ended\<rparr>
     | _ \<Rightarrow> s)"

text \<open>
  A resumption of \<^verbatim>\<open>handleRequests\<close> begins with the test of \<^verbatim>\<open>isRunning\<close>. When it fails, control flows off the
  end of the coroutine; its promise type has \<^verbatim>\<open>return_value\<close> and no \<^verbatim>\<open>return_void\<close>, so that this is
  undefined behaviour. The first round runs when the coroutine is created, as \<^verbatim>\<open>initial_suspend\<close>
  does not suspend.
\<close>

definition resume_handler :: "'z zlib \<Rightarrow> bool \<Rightarrow> epoll_result \<Rightarrow> loop_state \<Rightarrow> loop_state" where
  "resume_handler z running ep st = (case st of
       Running es \<Rightarrow> if running then next_value z ep (Running es) else Crashed
     | _ \<Rightarrow> next_value z ep st)"

definition req_worker_step :: "'z zlib \<Rightarrow> epoll_result \<Rightarrow> threads \<Rightarrow> threads" where
  "req_worker_step z ep s = (case req_at s of
       Body \<Rightarrow> let st = resume_handler z (isRunning s) ep (handler s)
         in s\<lparr>handler := st, req_at := (if st = Crashed then Stuck else TestToken)\<rparr>
     | TestToken \<Rightarrow> s\<lparr>req_at := (if stop_requested (req_token s) then CountDown else Body)\<rparr>
     | CountDown \<Rightarrow> s\<lparr>shutdownLatch := shutdownLatch s - 1, req_at := Ended\<rparr>
     | _ \<Rightarrow> s)"

definition metrics_worker_step :: "threads \<Rightarrow> threads" where
  "metrics_worker_step s = (case metrics_at s of
       Body \<Rightarrow> (case server_data (handler s) of
           Some es \<Rightarrow> s\<lparr>channel := metricsUpdater_round es (channel s), metrics_at := TestToken\<rparr>
         | None \<Rightarrow> s)
     | TestToken \<Rightarrow> s\<lparr>metrics_at := (if stop_requested (metrics_token s) then Ended else Body)\<rparr>
     | _ \<Rightarrow> s)"

subsection \<open>Schedules\<close>

datatype action = StartStep | StopStep | Signal | ConnStep accept_round | ReqStep epoll_result | MetricsStep

fun thread_step :: "'z zlib \<Rightarrow> action \<Rightarrow> threads \<Rightarrow> threads" where
  "thread_step z StartStep s = Start_step s"
| "thread_step z StopStep s = Stop_step s"
| "thread_step z Signal s = signal_step s"
| "thread_step z (ConnStep r) s = conn_worker_step r s"
| "thread_step z (ReqStep ep) s = req_worker_step z ep s"
| "thread_step z MetricsStep s = metrics_worker_step s"

definition run_schedule :: "'z zlib \<Rightarrow> action list \<Rightarrow> threads \<Rightarrow> threads" where
  "run_schedule z acts s = fold (thread_step z) acts s"

inductive reachable :: "'z zlib \<Rightarrow> EventServer \<Rightarrow> threads \<Rightarrow> bool" for z es where
  init: "reachable z es (init_threads es)"
| step: "reachable z es s \<Longrightarrow> reachable z es (thread_step z a s)"

lemma run_schedule_append: "run_schedule z (as @ bs) s = run_schedule z bs (run_schedule z as s)"
  by (simp add: run_schedule_def)

lemma run_schedule_Cons [simp]: "run_schedule z (a # as) s = run_schedule z as (thread_step z a s)"
  by (simp add: run_schedule_def)

lemma run_schedule_Nil [simp]: "run_schedule z [] s = s"
  by (simp add: run_schedule_def)

lemma reachable_run: "reachable z es s \<Longrightarrow> reachable z es (run_schedule z as s)"
  by (induction as arbitrary: s) (auto intro: reachable.step)

text \<open>A property that every step keeps holds after every schedule.\<close>

lemma run_schedule_keeps:
  assumes "P s" and "\<And>a s. P s \<Longrightarrow> P (thread_step z a s)"
  shows "P (run_schedule z as s)"
  using assms by (induction as arbitrary: s) auto

lemmas step_defs = Start_step_def Stop_step_def signal_step_def conn_worker_step_def req_worker_step_def
  metrics_worker_step_def Let_def

lemmas pc_splits = start_pc.splits stop_pc.splits worker_pc.splits loop_state.splits cpp.splits prod.splits option.splits if_splits

end
