(* ===== verification/Round_Props.thy ===== *)
theory Round_Props
  imports Custom
begin

section \<open>Properties of sending, of the connection table and of rounds that fail\<close>

text \<open>
  The order and completeness of what is sent, the invariant of the table of connections over all
  interleavings of its operations, and the inputs and events that the event loop does not survive.
\<close>

subsection \<open>Sending\<close>

text \<open>
  C26: Responses are sent in order and without gaps: whatever numbers of bytes the socket takes, what it
  has got at any end of \<open>sendResponses\<close> is a beginning of all the responses; it is all of them unless an
  error was counted or the socket never takes the rest, and it is all of them when the socket takes
  enough before its first error. Nothing is written to another socket.
\<close>

theorem responses_sent_in_order:
  assumes "gather (store_heap (cache es)) (arena (cache es)) ps = Some iov" and "kernel_ok rs (length (concat iov))"
    and "sendResponses fd ps rs es = (r, es')"
  shows "(\<exists>k \<le> length (concat iov). sent_to es' = (sent_to es)(fd := sent_to es fd @ take k (concat iov))) \<and>
    (r = Val () \<and> numErrors (cache es') = numErrors (cache es) \<longrightarrow> sent_to es' fd = sent_to es fd @ concat iov) \<and>
    (length (concat iov) \<le> taken rs \<longrightarrow> r = Val () \<and> numErrors (cache es') = numErrors (cache es))"
proof -
  let ?e = "numErrors (cache es)"
  obtain out errs where loop: "send_loop rs iov 0 (0 + length (concat iov)) [] ?e = (r, out, errs)"
    and es': "es' = es\<lparr>cache := (cache es)\<lparr>numErrors := errs\<rparr>, sent_to := (sent_to es)(fd := sent_to es fd @ out)\<rparr>"
    using assms(1,3) by (auto simp: sendResponses_def sum_lengths split: prod.splits)
  note p = send_loop_prefix [OF assms(2) loop]
  have "r = Val () \<and> errs = ?e" if "length (concat iov) \<le> taken rs"
    using send_loop_completes [OF assms(2) that, of 0 "[]" ?e] loop by auto
  then show ?thesis using p by (auto simp: es')
qed

theorem responses_sent_in_order_witness:
  "sent_to (snd (sendResponses 5 [makeCustomResponse (ConstPtr ''one'') ''one'', makeCustomResponse (ConstPtr ''two'') ''two'']
    [SentBytes 2, SendAgain, SentBytes 6] ex_loop)) 5 = ''one'' @ [MSG_SEPARATOR] @ ''two'' @ [MSG_SEPARATOR]"
proof -
  let ?ps = "[makeCustomResponse (ConstPtr ''one'') ''one'', makeCustomResponse (ConstPtr ''two'') ''two'']"
  let ?iov = "[''one'', [MSG_SEPARATOR], ''two'', [MSG_SEPARATOR]]"
  let ?rs = "[SentBytes 2, SendAgain, SentBytes 6]"
  obtain r es' where run: "sendResponses 5 ?ps ?rs ex_loop = (r, es')" by fastforce
  have "gather (store_heap (cache ex_loop)) (arena (cache ex_loop)) ?ps = Some ?iov"
    by (simp add: response_iov_def sent_bytes_def packet_bytes_def makeCustomResponse_def new_packet_def)
  from responses_sent_in_order [OF this _ run] have "sent_to es' 5 = sent_to ex_loop 5 @ concat ?iov" by simp
  then show ?thesis using run by (simp add: ex_loop_def)
qed

subsection \<open>The table of connections\<close>

text \<open>
  The steps of the accepting and the handling thread, in any order; each holds the mutex for its whole
  length. With \<open>strict\<close> the activity is only updated for connections that are still registered.
\<close>

inductive conn_step :: "bool \<Rightarrow> ConnManager \<Rightarrow> ConnManager \<Rightarrow> bool" for strict where
  register: "registerConnection fd ctl clock cm = (Val r, cm') \<Longrightarrow> conn_step strict cm cm'"
| close: "closeConnection fd cm = (Val (), cm') \<Longrightarrow> conn_step strict cm cm'"
| validate: "validateConnections clock order cm = (Val (), cm') \<Longrightarrow> conn_step strict cm cm'"
| activity: "updateActivity fd clock cm = (Val b, cm') \<Longrightarrow> (strict \<Longrightarrow> connections cm fd \<noteq> None) \<Longrightarrow> conn_step strict cm cm'"

inductive conn_reach :: "bool \<Rightarrow> ConnManager \<Rightarrow> bool" for strict where
  init: "conn_reach strict (new_ConnManager ep)"
| step: "conn_reach strict cm \<Longrightarrow> conn_step strict cm cm' \<Longrightarrow> conn_reach strict cm'"

definition counted :: "bool \<Rightarrow> ConnManager \<Rightarrow> bool" where
  "counted strict cm \<longleftrightarrow> \<not> conn_mutex cm \<and> finite (dom (connections cm)) \<and>
     activeConnectionsCounter cm \<le> card (dom (connections cm)) \<and>
     (strict \<longrightarrow> activeConnectionsCounter cm = card (dom (connections cm)))"

lemma validate_unchanged:
  assumes "\<not> conn_mutex cm" "validateConnections clock order cm = (Val (), cm')"
  shows "cm' = cm"
proof -
  have "validate_loop now order (cm\<lparr>conn_mutex := True\<rparr>) =
      (if list_all (\<lambda>fd. \<not> expired now (conn_at (cm\<lparr>conn_mutex := True\<rparr>) fd)) order then Val () else Hang, cm\<lparr>conn_mutex := True\<rparr>)"
    for now by (rule validate_loop_locked) simp
  then show ?thesis using assms by (auto simp: validateConnections_def with_lock_def split: option.splits if_splits)
qed

lemma conn_step_counted:
  assumes "counted strict cm" "conn_step strict cm cm'"
  shows "counted strict cm'"
  using assms(2)
proof cases
  case (register fd ctl clock r)
  then show ?thesis using assms(1)
    by (auto simp: counted_def registerConnection_eq put_conn_def domIff card_insert_if split: if_splits option.splits)
next
  case (close fd)
  then show ?thesis using assms(1)
    by (auto simp: counted_def closeConnection_eq drop_conn_def dom_def [symmetric] split: if_splits) (auto simp: dom_def)
next
  case (validate clock order)
  then show ?thesis using assms(1) validate_unchanged by (auto simp: counted_def)
next
  case (activity fd clock b)
  then show ?thesis using assms(1)
    by (auto simp: counted_def updateActivity_eq put_conn_def card_insert_if split: option.splits)
qed



text \<open>
  The sweep for idle connections locks itself out: with the mutex free, \<open>validateConnections\<close> changes
  nothing as long as no connection is expired, and never returns when one is, since it closes the
  connection while it holds the mutex that closing takes.
\<close>

theorem idle_sweep_deadlocks:
  assumes "\<not> conn_mutex cm"
  shows "validateConnections (Some now) order cm =
    (if list_ex (\<lambda>fd. expired now (conn_at cm fd)) order then (Hang, cm\<lparr>conn_mutex := True\<rparr>) else (Val (), cm))"
proof -
  have "conn_at (cm\<lparr>conn_mutex := True\<rparr>) = conn_at cm" by (simp add: conn_at_def fun_eq_iff)
  then show ?thesis
    using assms validate_loop_locked [of "cm\<lparr>conn_mutex := True\<rparr>" now order]
    by (simp add: validateConnections_def with_lock_def list_ex_iff list_all_iff)
qed

theorem idle_sweep_deadlocks_witness:
  "fst (validateConnections (Some \<lparr>tv_sec = 301, tv_nsec = 0\<rparr>) [5] ex_manager) = Hang"
proof -
  have "\<not> conn_mutex ex_manager" by (simp add: ex_manager_def)
  moreover have "expired \<lparr>tv_sec = 301, tv_nsec = 0\<rparr> (conn_at ex_manager 5)"
    by (simp add: expired_def conn_at_def ex_manager_def new_connection_def zero_time_def timespec_minus_def MAX_CONN_LIFETIME_SEC_def)
  ultimately show ?thesis using idle_sweep_deadlocks [of ex_manager "\<lparr>tv_sec = 301, tv_nsec = 0\<rparr>" "[5]"] by simp
qed

text \<open>
  A connection that its client closes stays in the table: reading the end of the stream closes the
  descriptor and removes the entry, and the update of the activity that follows in the same round puts an
  empty entry back, which the counter does not count.
\<close>

theorem closed_connection_stays:
  assumes "connections (connManager es) fd = Some d" and "\<not> conn_mutex (connManager es)"
  shows "\<exists>es'. read_events [\<lparr>ev_fd = fd, ev_error = False, ev_in = True, ev_reads = [ReadEof], ev_clock = Some now\<rparr>] es =
      (Val [(fd, Failure)], es') \<and>
    connections (connManager es') fd = Some (default_connection\<lparr>lastActivity := now\<rparr>) \<and>
    fd \<in> set (closed_fds (connManager es')) \<and>
    activeConnectionsCounter (connManager es') = activeConnectionsCounter (connManager es) - 1"
  using assms
  by (simp add: readRequestAsync_def conn_at_def Let_def fail_closed_def on_manager_def closeConnection_eq put_data_def
      put_conn_def drop_conn_def updateActivity_eq READ_MAX_ATTEMPTS_def MAX_REQUEST_SIZE_def READ_BUFFER_SIZE_def)

theorem closed_connection_stays_witness:
  "\<exists>es'. read_events [\<lparr>ev_fd = 5, ev_error = False, ev_in = True, ev_reads = [ReadEof], ev_clock = Some zero_time\<rparr>] ex_loop =
      (Val [(5, Failure)], es') \<and>
    connections (connManager es') 5 = Some (default_connection\<lparr>lastActivity := zero_time\<rparr>) \<and>
    5 \<in> set (closed_fds (connManager es')) \<and>
    activeConnectionsCounter (connManager es') = activeConnectionsCounter (connManager ex_loop) - 1"
  by (rule closed_connection_stays [of _ _ "new_connection zero_time 3"]) (simp_all add: ex_loop_def ex_manager_def)

subsection \<open>Inputs that the loop does not survive\<close>

lemma parse_stray: "parse_loop [MSG_SEPARATOR] 0 [] = Some (Val (Parsed [MSG_SEPARATOR] 1 []))"
  by (simp add: parse_loop.simps)

lemma parse_after_stray:
  assumes "length (concat (map resp_request reqs)) < 2 ^ 30"
  shows "\<exists>buf. length buf = length (concat (map resp_request reqs)) + 1 \<and>
    parse_loop (MSG_SEPARATOR # concat (map resp_request reqs)) 0 [] = Some (Val (Parsed buf (length buf) (map resp_view reqs)))"
proof -
  have w: "concat (map resp_request reqs) = concat (map wire (map RespMsg reqs))" "list_all wire_ok (map RespMsg reqs)"
    by (simp_all add: comp_def list_all_iff)
  have len: "length ([MSG_SEPARATOR] @ concat (map wire (map RespMsg reqs)) @ []) < 2 ^ 63" using assms unfolding w(1) by simp
  obtain buf where buf: "length buf = length (concat (map resp_request reqs)) + 1"
    "parse_loop (MSG_SEPARATOR # concat (map resp_request reqs)) 1 [] = parse_loop buf (length buf) (map view_of (map RespMsg reqs))"
    using parse_loop_wire [OF w(2) len, of "[]"] w(1) by auto
  moreover have "parse_loop (MSG_SEPARATOR # s) 0 [] = parse_loop (MSG_SEPARATOR # s) 1 []" for s
    by (subst parse_loop.simps) simp
  ultimately have "parse_loop (MSG_SEPARATOR # concat (map resp_request reqs)) 0 [] =
      Some (Val (Parsed buf (length buf) (map resp_view reqs)))"
    by (simp add: parse_loop.simps [of buf] comp_def resp_view_def)
  then show ?thesis using buf(1) by blast
qed

lemma stray_first_round:
  assumes d: "connections (connManager es) fd = Some d" "readBuffer d = []" "pendingRequests d = []" "bytesToErase d = 0"
    and free: "\<not> conn_mutex (connManager es)"
  shows "handle_round z [data_event fd [[MSG_SEPARATOR]] now] sock es =
    (Val (), put_data fd (d\<lparr>readBuffer := [MSG_SEPARATOR], pendingRequests := [], bytesToErase := 1, lastActivity := now\<rparr>)
      (es\<lparr>numRequests := numRequests es + 1\<rparr>))"
proof -
  have "read_loop [ReadData [MSG_SEPARATOR], ReadAgain] 0 0 [] = (Drained, [MSG_SEPARATOR])"
    by (simp add: READ_MAX_ATTEMPTS_def MAX_REQUEST_SIZE_def READ_BUFFER_SIZE_def)
  then show ?thesis
    using d free parse_stray
    by (simp add: handle_round_def data_event_def readRequestAsync_def conn_at_def Let_def on_manager_def updateActivity_eq
        put_data_def put_conn_def handle_reader_def drop_responses_def destroy_all_def del: read_loop.simps)
qed

text \<open>
  A separator sent on its own breaks the connection's buffer: after a connection at rest has sent a
  single separator, the next complete batch of RESP requests makes the server erase more bytes than it has
  read, which is undefined behaviour, because the bytes skipped while waiting are counted twice.
\<close>

theorem stray_separator_undefined:
  assumes "at_rest z fd es" and "reqs \<noteq> []" and "length (concat (map resp_request reqs)) < 2 ^ 30"
    and "spec_run z (map command_of reqs) (tx_at fd es, cache es) = (Val bs, tx, sv1)"
  shows "\<exists>es1. handle_round z [data_event fd [[MSG_SEPARATOR]] now] sock es = (Val (), es1) \<and>
    fst (handle_round z [data_event fd [concat (map resp_request reqs)] later] sock es1) = UB"
proof -
  obtain d where d: "connections (connManager es) fd = Some d" "readBuffer d = []" "pendingRequests d = []" "bytesToErase d = 0"
    and inv: "conn_inv z \<lparr>server = cache es, respTransaction = cd_respTransaction d\<rparr> {}"
    and free: "\<not> conn_mutex (connManager es)" using assms(1) by (auto simp: at_rest_def)
  let ?s = "concat (map resp_request reqs)"
  let ?d1 = "d\<lparr>readBuffer := [MSG_SEPARATOR], pendingRequests := [], bytesToErase := 1, lastActivity := now\<rparr>"
  let ?es1 = "put_data fd ?d1 (es\<lparr>numRequests := numRequests es + 1\<rparr>)"
  obtain buf where buf: "length buf = length ?s + 1"
    "parse_loop (MSG_SEPARATOR # ?s) 0 [] = Some (Val (Parsed buf (length buf) (map resp_view reqs)))"
    using parse_after_stray [OF assms(3)] by blast
  have rl: "read_loop [ReadData ?s, ReadAgain] 0 0 [MSG_SEPARATOR] = (Drained, MSG_SEPARATOR # ?s)"
    by (simp add: READ_MAX_ATTEMPTS_def MAX_REQUEST_SIZE_def READ_BUFFER_SIZE_def)
  let ?d2 = "?d1\<lparr>readBuffer := buf, pendingRequests := map resp_view reqs, bytesToErase := 1 + length buf\<rparr>"
  have read: "readRequestAsync fd [ReadData ?s, ReadAgain] (?es1\<lparr>numRequests := n\<rparr>) =
      (Val Success, put_data fd ?d2 (?es1\<lparr>numRequests := n\<rparr>))" for n
    using rl buf(2) assms(2)
    by (simp add: readRequestAsync_def conn_at_def Let_def put_data_def put_conn_def del: read_loop.simps)
  have "tx_at fd es = tx_of (cd_respTransaction d)" using d(1) by (simp add: tx_at_def conn_at_def)
  with batch_answers [OF inv requests_small [OF assms(3)]] assms(4) obtain ps c' where
    "process_pending z (map resp_view reqs) \<lparr>server = cache es, respTransaction = cd_respTransaction d\<rparr> = (Val ps, c')" by auto
  then have "fst (handle_round z [data_event fd [?s] later] sock ?es1) = UB"
    using read free
    by (simp add: handle_round_def data_event_def on_manager_def updateActivity_eq put_data_def put_conn_def conn_at_def
        handle_reader_def Let_def erase_read_def)
  then show ?thesis using stray_first_round [OF d free] by blast
qed

theorem stray_separator_undefined_witness:
  "\<exists>es1. handle_round store_zlib [data_event 5 [[MSG_SEPARATOR]] zero_time] (\<lambda>_. []) ex_loop = (Val (), es1) \<and>
    fst (handle_round store_zlib [data_event 5 [concat (map resp_request [[''GET'', ''a'']])] zero_time] (\<lambda>_. []) es1) = UB"
proof -
  have "fst (spec_run store_zlib (map command_of [[''GET'', ''a'']]) (Idle, ex_server)) = Val [''$-1'' @ [CR, LF]]" by code_simp
  then obtain tx sv1 where spec: "spec_run store_zlib (map command_of [[''GET'', ''a'']]) (tx_at 5 ex_loop, cache ex_loop) =
      (Val [''$-1'' @ [CR, LF]], tx, sv1)"
    using ex_loop_at_rest(2)
    by (cases "spec_run store_zlib (map command_of [[''GET'', ''a'']]) (Idle, ex_server)") (auto simp: ex_loop_def)
  have "length (concat (map resp_request [[''GET'', ''a'']])) = 20" by code_simp
  then show ?thesis by (intro stray_separator_undefined [OF ex_loop_at_rest(1) _ _ spec]) simp_all
qed

text \<open>
  C39: A custom GET can answer with freed memory: the response points into the store until the end of the
  round, so that when a GET of a stored, uncompressed value and a DEL of the same key arrive together, the
  buffer is gone when the responses are gathered for sending, which is undefined behaviour.
\<close>

theorem custom_get_dangles:
  assumes "at_rest z fd es" and "is_cstr key" and "key_ok key" and "MSG_SEPARATOR \<notin> set key" and "length key < 2 ^ 30"
    and "lookup_idx (store_of (cache es) (shard_of (cache es) key)) key = Some i"
    and "contents (entryPool (store_of (cache es) (shard_of (cache es) key))) i = Some (key, False, b)"
  shows "fst (handle_round z [data_event fd [''GET '' @ key @ [MSG_SEPARATOR] @ ''DEL '' @ key @ [MSG_SEPARATOR]] now] sock es) = UB"
proof -
  obtain d where d: "connections (connManager es) fd = Some d" "readBuffer d = []" "pendingRequests d = []" "bytesToErase d = 0"
    and inv: "conn_inv z \<lparr>server = cache es, respTransaction = cd_respTransaction d\<rparr> {}"
    and free: "\<not> conn_mutex (connManager es)" using assms(1) by (auto simp: at_rest_def)
  let ?c = "\<lparr>server = cache es, respTransaction = cd_respTransaction d\<rparr>"
  let ?ms = "[CustomMsg (text_of (Get key)), CustomMsg (text_of (Del key))]"
  have sh: "shards_inv z (server ?c)" using inv by (simp add: conn_inv_def server_inv_def)
  obtain ps c where ps: "process_pending z (map view_of ?ms) ?c = (Val ps, c)"
    and gone: "gather (store_heap (server c)) (arena (server c)) ps = None"
    using custom_get_del_dangles [OF sh assms(2,3), of i b] assms(6,7) by auto
  let ?s = "''GET '' @ key @ [MSG_SEPARATOR] @ ''DEL '' @ key @ [MSG_SEPARATOR]"
  have w: "concat [?s] = concat (map wire ?ms)" "length [?s] \<le> READ_MAX_ATTEMPTS" "list_all wire_ok ?ms" "?ms \<noteq> []"
    "length (concat [?s]) < 2 ^ 63"
    using assms(4,5) by (simp_all add: READ_MAX_ATTEMPTS_def MAX_REQUEST_SIZE_def READ_BUFFER_SIZE_def RESP_ARRAY_PREFIX_def MSG_SEPARATOR_def)
  have "ps \<noteq> []" using gone by auto
  then have "send_all sock [(fd, ps)] (handled fd d now c es) = (UB, handled fd d now c es)"
    using gone by (simp add: sendResponses_def handled_def put_data_def)
  then show ?thesis using round_batch [OF d free w ps, of now sock] by simp
qed

theorem custom_get_dangles_witness:
  "fst (handle_round store_zlib [data_event 5 [''GET '' @ ''a'' @ [MSG_SEPARATOR] @ ''DEL '' @ ''a'' @ [MSG_SEPARATOR]] zero_time]
     (\<lambda>_. []) (stored_loop ''1'')) = UB"
proof -
  have run: "fst (run_ops ops10 [Put ''a'' ''1''] store10) = Val [Stored True]" by code_simp
  have "lookup_idx (after10 [Put ''a'' ''1'']) ''a'' = Some 1"
    "contents (entryPool (after10 [Put ''a'' ''1''])) 1 = Some (''a'', False, ''1'' @ [NUL])" by code_simp+
  then show ?thesis
    using custom_get_dangles [OF stored_loop_ok(1) [OF run], of "''a''" 1 "''1'' @ [NUL]" zero_time "\<lambda>_. []"] stored_loop_ok(2) [OF run]
    by (simp add: key_ok_def MSG_SEPARATOR_def)
qed

text \<open>
  Request handling ends for good after one failure: when \<^verbatim>\<open>epoll_wait\<close> fails, be it only interrupted
  by a signal, or when a round throws, no later events are handled, and the server stays as it was.
\<close>

theorem failed_round_ends_service:
  assumes "ep = EpollError \<and> es' = es \<or>
    (\<exists>evs sock m. ep = EpollEvents evs sock \<and> evs \<noteq> [] \<and> handle_round z evs sock es = (Exn m, es'))"
  shows "fold (next_value z) (ep # later) (Running es) = Done es'"
proof -
  have "next_value z ep (Running es) = Done es'" using assms by (auto simp: next_value_def)
  moreover have "fold (next_value z) later (Done es') = Done es'" by (induction later) (simp_all add: next_value_def)
  ultimately show ?thesis by simp
qed

theorem failed_round_ends_service_witness:
  "fold (next_value store_zlib) (EpollError # [EpollEvents [data_event 5 [''GET a'' @ [MSG_SEPARATOR]] zero_time] (\<lambda>_. [])])
     (Running ex_loop) = Done ex_loop"
  by (rule failed_round_ends_service) simp

end
