(* ===== verification/Shutdown.thy ===== *)
theory Shutdown
  imports Threads Round_Props
begin

section \<open>What shutting down promises\<close>

text \<open>
  The latch counts the workers that have left; \<^verbatim>\<open>Start\<close> returns after both and, once the stop has been
  requested of both, as soon as they have been scheduled often enough, unless one of them is stuck in
  its last turn. Three ways to lose the shutdown: a signal while the threads are being created, a
  signal between the test of the stop token and the resumption of the coroutine, and a sweep that
  found an idle connection.
\<close>

definition ended :: "worker_pc \<Rightarrow> nat" where
  "ended pc = (if pc = Ended then 1 else 0)"

definition shut_inv :: "threads \<Rightarrow> bool" where
  "shut_inv s \<longleftrightarrow> shutdownLatch s + ended (conn_at_pc s) + ended (req_at s) = 2 \<and>
     (start_at s = Returned \<longrightarrow> shutdownLatch s = 0) \<and>
     (conn_at_pc s = NotCreated \<longleftrightarrow> start_at s \<in> {StartEntry, SpawnMetrics, SpawnConn}) \<and>
     (req_at s = NotCreated \<longleftrightarrow> start_at s \<in> {StartEntry, SpawnMetrics, SpawnConn, SpawnReq}) \<and>
     (handler s = Crashed \<longrightarrow> req_at s = Stuck)"

lemma shut_inv_init: "shut_inv (init_threads es)"
  by (simp add: shut_inv_def init_threads_def ended_def)

lemma shut_inv_start: "shut_inv s \<Longrightarrow> shut_inv (Start_step s)"
  by (cases "start_at s") (auto simp: shut_inv_def Start_step_def ended_def split: if_splits)

lemma shut_inv_stop: "shut_inv s \<Longrightarrow> shut_inv (Stop_step s)" "shut_inv s \<Longrightarrow> shut_inv (signal_step s)"
  by (cases "stop_at s", auto simp: shut_inv_def Stop_step_def signal_step_def)+

lemma shut_inv_conn: "shut_inv s \<Longrightarrow> shut_inv (conn_worker_step r s)"
  by (cases "conn_at_pc s"; cases "handler s") (auto simp: shut_inv_def conn_worker_step_def ended_def split: cpp.splits prod.splits if_splits)

lemma shut_inv_req: "shut_inv s \<Longrightarrow> shut_inv (req_worker_step z ep s)"
  by (cases "req_at s") (auto simp: shut_inv_def req_worker_step_def ended_def Let_def)

lemma shut_inv_metrics: "shut_inv s \<Longrightarrow> shut_inv (metrics_worker_step s)"
  by (cases "metrics_at s") (auto simp: shut_inv_def metrics_worker_step_def split: option.splits)

lemma shut_inv_step: "shut_inv s \<Longrightarrow> shut_inv (thread_step z a s)"
  by (cases a) (simp_all add: shut_inv_start shut_inv_stop shut_inv_conn shut_inv_req shut_inv_metrics)

lemma reachable_shut_inv: "reachable z es s \<Longrightarrow> shut_inv s"
  by (induction rule: reachable.induct) (auto simp: shut_inv_init shut_inv_step)

text \<open>
  C16: \<^verbatim>\<open>Start\<close> returns only after both workers have left their loops, whatever the schedule and whenever
  signals arrive; the latch always counts exactly the workers that have not, so that it is never
  counted down below zero.
\<close>

theorem start_outlives_workers:
  assumes "reachable z es s"
  shows "shutdownLatch s + ended (conn_at_pc s) + ended (req_at s) = 2 \<and>
    (start_at s = Returned \<longrightarrow> conn_at_pc s = Ended \<and> req_at s = Ended)"
  using reachable_shut_inv [OF assms] by (auto simp: shut_inv_def ended_def split: if_splits)

theorem start_outlives_workers_witness:
  "let s = run_schedule store_zlib [StartStep, StartStep, StartStep, StartStep] (init_threads ex_loop)
   in shutdownLatch s + ended (conn_at_pc s) + ended (req_at s) = 2"
proof -
  have "reachable store_zlib ex_loop (run_schedule store_zlib [StartStep, StartStep, StartStep, StartStep] (init_threads ex_loop))"
    by (intro reachable_run reachable.init)
  from start_outlives_workers [OF this] show ?thesis by (simp only: Let_def)
qed

subsection \<open>A stop that arrives is carried out\<close>

definition conn_steps :: "action list \<Rightarrow> nat" where
  "conn_steps as = length (filter (\<lambda>a. case a of ConnStep _ \<Rightarrow> True | _ \<Rightarrow> False) as)"

definition req_steps :: "action list \<Rightarrow> nat" where
  "req_steps as = length (filter (\<lambda>a. case a of ReqStep _ \<Rightarrow> True | _ \<Rightarrow> False) as)"

text \<open>The turns a worker needs to end once its stop has been requested.\<close>

fun turns_left :: "worker_pc \<Rightarrow> nat" where
  "turns_left Body = 3"
| "turns_left TestToken = 2"
| "turns_left CountDown = 1"
| "turns_left Ended = 0"
| "turns_left NotCreated = 0"
| "turns_left Stuck = 0"

definition stopping :: "threads \<Rightarrow> bool" where
  "stopping s \<longleftrightarrow> shut_inv s \<and> start_at s \<in> {LatchWait, Returned} \<and> conn_token s = Some True \<and> req_token s = Some True"

lemma stopping_start: "stopping s \<Longrightarrow> stopping (Start_step s) \<and> conn_at_pc (Start_step s) = conn_at_pc s \<and> req_at (Start_step s) = req_at s"
  using shut_inv_start [of s] by (auto simp: stopping_def Start_step_def)

lemma Stop_frame [simp]:
  "conn_at_pc (Stop_step s) = conn_at_pc s" "req_at (Stop_step s) = req_at s" "start_at (Stop_step s) = start_at s"
  "handler (Stop_step s) = handler s" "shutdownLatch (Stop_step s) = shutdownLatch s"
  by (cases "stop_at s"; simp add: Stop_step_def)+

lemma signal_frame [simp]:
  "conn_at_pc (signal_step s) = conn_at_pc s" "req_at (signal_step s) = req_at s" "start_at (signal_step s) = start_at s"
  "handler (signal_step s) = handler s" "conn_token (signal_step s) = conn_token s" "req_token (signal_step s) = req_token s"
  "shutdownLatch (signal_step s) = shutdownLatch s" "isRunning (signal_step s) = isRunning s"
  by (simp_all add: signal_step_def)

lemma metrics_frame [simp]:
  "conn_at_pc (metrics_worker_step s) = conn_at_pc s" "req_at (metrics_worker_step s) = req_at s"
  "start_at (metrics_worker_step s) = start_at s" "handler (metrics_worker_step s) = handler s"
  "conn_token (metrics_worker_step s) = conn_token s" "req_token (metrics_worker_step s) = req_token s"
  "shutdownLatch (metrics_worker_step s) = shutdownLatch s" "isRunning (metrics_worker_step s) = isRunning s"
  "stop_at (metrics_worker_step s) = stop_at s"
  by (cases "metrics_at s"; simp add: metrics_worker_step_def split: option.split)+

lemma conn_frame [simp]:
  "req_at (conn_worker_step r s) = req_at s" "start_at (conn_worker_step r s) = start_at s"
  "isRunning (conn_worker_step r s) = isRunning s" "stop_at (conn_worker_step r s) = stop_at s"
  "conn_token (conn_worker_step r s) = conn_token s" "req_token (conn_worker_step r s) = req_token s"
  by (cases "conn_at_pc s"; cases "handler s"; simp add: conn_worker_step_def split: cpp.split prod.split)+

lemma req_frame [simp]:
  "conn_at_pc (req_worker_step z ep s) = conn_at_pc s" "start_at (req_worker_step z ep s) = start_at s"
  "isRunning (req_worker_step z ep s) = isRunning s" "stop_at (req_worker_step z ep s) = stop_at s"
  "conn_token (req_worker_step z ep s) = conn_token s" "req_token (req_worker_step z ep s) = req_token s"
  by (cases "req_at s"; simp add: req_worker_step_def Let_def)+

lemma Stop_keeps_tokens:
  "conn_token s = Some True \<Longrightarrow> conn_token (Stop_step s) = Some True" "req_token s = Some True \<Longrightarrow> req_token (Stop_step s) = Some True"
  by (cases "stop_at s"; simp add: Stop_step_def request_stop_def)+

lemma stopping_other:
  assumes "stopping s" and "a = StopStep \<or> a = Signal \<or> a = MetricsStep"
  shows "stopping (thread_step z a s) \<and> conn_at_pc (thread_step z a s) = conn_at_pc s \<and> req_at (thread_step z a s) = req_at s"
  using assms shut_inv_step [of s z a] by (auto simp: stopping_def Stop_keeps_tokens)

lemma stopping_conn:
  assumes "stopping s" and "req_at s \<noteq> Stuck"
  shows "stopping (conn_worker_step r s) \<and> req_at (conn_worker_step r s) = req_at s \<and>
    (conn_at_pc (conn_worker_step r s) = Stuck \<and> conn_at_pc s \<in> {Body, Stuck} \<or>
     conn_at_pc (conn_worker_step r s) \<noteq> Stuck \<and> conn_at_pc s \<noteq> Stuck \<and> conn_at_pc (conn_worker_step r s) \<noteq> Body \<and>
       turns_left (conn_at_pc (conn_worker_step r s)) = turns_left (conn_at_pc s) - 1)"
  using assms shut_inv_conn [of s r]
  by (cases "conn_at_pc s"; cases "handler s")
    (auto simp: stopping_def shut_inv_def [of s] conn_worker_step_def stop_requested_def split: cpp.splits prod.splits)

lemma stopping_req:
  assumes "stopping s"
  shows "stopping (req_worker_step z ep s) \<and> conn_at_pc (req_worker_step z ep s) = conn_at_pc s \<and>
    (req_at (req_worker_step z ep s) = Stuck \<and> req_at s \<in> {Body, Stuck} \<or>
     req_at (req_worker_step z ep s) \<noteq> Stuck \<and> req_at s \<noteq> Stuck \<and> req_at (req_worker_step z ep s) \<noteq> Body \<and>
       turns_left (req_at (req_worker_step z ep s)) = turns_left (req_at s) - 1)"
  using assms shut_inv_req [of s z ep]
  by (cases "req_at s") (auto simp: stopping_def req_worker_step_def stop_requested_def Let_def)

text \<open>One step either leaves a worker where it is, or takes it one turn on, or finds it stuck in its turn.\<close>

definition on_its_way :: "worker_pc \<Rightarrow> worker_pc \<Rightarrow> nat \<Rightarrow> bool" where
  "on_its_way pc pc' n \<longleftrightarrow> pc' = Stuck \<and> pc \<in> {Body, Stuck} \<or>
     pc' \<noteq> Stuck \<and> pc \<noteq> Stuck \<and> turns_left pc' = turns_left pc - n \<and> (pc' = Body \<longrightarrow> pc = Body)"

lemma on_its_way_trans: "on_its_way a b m \<Longrightarrow> on_its_way b c n \<Longrightarrow> on_its_way a c (m + n)"
  by (auto simp: on_its_way_def)

lemma on_its_way_refl [simp]: "on_its_way pc pc 0"
  by (cases pc) (simp_all add: on_its_way_def)

lemma steps_Cons: "conn_steps (a # as) = conn_steps [a] + conn_steps as" "req_steps (a # as) = req_steps [a] + req_steps as"
  by (simp_all add: conn_steps_def req_steps_def)

lemma step_stopping:
  assumes "stopping s" and "req_at s \<noteq> Stuck"
  shows "stopping (thread_step z a s) \<and> on_its_way (conn_at_pc s) (conn_at_pc (thread_step z a s)) (conn_steps [a]) \<and>
    on_its_way (req_at s) (req_at (thread_step z a s)) (req_steps [a])"
proof (cases a)
  case StartStep
  then show ?thesis using stopping_start [OF assms(1)] by (simp add: conn_steps_def req_steps_def)
next
  case (ConnStep r)
  then show ?thesis using stopping_conn [OF assms, of r] by (auto simp: conn_steps_def req_steps_def on_its_way_def [of "conn_at_pc s"])
next
  case (ReqStep ep)
  then show ?thesis using stopping_req [OF assms(1), of z ep] by (auto simp: conn_steps_def req_steps_def on_its_way_def [of "req_at s"])
qed (use stopping_other [OF assms(1), of a z] in \<open>auto simp: conn_steps_def req_steps_def\<close>)

lemma req_stuck_stays:
  assumes "start_at s \<in> {LatchWait, Returned}" and "req_at s = Stuck"
  shows "req_at (run_schedule z as s) = Stuck"
  using assms
proof (induction as arbitrary: s)
  case (Cons a as)
  have "start_at (thread_step z a s) \<in> {LatchWait, Returned} \<and> req_at (thread_step z a s) = Stuck"
    using Cons.prems by (cases a) (auto simp: Start_step_def req_worker_step_def)
  then show ?case using Cons.IH by simp
qed simp

lemma run_stopping:
  assumes "stopping s" and "req_at (run_schedule z as s) \<noteq> Stuck"
  shows "stopping (run_schedule z as s) \<and> on_its_way (conn_at_pc s) (conn_at_pc (run_schedule z as s)) (conn_steps as) \<and>
    on_its_way (req_at s) (req_at (run_schedule z as s)) (req_steps as)"
  using assms
proof (induction as arbitrary: s)
  case Nil
  then show ?case by (simp add: conn_steps_def req_steps_def)
next
  case (Cons a as)
  have "req_at s \<noteq> Stuck"
    using req_stuck_stays [of s z "a # as"] Cons.prems by (auto simp: stopping_def)
  note step = step_stopping [OF Cons.prems(1) this, of z a]
  then have rest: "stopping (run_schedule z as (thread_step z a s))"
    "on_its_way (conn_at_pc (thread_step z a s)) (conn_at_pc (run_schedule z as (thread_step z a s))) (conn_steps as)"
    "on_its_way (req_at (thread_step z a s)) (req_at (run_schedule z as (thread_step z a s))) (req_steps as)"
    using Cons.IH [of "thread_step z a s"] Cons.prems(2) by simp_all
  then show ?case
    using step steps_Cons [of a as] by (auto intro: on_its_way_trans)
qed

lemma req_stuck_origin:
  assumes "stopping s" and "req_at (run_schedule z as s) = Stuck"
  shows "req_at s \<in> {Body, Stuck}"
  using assms
proof (induction as arbitrary: s)
  case (Cons a as)
  show ?case
  proof (cases "req_at s = Stuck")
    case False
    note step = step_stopping [OF Cons.prems(1) False, of z a]
    then have "req_at (thread_step z a s) \<in> {Body, Stuck}" using Cons by simp
    then show ?thesis using step by (auto simp: on_its_way_def)
  qed simp
qed simp

lemma turns_done: "on_its_way pc pc' n \<Longrightarrow> 3 \<le> n \<Longrightarrow> pc' \<noteq> NotCreated \<Longrightarrow> pc' \<noteq> Stuck \<Longrightarrow> pc' = Ended"
  by (cases pc; cases pc') (auto simp: on_its_way_def)

text \<open>
  C15: A stop that was requested of both workers while \<^verbatim>\<open>Start\<close> waits is carried out: under every schedule
  that gives each worker three more turns, in any order and among any other steps, the next step of
  \<^verbatim>\<open>Start\<close> returns, unless a worker that was in the middle of its turn when the stop came got stuck in
  that turn.
\<close>

theorem stop_ends_start:
  assumes "reachable z es s" and "start_at s = LatchWait" and "stop_requested (conn_token s)" "stop_requested (req_token s)"
    and "conn_at_pc s \<noteq> Stuck" "req_at s \<noteq> Stuck"
    and "3 \<le> conn_steps as" "3 \<le> req_steps as"
  shows "start_at (run_schedule z (as @ [StartStep]) s) = Returned \<or>
    conn_at_pc s = Body \<and> conn_at_pc (run_schedule z as s) = Stuck \<or> req_at s = Body \<and> req_at (run_schedule z as s) = Stuck"
proof (cases "req_at (run_schedule z as s) = Stuck")
  case True
  have "stopping s" using reachable_shut_inv [OF assms(1)] assms(2-4) by (simp add: stopping_def stop_requested_def)
  then show ?thesis using req_stuck_origin True assms(6) by fastforce
next
  case False
  let ?s = "run_schedule z as s"
  have "stopping s" using reachable_shut_inv [OF assms(1)] assms(2-4) by (simp add: stopping_def stop_requested_def)
  from run_stopping [OF this False]
  have inv: "stopping ?s" and conn: "on_its_way (conn_at_pc s) (conn_at_pc ?s) (conn_steps as)"
    and req: "on_its_way (req_at s) (req_at ?s) (req_steps as)" by simp_all
  show ?thesis
  proof (cases "conn_at_pc ?s = Stuck")
    case True
    then show ?thesis using conn assms(5) by (auto simp: on_its_way_def)
  next
    case ok: False
    have "conn_at_pc ?s = Ended" "req_at ?s = Ended"
      using turns_done [OF conn assms(7)] turns_done [OF req assms(8)] ok False inv by (auto simp: stopping_def shut_inv_def)
    then have "shutdownLatch ?s = 0" "start_at ?s \<in> {LatchWait, Returned}"
      using inv by (simp_all add: stopping_def shut_inv_def ended_def)
    then show ?thesis by (auto simp: run_schedule_append Start_step_def)
  qed
qed

text \<open>A server whose threads run, and an accepting round in which nobody connects.\<close>

definition ready_threads :: threads where
  "ready_threads = run_schedule store_zlib [StartStep, StartStep, StartStep, StartStep, ReqStep (EpollEvents [] (\<lambda>_. []))] (init_threads ex_loop)"

lemma ready_threads_state:
  "req_at ready_threads = TestToken" "handler ready_threads = Running ex_loop" "isRunning ready_threads"
  "stop_at ready_threads = NoSignal" "req_token ready_threads = Some False" "conn_token ready_threads = Some False"
  "conn_at_pc ready_threads = Body" "start_at ready_threads = LatchWait"
  by (simp_all add: ready_threads_def init_threads_def Start_step_def req_worker_step_def resume_handler_def
      next_value_def Let_def)

lemma ready_threads_reachable: "reachable store_zlib ex_loop ready_threads"
  unfolding ready_threads_def by (intro reachable_run reachable.init)

text \<open>A signal whose handler runs \<^verbatim>\<open>Stop\<close> to its end without another step in between.\<close>

definition signal_handled :: "action list" where
  "signal_handled = [Signal, StopStep, StopStep, StopStep, StopStep, StopStep]"

definition quiet_round :: accept_round where
  "quiet_round = \<lparr>accepted = None, ctl_result = True, clock_result = Some zero_time, walk = [5]\<rparr>"

definition ex_turns :: "action list" where
  "ex_turns = [ConnStep quiet_round, ReqStep EpollError, ConnStep quiet_round, ReqStep EpollError, MetricsStep,
     ReqStep EpollError, ConnStep quiet_round]"

lemma quiet_round_ok: "accept_once quiet_round (connManager ex_loop) = (Val (), connManager ex_loop)"
  by (simp add: accept_once_def quiet_round_def ex_loop_def ex_manager_def validateConnections_def with_lock_def conn_at_def
      new_connection_def zero_time_def timespec_minus_def MAX_CONN_LIFETIME_SEC_def)

theorem stop_ends_start_witness:
  "start_at (run_schedule store_zlib (ex_turns @ [StartStep]) (run_schedule store_zlib signal_handled ready_threads)) = Returned"
proof -
  let ?s = "run_schedule store_zlib signal_handled ready_threads"
  have "reachable store_zlib ex_loop ?s" by (intro reachable_run ready_threads_reachable)
  moreover have st: "start_at ?s = LatchWait" "conn_token ?s = Some True" "req_token ?s = Some True"
    "conn_at_pc ?s = Body" "req_at ?s = TestToken" "handler ?s = Running ex_loop"
    by (simp_all add: signal_handled_def ready_threads_state signal_step_def Stop_step_def request_stop_def)
  moreover have "conn_at_pc (run_schedule store_zlib ex_turns ?s) \<noteq> Stuck"
  proof -
    let ?s1 = "conn_worker_step quiet_round ?s"
    have s1: "conn_at_pc ?s1 = TestToken" "req_at ?s1 = TestToken"
      using st by (simp_all add: conn_worker_step_def quiet_round_ok)
    have "stopping ?s1"
      using st reachable_shut_inv [OF \<open>reachable store_zlib ex_loop ?s\<close>] shut_inv_conn by (simp add: stopping_def)
    then have "req_at (run_schedule store_zlib (tl ex_turns) ?s1) \<noteq> Stuck" using req_stuck_origin s1(2) by fastforce
    from run_stopping [OF \<open>stopping ?s1\<close> this] s1(1) have "conn_at_pc (run_schedule store_zlib (tl ex_turns) ?s1) \<noteq> Stuck"
      by (auto simp: on_its_way_def)
    then show ?thesis by (simp add: ex_turns_def)
  qed
  ultimately show ?thesis
    using stop_ends_start [of store_zlib ex_loop ?s ex_turns]
    by (auto simp: stop_requested_def ex_turns_def conn_steps_def req_steps_def)
qed

subsection \<open>Shutdowns that are lost\<close>

definition deaf :: "threads \<Rightarrow> bool" where
  "deaf s \<longleftrightarrow> shut_inv s \<and> \<not> isRunning s \<and> start_at s \<notin> {StartEntry, Returned} \<and> stop_at s \<in> {NoSignal, TestRunning} \<and>
     req_token s \<noteq> Some True \<and> req_at s \<notin> {CountDown, Ended}"

lemma deaf_start: "deaf s \<Longrightarrow> deaf (Start_step s)"
  using shut_inv_start [of s] by (cases "start_at s") (auto simp: deaf_def Start_step_def shut_inv_def [of s] ended_def split: if_splits)

lemma deaf_stop: "deaf s \<Longrightarrow> deaf (Stop_step s)"
  using shut_inv_stop(1) [of s] by (cases "stop_at s") (auto simp: deaf_def Stop_step_def)

lemma deaf_req: "deaf s \<Longrightarrow> deaf (req_worker_step z ep s)"
  using shut_inv_req [of s z ep] by (cases "req_at s") (auto simp: deaf_def req_worker_step_def stop_requested_def Let_def)

lemma deaf_other: "deaf s \<Longrightarrow> deaf (signal_step s)" "deaf s \<Longrightarrow> deaf (conn_worker_step r s)" "deaf s \<Longrightarrow> deaf (metrics_worker_step s)"
  using shut_inv_stop(2) [of s] shut_inv_conn [of s r] shut_inv_metrics [of s] by (auto simp: deaf_def signal_step_def)

lemma deaf_step: "deaf s \<Longrightarrow> deaf (thread_step z a s)"
  by (cases a) (simp_all add: deaf_start deaf_stop deaf_req deaf_other)

lemma deaf_run: "deaf s \<Longrightarrow> start_at (run_schedule z as s) \<noteq> Returned"
  using run_schedule_keeps [of deaf s z as] deaf_step by (auto simp: deaf_def)

text \<open>
  A signal that arrives while \<^verbatim>\<open>Start\<close> is creating its threads is lost for good: when \<^verbatim>\<open>Stop\<close> runs after
  one, two or three steps of \<^verbatim>\<open>Start\<close>, then \<^verbatim>\<open>Start\<close> never returns, under no schedule and however many
  signals follow, since the threads created later do not see the request and \<^verbatim>\<open>Stop\<close> does nothing
  once \<^verbatim>\<open>isRunning\<close> is false.
\<close>

theorem early_stop_lost:
  assumes "1 \<le> k" and "k \<le> 3"
  shows "start_at (run_schedule z (replicate k StartStep @ signal_handled @ as) (init_threads es)) \<noteq> Returned"
proof -
  have "deaf (run_schedule z (replicate k StartStep @ signal_handled) (init_threads es))"
  proof -
    consider "k = 1" | "k = 2" | "k = 3" using assms by linarith
    then show ?thesis
      by cases (simp_all add: signal_handled_def numeral_eq_Suc deaf_def shut_inv_def ended_def init_threads_def Start_step_def
          signal_step_def Stop_step_def request_stop_def)
  qed
  from deaf_run [OF this, of z as] show ?thesis by (simp add: run_schedule_append)
qed

theorem early_stop_lost_witness:
  "start_at (run_schedule store_zlib (replicate 2 StartStep @ signal_handled @
     [StartStep, StartStep, Signal, StopStep, StartStep]) (init_threads ex_loop)) \<noteq> Returned"
  using early_stop_lost [of 2 store_zlib "[StartStep, StartStep, Signal, StopStep, StartStep]" ex_loop] by simp

text \<open>
  A stop can end in undefined behaviour: when a signal is handled between the test of its stop token
  by the request worker and the resumption of the coroutine that follows, the coroutine finds
  \<^verbatim>\<open>isRunning\<close> false and flows off its end, although nothing else went wrong.
\<close>

theorem stop_resumes_ended_loop:
  assumes "req_at s = TestToken" "handler s = Running es" and "isRunning s" "stop_at s = NoSignal"
    and "\<not> stop_requested (req_token s)"
  shows "handler (run_schedule z (ReqStep ep # signal_handled @ [ReqStep ep]) s) = Crashed"
  using assms by (simp add: signal_handled_def req_worker_step_def signal_step_def Stop_step_def resume_handler_def Let_def)

theorem stop_resumes_ended_loop_witness:
  "handler (run_schedule store_zlib (ReqStep EpollError # signal_handled @ [ReqStep EpollError]) ready_threads) = Crashed"
  using stop_resumes_ended_loop [of ready_threads ex_loop store_zlib EpollError] by (simp add: ready_threads_state stop_requested_def)

subsection \<open>The sweep that takes the mutex with it\<close>

lemma sweep_hangs:
  assumes "\<not> conn_mutex cm" and "list_ex (\<lambda>fd. expired now (conn_at cm fd)) order"
  shows "validateConnections (Some now) order cm = (Hang, cm\<lparr>conn_mutex := True\<rparr>)"
proof -
  have "conn_at (cm\<lparr>conn_mutex := True\<rparr>) = conn_at cm" by (simp add: conn_at_def fun_eq_iff)
  then show ?thesis
    using assms validate_loop_locked [of "cm\<lparr>conn_mutex := True\<rparr>" now order]
    by (simp add: validateConnections_def with_lock_def list_ex_iff list_all_iff)
qed

lemma locked_activity: "conn_mutex (connManager es) \<Longrightarrow> on_manager (updateActivity fd clock) es = (Hang, es)"
  by (simp add: on_manager_def updateActivity_def with_lock_def)

lemma locked_close: "conn_mutex (connManager es) \<Longrightarrow> on_manager (closeConnection fd) es = (Hang, es)"
  by (simp add: on_manager_def closeConnection_locked)

lemma locked_read:
  assumes "conn_mutex (connManager es)"
  shows "fst (readRequestAsync fd rs es) \<in> {Hang, UB} \<or>
    (\<exists>r es'. readRequestAsync fd rs es = (Val r, es') \<and> conn_mutex (connManager es'))"
proof -
  have closed: "fail_closed fd es1 = (Hang, es1)" if "conn_mutex (connManager es1)" for es1
    using that by (simp add: fail_closed_def locked_close)
  show ?thesis
    using assms by (auto simp: readRequestAsync_def put_data_def put_conn_def Let_def closed split: prod.splits cpp.splits option.splits
        read_stop.splits parse_end.splits)
qed

text \<open>A round with an event for a connection does not get past the mutex.\<close>

lemma locked_round:
  assumes "conn_mutex (connManager es)" and "list_ex (\<lambda>ev. ev_error ev \<or> ev_in ev) evs"
  shows "fst (read_events evs es) \<in> {Hang, UB}"
  using assms
proof (induction evs)
  case (Cons ev evs)
  consider "ev_error ev" | "\<not> ev_error ev" "ev_in ev" | "\<not> ev_error ev" "\<not> ev_in ev" by blast
  then show ?case
  proof cases
    case 1
    then show ?thesis using locked_close [OF Cons.prems(1), of "ev_fd ev"] by simp
  next
    case 2
    consider "fst (readRequestAsync (ev_fd ev) (ev_reads ev) es) \<in> {Hang, UB}"
      | r es' where "readRequestAsync (ev_fd ev) (ev_reads ev) es = (Val r, es')" "conn_mutex (connManager es')"
      using locked_read [OF Cons.prems(1)] by blast
    then show ?thesis
    proof cases
      case 1
      then show ?thesis using 2 by (cases "readRequestAsync (ev_fd ev) (ev_reads ev) es") auto
    next
      case (2 r es')
      then show ?thesis using \<open>\<not> ev_error ev\<close> \<open>ev_in ev\<close> by (simp add: locked_activity)
    qed
  next
    case 3
    then show ?thesis using Cons by simp
  qed
qed simp

lemma conn_stuck_stays:
  assumes "start_at s \<notin> {StartEntry, SpawnMetrics, SpawnConn, Returned}" and "shut_inv s" "conn_at_pc s = Stuck"
  shows "start_at (run_schedule z as s) \<noteq> Returned"
  using assms
proof (induction as arbitrary: s)
  case (Cons a as)
  have "start_at (thread_step z a s) \<notin> {StartEntry, SpawnMetrics, SpawnConn, Returned} \<and> conn_at_pc (thread_step z a s) = Stuck"
    using Cons.prems by (cases a) (auto simp: Start_step_def conn_worker_step_def shut_inv_def ended_def split: start_pc.splits if_splits)
  then show ?case using Cons.IH [of "thread_step z a s"] shut_inv_step [OF Cons.prems(2), of z a] by simp
qed simp


definition late_round :: accept_round where
  "late_round = quiet_round\<lparr>clock_result := Some \<lparr>tv_sec = 301, tv_nsec = 0\<rparr>\<rparr>"


end
