(* ===== verification/Whole_Server.thy ===== *)
theory Whole_Server
  imports Many_Conns Shutdown
begin

section \<open>The whole server\<close>

text \<open>
  The threads of \<open>Threads\<close> on a freshly built server, refining a specification of the service: what clients
  do (connect, send requests in pieces, hang up, fail), in any interleaving with the turns of the workers, the
  metrics thread and the tests of the stop tokens. The specification keeps a session, a time of last activity
  and the request that has begun for each descriptor, and the shards that all share; it has no arena, mutex,
  queue of requests or table of connections.
\<close>

subsection \<open>The specification\<close>

record service =
  conn_ready :: bool
  req_ready :: bool
  last_seen :: "int \<rightharpoonup> timespec"
  sessions :: "int \<Rightarrow> tx_view"
  begun :: "int \<Rightarrow> bytes"
  shards :: CacheServer
  answered :: "int \<Rightarrow> bytes"

text \<open>
  An event is the next step of a thread with what the system calls return in it, in case that the worker is
  about to do a turn: a client that connects at a time, nobody who connects, in which case the connections
  are walked in some order, a round in which clients send batches or hang up, a connection with an error.
\<close>

datatype service_event =
    Connect int timespec
  | Nobody timespec "int list"
  | Serve service_round
  | Fault int
  | Report
  | AwaitLatch

definition error_event :: "int \<Rightarrow> epoll_event" where
  "error_event fd = \<lparr>ev_fd = fd, ev_error = True, ev_in = False, ev_reads = [], ev_clock = None\<rparr>"

fun action_of :: "service_event \<Rightarrow> action" where
  "action_of (Connect fd now) = ConnStep \<lparr>accepted = Some fd, ctl_result = True, clock_result = Some now, walk = []\<rparr>"
| "action_of (Nobody now order) = ConnStep \<lparr>accepted = None, ctl_result = True, clock_result = Some now, walk = order\<rparr>"
| "action_of (Serve r) = ReqStep (round_events r)"
| "action_of (Fault fd) = ReqStep (EpollEvents [error_event fd] (\<lambda>_. []))"
| "action_of Report = MetricsStep"
| "action_of AwaitLatch = StartStep"

definition fresh_since :: "timespec \<Rightarrow> timespec option \<Rightarrow> bool" where
  "fresh_since now l = (case l of None \<Rightarrow> False | Some t \<Rightarrow> tv_sec (timespec_minus now t) \<le> MAX_CONN_LIFETIME_SEC)"

text \<open>
  \<open>None\<close> when the specification makes no promise: a connection has been idle for too long when the table
  is walked, an event for a descriptor that never connected, a round that is not a list of batches, or one
  that the session specification does not answer. The transaction of a client that hangs up is dropped,
  together with the request that it has begun.
\<close>

fun service_step :: "'z zlib \<Rightarrow> service_event \<Rightarrow> service \<Rightarrow> service option" where
  "service_step z (Connect fd now) s = Some (
     if conn_ready s then s\<lparr>conn_ready := False,
       last_seen := (if last_seen s fd = None then (last_seen s)(fd \<mapsto> now) else last_seen s)\<rparr>
     else s\<lparr>conn_ready := True\<rparr>)"
| "service_step z (Nobody now order) s =
     (if conn_ready s then
        if list_all (\<lambda>fd. fresh_since now (last_seen s fd)) order then Some (s\<lparr>conn_ready := False\<rparr>) else None
      else Some (s\<lparr>conn_ready := True\<rparr>))"
| "service_step z (Serve r) s =
     (if req_ready s then (case spec_round z (map commands (fst r)) (hung_up (fst r) (sessions s), shards s) of
          (Val ans, txs, sv) \<Rightarrow>
            if round_ok (dom (last_seen s)) (begun s) r ans
            then Some (s\<lparr>last_seen := touched (fst r) (last_seen s), sessions := txs, begun := refilled (fst r) (begun s), shards := sv,
              answered := (\<lambda>fd. answered s fd @ answers_to fd (fst r) ans), req_ready := False\<rparr>)
            else None
        | _ \<Rightarrow> None)
      else Some (s\<lparr>req_ready := True\<rparr>))"
| "service_step z (Fault fd) s = Some (
     if req_ready s
     then s\<lparr>last_seen := (last_seen s)(fd := None), sessions := (sessions s)(fd := Idle), begun := (begun s)(fd := []), req_ready := False\<rparr>
     else s\<lparr>req_ready := True\<rparr>)"
| "service_step z Report s = Some s"
| "service_step z AwaitLatch s = Some s"

fun service_run :: "'z zlib \<Rightarrow> service_event list \<Rightarrow> service \<Rightarrow> service option" where
  "service_run z [] s = Some s"
| "service_run z (ev # evs) s = (case service_step z ev s of None \<Rightarrow> None | Some s \<Rightarrow> service_run z evs s)"

definition new_service :: "CacheServer \<Rightarrow> service" where
  "new_service sv = \<lparr>conn_ready = True, req_ready = True, last_seen = Map.empty, sessions = (\<lambda>_. Idle), begun = (\<lambda>_. []), shards = sv, answered = (\<lambda>_. [])\<rparr>"

definition new_loop :: "int \<Rightarrow> CacheServer \<Rightarrow> EventServer" where
  "new_loop ep sv = \<lparr>connManager = new_ConnManager ep, cache = sv, numRequests = 0, sent_to = (\<lambda>_. [])\<rparr>"

subsection \<open>The simulation relation\<close>

definition sim_data :: "'z zlib \<Rightarrow> service \<Rightarrow> EventServer \<Rightarrow> bool" where
  "sim_data z s es \<longleftrightarrow> all_at_rest z (dom (last_seen s)) es \<and> last_in (conn_of es) = last_seen s \<and>
     tx_in (conn_of es) = sessions s \<and> buf_in (conn_of es) = begun s \<and> cache es = (shards s)\<lparr>arena := arena (cache es)\<rparr> \<and> sent_to es = answered s"

definition turn_pc :: "bool \<Rightarrow> worker_pc" where
  "turn_pc b = (if b then Body else TestToken)"

definition sim_threads :: "service \<Rightarrow> threads \<Rightarrow> bool" where
  "sim_threads s t \<longleftrightarrow> isRunning t \<and> start_at t = LatchWait \<and> shutdownLatch t = 2 \<and>
     conn_token t = Some False \<and> req_token t = Some False \<and>
     conn_at_pc t = turn_pc (conn_ready s) \<and> req_at t = turn_pc (req_ready s)"

definition sim :: "'z zlib \<Rightarrow> service \<Rightarrow> threads \<Rightarrow> bool" where
  "sim z s t \<longleftrightarrow> sim_threads s t \<and> (\<exists>es. handler t = Running es \<and> sim_data z s es)"

lemma sim_data_ready [simp]:
  "sim_data z (s\<lparr>conn_ready := b\<rparr>) es = sim_data z s es" "sim_data z (s\<lparr>req_ready := b\<rparr>) es = sim_data z s es"
  by (simp_all add: sim_data_def)

lemma sim_data_free: "sim_data z s es \<Longrightarrow> \<not> conn_mutex (connManager es)"
  by (simp add: sim_data_def all_at_rest_def)

lemma sim_data_known:
  assumes "sim_data z s es"
  shows "conn_of es fd = None \<longleftrightarrow> last_seen s fd = None"
    and "conn_of es fd = Some d \<Longrightarrow> last_seen s fd = Some (lastActivity d) \<and> conn_idle d"
proof -
  have l: "last_seen s fd = map_option lastActivity (conn_of es fd)" using assms by (metis sim_data_def last_in_def)
  then show "conn_of es fd = None \<longleftrightarrow> last_seen s fd = None" by simp
  assume "conn_of es fd = Some d"
  then show "last_seen s fd = Some (lastActivity d) \<and> conn_idle d"
    using assms l by (auto simp: sim_data_def all_at_rest_def dom_def)
qed

subsection \<open>The turns of the accepting thread\<close>

lemma new_connection_idle: "conn_idle (new_connection t ep)" "lastActivity (new_connection t ep) = t" "tx_of (cd_respTransaction (new_connection t ep)) = Idle"
  "readBuffer (new_connection t ep) = []"
  by (simp_all add: conn_idle_def new_connection_def tx_ok_def tx_of_def)

lemma connect_turn:
  assumes "sim_data z s es"
  shows "\<exists>cm. accept_once \<lparr>accepted = Some fd, ctl_result = True, clock_result = Some now, walk = w\<rparr> (connManager es) = (Val (), cm) \<and>
    sim_data z (s\<lparr>last_seen := (if last_seen s fd = None then (last_seen s)(fd \<mapsto> now) else last_seen s)\<rparr>) (es\<lparr>connManager := cm\<rparr>)"
proof (cases "last_seen s fd")
  case None
  let ?d = "new_connection now (epoll_fd (connManager es))"
  let ?cm = "(put_conn fd ?d (connManager es))\<lparr>activeConnectionsCounter := activeConnectionsCounter (connManager es) + 1\<rparr>"
  have no: "connections (connManager es) fd = None" using sim_data_known(1) [OF assms] None by (simp add: conn_of_def)
  have cs: "conn_of (es\<lparr>connManager := ?cm\<rparr>) = (conn_of es)(fd \<mapsto> ?d)" by (simp add: put_conn_def conn_of_def)
  have "(tx_in (conn_of es))(fd := Idle) = tx_in (conn_of es)" "(buf_in (conn_of es))(fd := []) = buf_in (conn_of es)"
    using no by (auto simp: tx_in_def buf_in_def conn_of_def)
  then have "tx_in (conn_of (es\<lparr>connManager := ?cm\<rparr>)) = tx_in (conn_of es)" "buf_in (conn_of (es\<lparr>connManager := ?cm\<rparr>)) = buf_in (conn_of es)"
    "last_in (conn_of (es\<lparr>connManager := ?cm\<rparr>)) = (last_in (conn_of es))(fd \<mapsto> now)"
    unfolding cs by (simp_all add: tx_in_upd buf_in_upd last_in_upd new_connection_idle)
  then have "sim_data z (s\<lparr>last_seen := (last_seen s)(fd \<mapsto> now)\<rparr>) (es\<lparr>connManager := ?cm\<rparr>)"
    using assms cs new_connection_idle(1) by (auto simp: sim_data_def all_at_rest_def put_conn_def)
  then show ?thesis using None no sim_data_free [OF assms]
    by (intro exI [of _ ?cm]) (simp add: accept_once_def registerConnection_eq)
next
  case (Some t)
  then have "connections (connManager es) fd \<noteq> None" using sim_data_known(1) [OF assms, of fd] by (auto simp: conn_of_def)
  then show ?thesis using Some assms sim_data_free [OF assms]
    by (intro exI [of _ "connManager es"]) (simp add: accept_once_def registerConnection_eq)
qed

lemma nobody_turn:
  assumes "sim_data z s es" "list_all (\<lambda>fd. fresh_since now (last_seen s fd)) order"
  shows "accept_once \<lparr>accepted = None, ctl_result = True, clock_result = Some now, walk = order\<rparr> (connManager es) = (Val (), connManager es)"
proof -
  let ?cm = "(connManager es)\<lparr>conn_mutex := True\<rparr>"
  have "\<not> expired now (conn_at ?cm fd)" if "fd \<in> set order" for fd
  proof -
    have f: "fresh_since now (last_seen s fd)" using assms(2) that by (simp add: list_all_iff)
    then obtain d where d: "conn_of es fd = Some d"
      using sim_data_known(1) [OF assms(1), of fd] by (cases "conn_of es fd") (auto simp: fresh_since_def)
    then show ?thesis using f sim_data_known(2) [OF assms(1) d] by (simp add: fresh_since_def expired_def conn_at_def conn_of_def)
  qed
  then have "validate_loop now order ?cm = (Val (), ?cm)" by (simp add: validate_loop_locked list_all_iff)
  then show ?thesis using sim_data_free [OF assms(1)] by (simp add: accept_once_def validateConnections_def with_lock_def)
qed

subsection \<open>The turns of the handling thread\<close>

lemma serve_turn:
  assumes "sim_data z s es" "spec_round z (map commands (fst r)) (hung_up (fst r) (sessions s), shards s) = (Val ans, txs, sv)"
    and "round_ok (dom (last_seen s)) (begun s) r ans"
  shows "\<exists>es'. next_value z (round_events r) (Running es) = Running es' \<and>
    sim_data z (s\<lparr>last_seen := touched (fst r) (last_seen s), sessions := txs, begun := refilled (fst r) (begun s), shards := sv,
      answered := (\<lambda>fd. answered s fd @ answers_to fd (fst r) ans)\<rparr>) es'"
proof -
  have d: "all_at_rest z (dom (last_seen s)) es" "cache es = (shards s)\<lparr>arena := arena (cache es)\<rparr>"
    "round_ok (dom (last_seen s)) (buf_in (conn_of es)) r ans"
    "spec_round z (map commands (fst r)) (hung_up (fst r) (tx_in (conn_of es)), shards s) = (Val ans, txs, sv)"
    using assms by (simp_all add: sim_data_def)
  have "dom (touched (fst r) (last_seen s)) = dom (last_seen s)" using assms(3) by (auto simp: touched_dom round_ok_def)
  then show ?thesis using round_value [OF d] assms(1) by (fastforce simp: sim_data_def)
qed

text \<open>A connection with an error is closed at once.\<close>

lemma fault_turn:
  assumes "sim_data z s es"
  shows "\<exists>es'. next_value z (EpollEvents [error_event fd] sock) (Running es) = Running es' \<and>
    sim_data z (s\<lparr>last_seen := (last_seen s)(fd := None), sessions := (sessions s)(fd := Idle), begun := (begun s)(fd := [])\<rparr>) es'"
proof -
  let ?cs = "(conn_of es)(fd := None)"
  obtain es' where es': "next_value z (EpollEvents [error_event fd] sock) (Running es) = Running es'" "\<not> conn_mutex (connManager es')"
    "conn_of es' = ?cs" "cache es' = cache es" "sent_to es' = sent_to es"
    using sim_data_free [OF assms]
    by (cases "conn_of es fd")
      (auto simp: next_value_def error_event_def handle_round_def on_manager_def closeConnection_eq drop_conn_def drop_responses_def
        conn_of_def destroy_all_def fun_eq_iff)
  have "last_in ?cs = (last_in (conn_of es))(fd := None)" "tx_in ?cs = (tx_in (conn_of es))(fd := Idle)"
    "buf_in ?cs = (buf_in (conn_of es))(fd := [])" by (simp_all add: last_in_def tx_in_def buf_in_def fun_eq_iff)
  then show ?thesis using es' assms by (intro exI [of _ es']) (auto simp: sim_data_def all_at_rest_def)
qed

subsection \<open>All steps\<close>

lemma turn_pc_simps [simp]: "turn_pc True = Body" "turn_pc False = TestToken" "turn_pc b \<noteq> Stuck"
  by (simp_all add: turn_pc_def)

text \<open>A worker that is not about to do a turn tests its token, which nobody has set.\<close>

lemma conn_test:
  assumes "sim z s t" "\<not> conn_ready s"
  shows "sim z (s\<lparr>conn_ready := True\<rparr>) (conn_worker_step r t)"
  using assms by (auto simp: sim_def sim_threads_def conn_worker_step_def stop_requested_def)

lemma req_test:
  assumes "sim z s t" "\<not> req_ready s"
  shows "sim z (s\<lparr>req_ready := True\<rparr>) (req_worker_step z ep t)"
  using assms by (auto simp: sim_def sim_threads_def req_worker_step_def stop_requested_def)

lemma conn_turn:
  assumes "sim_threads s t" "conn_ready s" "handler t = Running es" "accept_once r (connManager es) = (Val (), cm)"
    and "sim_data z (s\<lparr>last_seen := l\<rparr>) (es\<lparr>connManager := cm\<rparr>)"
  shows "sim z (s\<lparr>conn_ready := False, last_seen := l\<rparr>) (conn_worker_step r t)"
  using assms by (simp add: sim_def sim_threads_def conn_worker_step_def sim_data_def)

lemma req_turn:
  assumes "sim_threads s t" "req_ready s" "handler t = Running es" "next_value z ep (Running es) = Running es'"
    and "sim_data z s' es'" "conn_ready s' = conn_ready s"
  shows "sim z (s'\<lparr>req_ready := False\<rparr>) (req_worker_step z ep t)"
  using assms by (simp add: sim_def sim_threads_def req_worker_step_def resume_handler_def)

lemma connect_simulated:
  assumes "sim z s t" "service_step z (Connect fd now) s = Some s'"
  shows "sim z s' (thread_step z (action_of (Connect fd now)) t)"
proof (cases "conn_ready s")
  case True
  obtain es where t: "sim_threads s t" "handler t = Running es" "sim_data z s es" using assms(1) by (auto simp: sim_def)
  from connect_turn [OF t(3), of fd now "[]"] obtain cm where
    "accept_once \<lparr>accepted = Some fd, ctl_result = True, clock_result = Some now, walk = []\<rparr> (connManager es) = (Val (), cm)"
    "sim_data z (s\<lparr>last_seen := (if last_seen s fd = None then (last_seen s)(fd \<mapsto> now) else last_seen s)\<rparr>) (es\<lparr>connManager := cm\<rparr>)"
    by blast
  from conn_turn [OF t(1) True t(2) this] show ?thesis using True assms(2) by auto
qed (use assms conn_test in auto)

lemma nobody_simulated:
  assumes "sim z s t" "service_step z (Nobody now order) s = Some s'"
  shows "sim z s' (thread_step z (action_of (Nobody now order)) t)"
proof (cases "conn_ready s")
  case True
  obtain es where t: "sim_threads s t" "handler t = Running es" "sim_data z s es" using assms(1) by (auto simp: sim_def)
  have "list_all (\<lambda>fd. fresh_since now (last_seen s fd)) order" using True assms(2) by (simp split: if_splits)
  from conn_turn [OF t(1) True t(2) nobody_turn [OF t(3) this], of z "last_seen s"] show ?thesis
    using True t(3) assms(2) by (simp split: if_splits)
qed (use assms conn_test in auto)

lemma serve_simulated:
  assumes "sim z s t" "service_step z (Serve r) s = Some s'"
  shows "sim z s' (thread_step z (action_of (Serve r)) t)"
proof (cases "req_ready s")
  case True
  obtain es where t: "sim_threads s t" "handler t = Running es" "sim_data z s es" using assms(1) by (auto simp: sim_def)
  obtain ans txs sv where r: "spec_round z (map commands (fst r)) (hung_up (fst r) (sessions s), shards s) = (Val ans, txs, sv)"
    "round_ok (dom (last_seen s)) (begun s) r ans"
    "s' = s\<lparr>last_seen := touched (fst r) (last_seen s), sessions := txs, begun := refilled (fst r) (begun s), shards := sv,
       answered := (\<lambda>fd. answered s fd @ answers_to fd (fst r) ans), req_ready := False\<rparr>"
    using True assms(2) by (auto split: prod.splits cpp.splits if_splits)
  from serve_turn [OF t(3) r(1,2)] obtain es' where "next_value z (round_events r) (Running es) = Running es'"
    "sim_data z (s\<lparr>last_seen := touched (fst r) (last_seen s), sessions := txs, begun := refilled (fst r) (begun s), shards := sv,
       answered := (\<lambda>fd. answered s fd @ answers_to fd (fst r) ans)\<rparr>) es'" by blast
  from req_turn [OF t(1) True t(2) this] show ?thesis using r(3) by simp
qed (use assms req_test in auto)

lemma fault_simulated:
  assumes "sim z s t" "service_step z (Fault fd) s = Some s'"
  shows "sim z s' (thread_step z (action_of (Fault fd)) t)"
proof (cases "req_ready s")
  case True
  obtain es where t: "sim_threads s t" "handler t = Running es" "sim_data z s es" using assms(1) by (auto simp: sim_def)
  from fault_turn [OF t(3)] obtain es' where "next_value z (EpollEvents [error_event fd] (\<lambda>_. [])) (Running es) = Running es'"
    "sim_data z (s\<lparr>last_seen := (last_seen s)(fd := None), sessions := (sessions s)(fd := Idle), begun := (begun s)(fd := [])\<rparr>) es'" by blast
  from req_turn [OF t(1) True t(2) this] show ?thesis using True assms(2) by auto
qed (use assms req_test in auto)

lemma service_step_simulated:
  assumes "sim z s t" "service_step z ev s = Some s'"
  shows "sim z s' (thread_step z (action_of ev) t)"
proof (cases ev)
  case Report
  then show ?thesis using assms
    by (auto simp: sim_def sim_threads_def metrics_worker_step_def split: worker_pc.splits option.splits)
next
  case AwaitLatch
  then show ?thesis using assms by (auto simp: sim_def sim_threads_def Start_step_def)
qed (use assms in \<open>simp_all only: connect_simulated nobody_simulated serve_simulated fault_simulated\<close>)

lemma service_run_simulated:
  assumes "sim z s t" "service_run z evs s = Some s'"
  shows "sim z s' (run_schedule z (map action_of evs) t)"
  using assms
  by (induction evs arbitrary: s t) (auto split: option.splits intro: service_step_simulated)

subsection \<open>From the start\<close>

definition started :: "'z zlib \<Rightarrow> EventServer \<Rightarrow> threads" where
  "started z es = run_schedule z [StartStep, StartStep, StartStep, StartStep] (init_threads es)"

lemma started_simulated:
  assumes "server_inv z sv {}"
  shows "sim z (new_service sv) (started z (new_loop ep sv))"
proof -
  have "sim_data z (new_service sv) (new_loop ep sv)"
    using assms by (simp add: sim_data_def new_service_def new_loop_def all_at_rest_def new_ConnManager_def conn_of_def last_in_def tx_in_def buf_in_def fun_eq_iff)
  then show ?thesis
    by (simp add: started_def sim_def sim_threads_def init_threads_def Start_step_def new_service_def)
qed


text \<open>
  Two clients: the first sets a key and hangs up within a transaction and within a request; the second,
  which gets a descriptor of its own, asks for the key in two rounds; then a third client gets the first
  descriptor and asks for the key at once, and its connection fails.
\<close>

definition ask :: "int \<Rightarrow> bytes \<Rightarrow> bytes list list \<Rightarrow> (bytes list \<times> nat) option \<Rightarrow> nat \<Rightarrow> service_round" where
  "ask fd bs reqs beg k = ([\<lparr>b_fd = fd, b_chunks = [bs], b_gone = False, b_reqs = reqs, b_begun = beg, b_now = zero_time\<rparr>],
     \<lambda>_. [SentBytes (k div 2), SendAgain, SentBytes (k - k div 2)])"

definition bye :: "int \<Rightarrow> service_round" where
  "bye fd = ([\<lparr>b_fd = fd, b_chunks = [''*1''], b_gone = True, b_reqs = [], b_begun = None, b_now = zero_time\<rparr>], \<lambda>_. [])"

definition first_words :: bytes where
  "first_words = resp_request [''SET'', ''a'', ''1''] @ resp_request [''MULTI''] @ take 9 (resp_request [''GET'', ''b''])"

definition ex_day :: "service_event list" where
  "ex_day = [Connect 5 zero_time, Serve (ask 5 first_words [[''SET'', ''a'', ''1''], [''MULTI'']] (Some ([''GET'', ''b''], 9)) 10),
     Report, Nobody zero_time [], Connect 6 zero_time, Serve (bye 5), Serve (bye 5), AwaitLatch, Nobody zero_time [], Nobody zero_time [6, 5],
     Serve ([], \<lambda>_. []), Serve (ask 6 (take 9 (resp_request [''GET'', ''a''])) [] (Some ([''GET'', ''a''], 9)) 0), Serve ([], \<lambda>_. []),
     Serve (ask 6 (drop 9 (resp_request [''GET'', ''a''])) [[''GET'', ''a'']] None 7), Connect 5 zero_time, Connect 5 zero_time,
     Serve ([], \<lambda>_. []), Serve (ask 5 (resp_request [''GET'', ''a'']) [[''GET'', ''a'']] None 7), Fault 5, Fault 5]"

fun short_begun :: "(bytes list \<times> nat) option \<Rightarrow> bool" where
  "short_begun None = True"
| "short_begun (Some (args, n)) \<longleftrightarrow> args \<noteq> [] \<and> 0 < n \<and> n < length (resp_request args) \<and> n \<notin> set (bad_cuts args) \<and>
     length (resp_request args) < 100"

lemma short_begun_ok: "short_begun b \<Longrightarrow> begun_ok b"
  by (cases b rule: short_begun.cases) simp_all

lemma ask_ok:
  assumes "fd \<in> fds" "m fd @ bs = concat (map resp_request reqs) @ begun_bytes beg" "length (m fd @ bs) < 100" "short_begun beg"
    and "length (concat a) = k"
  shows "round_ok fds m (ask fd bs reqs beg k) [a]"
  using assms short_begun_ok [OF assms(4)]
  by (simp add: round_ok_def ask_def batch_ok_def READ_MAX_ATTEMPTS_def MAX_REQUEST_SIZE_def READ_BUFFER_SIZE_def)

lemma bye_ok: "fd \<in> fds \<Longrightarrow> round_ok fds m (bye fd) [[]]"
  by (simp add: round_ok_def bye_def batch_ok_def READ_MAX_ATTEMPTS_def MAX_REQUEST_SIZE_def READ_BUFFER_SIZE_def)

lemma ask_effects:
  "touched (fst (ask fd bs reqs beg k)) l = l(fd \<mapsto> zero_time)" "hung_up (fst (ask fd bs reqs beg k)) txs = txs"
  "refilled (fst (ask fd bs reqs beg k)) m = m(fd := begun_bytes beg)"
  "answers_to fd' (fst (ask fd bs reqs beg k)) [a] = (if fd = fd' then concat a else [])"
  "map commands (fst (ask fd bs reqs beg k)) = [(fd, map command_of reqs)]"
  by (simp_all add: ask_def answers_to_def hung_up_simps refilled_Cons commands_def)

lemma bye_effects:
  "touched (fst (bye fd)) l = l(fd \<mapsto> zero_time)" "hung_up (fst (bye fd)) txs = txs(fd := Idle)"
  "refilled (fst (bye fd)) m = m(fd := [])" "answers_to fd' (fst (bye fd)) [[]] = []" "map commands (fst (bye fd)) = [(fd, [])]"
  by (simp_all add: bye_def answers_to_def hung_up_simps refilled_Cons commands_def)

lemma ex_day_rounds:
  obtains txs1 sv1 txs2 sv2 txs3 sv3 where
    "spec_round store_zlib [(5, map command_of [[''SET'', ''a'', ''1''], [''MULTI'']])] (\<lambda>_. Idle, ex_server) =
       (Val [[''+OK'' @ [CR, LF], ''+OK'' @ [CR, LF]]], txs1, sv1)"
    "spec_round store_zlib [(6, map command_of [[''GET'', ''a'']])] (txs1(5 := Idle), sv1) =
       (Val [[''$1'' @ [CR, LF] @ ''1'' @ [CR, LF]]], txs2, sv2)"
    "spec_round store_zlib [(5, map command_of [[''GET'', ''a'']])] (txs2, sv2) =
       (Val [[''$1'' @ [CR, LF] @ ''1'' @ [CR, LF]]], txs3, sv3)"
proof -
  have "(case spec_round store_zlib [(5, map command_of [[''SET'', ''a'', ''1''], [''MULTI'']])] (\<lambda>_. Idle, ex_server) of
      (r1, txs1, sv1) \<Rightarrow> case spec_round store_zlib [(6, map command_of [[''GET'', ''a'']])] (txs1(5 := Idle), sv1) of
      (r2, txs2, sv2) \<Rightarrow> case spec_round store_zlib [(5, map command_of [[''GET'', ''a'']])] (txs2, sv2) of
      (r3, txs3, sv3) \<Rightarrow> (r1, r2, r3)) =
    (Val [[''+OK'' @ [CR, LF], ''+OK'' @ [CR, LF]]], Val [[''$1'' @ [CR, LF] @ ''1'' @ [CR, LF]]], Val [[''$1'' @ [CR, LF] @ ''1'' @ [CR, LF]]])"
    by code_simp
  then show thesis by (auto split: prod.splits simp del: spec_round.simps list.map intro: that)
qed

lemma ex_day_bytes:
  "first_words = concat (map resp_request [[''SET'', ''a'', ''1''], [''MULTI'']]) @ begun_bytes (Some ([''GET'', ''b''], 9))"
  "length first_words < 100" "length (resp_request [''GET'', ''a'']) < 100"
  "short_begun (Some ([''GET'', ''b''], 9))" "short_begun (Some ([''GET'', ''a''], 9))"
  by code_simp+

lemma ex_day_fresh: "fresh_since zero_time (Some zero_time)"
  by (simp add: fresh_since_def zero_time_def timespec_minus_def MAX_CONN_LIFETIME_SEC_def)

lemma ex_day_ok:
  "5 \<in> fds \<Longrightarrow> m 5 = [] \<Longrightarrow> round_ok fds m (ask 5 first_words [[''SET'', ''a'', ''1''], [''MULTI'']] (Some ([''GET'', ''b''], 9)) 10)
    [[''+OK'' @ [CR, LF], ''+OK'' @ [CR, LF]]]"
  "6 \<in> fds \<Longrightarrow> m 6 = [] \<Longrightarrow> round_ok fds m (ask 6 (take 9 (resp_request [''GET'', ''a''])) [] (Some ([''GET'', ''a''], 9)) 0) [[]]"
  "6 \<in> fds \<Longrightarrow> m 6 = take 9 (resp_request [''GET'', ''a'']) \<Longrightarrow>
    round_ok fds m (ask 6 (drop 9 (resp_request [''GET'', ''a''])) [[''GET'', ''a'']] None 7) [[''$1'' @ [CR, LF] @ ''1'' @ [CR, LF]]]"
  "5 \<in> fds \<Longrightarrow> m 5 = [] \<Longrightarrow>
    round_ok fds m (ask 5 (resp_request [''GET'', ''a'']) [[''GET'', ''a'']] None 7) [[''$1'' @ [CR, LF] @ ''1'' @ [CR, LF]]]"
  by (rule ask_ok; use ex_day_bytes in simp)+

lemma ex_day_runs:
  "\<exists>s. service_run store_zlib ex_day (new_service ex_server) = Some s \<and>
    answered s 5 = ''+OK'' @ [CR, LF] @ ''+OK'' @ [CR, LF] @ ''$1'' @ [CR, LF] @ ''1'' @ [CR, LF] \<and>
    answered s 6 = ''$1'' @ [CR, LF] @ ''1'' @ [CR, LF]"
proof (rule ex_day_rounds)
  fix txs1 sv1 txs2 sv2 txs3 sv3
  assume a:
    "spec_round store_zlib [(5, map command_of [[''SET'', ''a'', ''1''], [''MULTI'']])] (\<lambda>_. Idle, ex_server) =
       (Val [[''+OK'' @ [CR, LF], ''+OK'' @ [CR, LF]]], txs1, sv1)"
    "spec_round store_zlib [(6, map command_of [[''GET'', ''a'']])] (txs1(5 := Idle), sv1) =
       (Val [[''$1'' @ [CR, LF] @ ''1'' @ [CR, LF]]], txs2, sv2)"
    "spec_round store_zlib [(5, map command_of [[''GET'', ''a'']])] (txs2, sv2) =
       (Val [[''$1'' @ [CR, LF] @ ''1'' @ [CR, LF]]], txs3, sv3)"
  have none: "spec_round store_zlib [(fd, [])] (txs, sv) = (Val [[]], txs, sv)" for fd txs sv by simp
  show ?thesis
    using ex_day_ok
    by (simp add: ex_day_def new_service_def ask_effects bye_effects bye_ok ex_day_fresh a none hung_up_simps
        del: spec_round.simps(2) list.map(2))
qed


end
