(* ===== verification/Program.thy ===== *)
theory Program
  imports Whole_Server Env Primegen
begin

section \<open>The program (src/src/main.cpp)\<close>

text \<open>
  \<^verbatim>\<open>main\<close> reads the environment, builds the metrics server and the cache server with the table sizes of the
  prime generator, creates the thread that takes snapshots from the channel, and calls \<^verbatim>\<open>Start\<close>. When that
  returns, the local objects are destroyed in the reverse order: the thread is asked to stop and joined, the
  destructor of the server closes its descriptors, and then its members go, in the reverse order of their
  declaration: the shards, the three threads, each asked to stop and joined, and the manager of the
  connections; the metrics server is the last. An exception that leaves \<^verbatim>\<open>main\<close> ends the process.
\<close>

datatype 'a program_start = Up 'a | ExitOne string | Terminated string | UndefinedStart | Stalled

fun from_env :: "'a env_result \<Rightarrow> ('a \<Rightarrow> 'b program_start) \<Rightarrow> 'b program_start" where
  "from_env (EnvVal a) f = f a"
| "from_env (ExitMissing v) f = ExitOne v"
| "from_env EnvUB f = UndefinedStart"

fun from_cpp :: "'a cpp \<Rightarrow> ('a \<Rightarrow> 'b program_start) \<Rightarrow> 'b program_start" where
  "from_cpp (Val a) f = f a"
| "from_cpp (Exn m) f = Terminated m"
| "from_cpp UB f = UndefinedStart"
| "from_cpp Hang f = Stalled"

datatype consumer_pc = ConsumerTest | ConsumerPop | ConsumerEnded

datatype main_pc = InStart | JoinConsumer | CloseSockets | DropShards | JoinReq | JoinConn | JoinMetrics | DropManager | DropMetrics | MainEnded

text \<open>
  The state of the process: the threads of the server, the metrics, the thread of \<^verbatim>\<open>main\<close> with its stop
  token, where \<^verbatim>\<open>main\<close> is, and which objects still exist. \<open>misused\<close> records that a thread has used one that
  no longer does.
\<close>

record ('c, 'g) program =
  srv :: threads
  metricsServer :: "('c, 'g) MetricsServer"
  consumer_token :: bool
  consumer_at :: consumer_pc
  main_at :: main_pc
  sockets_open :: bool
  shards_alive :: bool
  manager_alive :: bool
  metrics_alive :: bool
  misused :: bool

definition new_program :: "('c, 'g) MetricsServer \<Rightarrow> EventServer \<Rightarrow> ('c, 'g) program" where
  "new_program ms es = \<lparr>srv = init_threads es, metricsServer = ms, consumer_token = False, consumer_at = ConsumerTest, main_at = InStart,
     sockets_open = True, shards_alive = True, manager_alive = True, metrics_alive = True, misused = False\<rparr>"

text \<open>\<open>ep\<close> is the descriptor of the epoll instance and \<open>oks\<close> tells which steps of the constructor succeed.\<close>

definition main_setup :: "('c, 'g, 'r) prom_registry \<Rightarrow> int \<Rightarrow> bool list \<Rightarrow> environment \<Rightarrow> ('c, 'g) program program_start" where
  "main_setup q ep oks env =
     from_env (main_metrics_url env) (\<lambda>metricsUrl.
     from_cpp (MetricsServer_ctor q metricsUrl) (\<lambda>(metricsServer, registry).
     from_env (main_settings env) (\<lambda>serverSettings.
     from_cpp (CacheServer_ctor (initGenerator SEGMENT_SIZE DEFAULT_MAX_LIMIT) serverSettings oks) (\<lambda>cacheServer.
     Up (new_program metricsServer (new_loop ep cacheServer))))))"

subsection \<open>Steps\<close>

text \<open>The thread of \<^verbatim>\<open>main\<close>: it takes snapshots until the channel is empty, sleeps, and tests its token.\<close>

definition consumer_step :: "('c, 'g) prometheus \<Rightarrow> ('c, 'g) program \<Rightarrow> ('c, 'g) program" where
  "consumer_step p s = (case consumer_at s of
       ConsumerTest \<Rightarrow> s\<lparr>consumer_at := (if consumer_token s then ConsumerEnded else ConsumerPop)\<rparr>
     | ConsumerPop \<Rightarrow>
         (let (ch, ms) = consume_metrics p (channel (srv s), metricsServer s)
          in s\<lparr>srv := (srv s)\<lparr>channel := ch\<rparr>, metricsServer := ms,
               consumer_at := (if channel_empty (channel (srv s)) then ConsumerTest else ConsumerPop),
               misused := misused s \<or> \<not> metrics_alive s\<rparr>)
     | ConsumerEnded \<Rightarrow> s)"

definition CacheServer_dtor :: "('c, 'g) program \<Rightarrow> ('c, 'g) program" where
  "CacheServer_dtor s = s\<lparr>sockets_open := False\<rparr>"

text \<open>The destructor of a \<^verbatim>\<open>jthread\<close> requests the stop and waits.\<close>

definition main_step :: "('c, 'g) program \<Rightarrow> ('c, 'g) program" where
  "main_step s = (case main_at s of
       InStart \<Rightarrow> if start_at (srv s) = Returned then s\<lparr>consumer_token := True, main_at := JoinConsumer\<rparr> else s\<lparr>srv := Start_step (srv s)\<rparr>
     | JoinConsumer \<Rightarrow> if consumer_at s = ConsumerEnded then s\<lparr>main_at := CloseSockets\<rparr> else s
     | CloseSockets \<Rightarrow> CacheServer_dtor s\<lparr>main_at := DropShards\<rparr>
     | DropShards \<Rightarrow> s\<lparr>shards_alive := False, main_at := JoinReq\<rparr>
     | JoinReq \<Rightarrow> if req_at (srv s) = Ended then s\<lparr>main_at := JoinConn\<rparr>
         else s\<lparr>srv := (srv s)\<lparr>req_token := request_stop (req_token (srv s))\<rparr>\<rparr>
     | JoinConn \<Rightarrow> if conn_at_pc (srv s) = Ended then s\<lparr>main_at := JoinMetrics\<rparr>
         else s\<lparr>srv := (srv s)\<lparr>conn_token := request_stop (conn_token (srv s))\<rparr>\<rparr>
     | JoinMetrics \<Rightarrow> if metrics_at (srv s) = Ended then s\<lparr>main_at := DropManager\<rparr>
         else s\<lparr>srv := (srv s)\<lparr>metrics_token := request_stop (metrics_token (srv s))\<rparr>\<rparr>
     | DropManager \<Rightarrow> s\<lparr>manager_alive := False, main_at := DropMetrics\<rparr>
     | DropMetrics \<Rightarrow> s\<lparr>metrics_alive := False, main_at := MainEnded\<rparr>
     | MainEnded \<Rightarrow> s)"

text \<open>What a step of a thread of the server uses: a worker that has not ended its descriptors, the shards and the table of connections.\<close>

definition working :: "worker_pc \<Rightarrow> bool" where
  "working pc \<longleftrightarrow> pc \<noteq> NotCreated \<and> pc \<noteq> Ended"

fun uses_gone :: "action \<Rightarrow> ('c, 'g) program \<Rightarrow> bool" where
  "uses_gone (ConnStep r) s \<longleftrightarrow> working (conn_at_pc (srv s)) \<and> \<not> (sockets_open s \<and> manager_alive s)"
| "uses_gone (ReqStep ep) s \<longleftrightarrow> working (req_at (srv s)) \<and> \<not> (sockets_open s \<and> shards_alive s \<and> manager_alive s)"
| "uses_gone MetricsStep s \<longleftrightarrow> working (metrics_at (srv s)) \<and> \<not> manager_alive s"
| "uses_gone _ s \<longleftrightarrow> False"

text \<open>A schedule of the process. \<^verbatim>\<open>Start\<close> runs on the thread of \<^verbatim>\<open>main\<close>, so that its steps are those of \<open>Main\<close>.\<close>

datatype program_action = Main | Consumer | Thread action

fun program_step :: "('c, 'g) prometheus \<Rightarrow> 'z zlib \<Rightarrow> program_action \<Rightarrow> ('c, 'g) program \<Rightarrow> ('c, 'g) program" where
  "program_step p z Main s = main_step s"
| "program_step p z Consumer s = consumer_step p s"
| "program_step p z (Thread a) s =
     (if a = StartStep then s else s\<lparr>srv := thread_step z a (srv s), misused := misused s \<or> uses_gone a s\<rparr>)"

definition run_program :: "('c, 'g) prometheus \<Rightarrow> 'z zlib \<Rightarrow> program_action list \<Rightarrow> ('c, 'g) program \<Rightarrow> ('c, 'g) program" where
  "run_program p z acts s = fold (program_step p z) acts s"

lemma run_program_simps [simp]: "run_program p z [] s = s" "run_program p z (a # as) s = run_program p z as (program_step p z a s)"
  by (simp_all add: run_program_def)

lemma run_program_append: "run_program p z (as @ bs) s = run_program p z bs (run_program p z as s)"
  by (simp add: run_program_def)

subsection \<open>Nothing is used after it is gone\<close>

definition teardown_done :: "main_pc \<Rightarrow> nat" where
  "teardown_done pc = (case pc of InStart \<Rightarrow> 0 | JoinConsumer \<Rightarrow> 1 | CloseSockets \<Rightarrow> 2 | DropShards \<Rightarrow> 3 | JoinReq \<Rightarrow> 4 | JoinConn \<Rightarrow> 5
     | JoinMetrics \<Rightarrow> 6 | DropManager \<Rightarrow> 7 | DropMetrics \<Rightarrow> 8 | MainEnded \<Rightarrow> 9)"

definition program_inv :: "('c, 'g) program \<Rightarrow> bool" where
  "program_inv s \<longleftrightarrow> shut_inv (srv s) \<and> \<not> misused s \<and>
     (metrics_at (srv s) = NotCreated \<longleftrightarrow> start_at (srv s) \<in> {StartEntry, SpawnMetrics}) \<and> metrics_at (srv s) \<notin> {CountDown, Stuck} \<and>
     (0 < teardown_done (main_at s) \<longrightarrow> start_at (srv s) = Returned \<and> consumer_token s) \<and>
     (1 < teardown_done (main_at s) \<longrightarrow> consumer_at s = ConsumerEnded) \<and>
     (6 < teardown_done (main_at s) \<longrightarrow> metrics_at (srv s) = Ended) \<and>
     (sockets_open s \<longleftrightarrow> teardown_done (main_at s) \<le> 2) \<and> (shards_alive s \<longleftrightarrow> teardown_done (main_at s) \<le> 3) \<and>
     (manager_alive s \<longleftrightarrow> teardown_done (main_at s) \<le> 7) \<and> (metrics_alive s \<longleftrightarrow> teardown_done (main_at s) \<le> 8)"

lemma shut_inv_returned: "shut_inv s \<Longrightarrow> start_at s = Returned \<Longrightarrow> conn_at_pc s = Ended \<and> req_at s = Ended"
  by (auto simp: shut_inv_def ended_def split: if_splits)

lemma shut_inv_fields [simp]:
  "shut_inv (s\<lparr>channel := ch\<rparr>) = shut_inv s" "shut_inv (s\<lparr>req_token := t\<rparr>) = shut_inv s" "shut_inv (s\<lparr>conn_token := t\<rparr>) = shut_inv s"
  "shut_inv (s\<lparr>metrics_token := t\<rparr>) = shut_inv s"
  by (simp_all add: shut_inv_def)

lemma program_inv_new: "program_inv (new_program ms es)"
  by (simp add: program_inv_def new_program_def shut_inv_init teardown_done_def) (simp add: init_threads_def)

text \<open>The steps of the other threads leave \<^verbatim>\<open>Start\<close> and, but for its own, the metrics thread alone.\<close>

lemma thread_step_start: "a \<noteq> StartStep \<Longrightarrow> start_at (thread_step z a s) = start_at s"
  by (cases a) simp_all

lemma thread_step_metrics:
  assumes "a \<noteq> StartStep"
  shows "metrics_at (thread_step z a s) = NotCreated \<longleftrightarrow> metrics_at s = NotCreated" "metrics_at s = Ended \<Longrightarrow> metrics_at (thread_step z a s) = Ended"
    "metrics_at s \<noteq> CountDown \<Longrightarrow> metrics_at (thread_step z a s) \<noteq> CountDown" "metrics_at s \<noteq> Stuck \<Longrightarrow> metrics_at (thread_step z a s) \<noteq> Stuck"
  using assms by (cases a; auto simp: step_defs split: pc_splits)+

lemma program_inv_main:
  assumes "program_inv s"
  shows "program_inv (main_step s)"
proof (cases "main_at s")
  case InStart
  have "(metrics_at (Start_step (srv s)) = NotCreated \<longleftrightarrow> start_at (Start_step (srv s)) \<in> {StartEntry, SpawnMetrics}) \<and>
      metrics_at (Start_step (srv s)) \<notin> {CountDown, Stuck}"
    if "start_at (srv s) \<noteq> Returned"
    using that assms by (cases "start_at (srv s)") (auto simp: program_inv_def Start_step_def)
  then show ?thesis using InStart assms by (auto simp: program_inv_def main_step_def teardown_done_def shut_inv_start)
qed (use assms in \<open>auto simp: program_inv_def main_step_def CacheServer_dtor_def teardown_done_def\<close>)

lemma program_inv_consumer:
  assumes "program_inv s"
  shows "program_inv (consumer_step p s)"
  using assms
  by (cases "main_at s"; cases "consumer_at s")
    (auto simp: program_inv_def consumer_step_def teardown_done_def split: prod.split)

lemma program_inv_thread:
  assumes "program_inv s" "a \<noteq> StartStep"
  shows "program_inv (program_step p z (Thread a) s)"
proof -
  have "\<not> uses_gone a s" using assms(1) shut_inv_returned [of "srv s"]
    by (cases a) (auto simp: program_inv_def working_def)
  then show ?thesis using assms shut_inv_step [of "srv s" z a]
    by (simp add: program_inv_def thread_step_start thread_step_metrics [OF assms(2)])
qed

lemma program_inv_step: "program_inv s \<Longrightarrow> program_inv (program_step p z a s)"
proof (cases a)
  case (Thread b)
  then show "program_inv s \<Longrightarrow> ?thesis" using program_inv_thread [of s b p z] by (cases "b = StartStep") simp_all
qed (simp_all add: program_inv_main program_inv_consumer)

lemma program_inv_run: "program_inv s \<Longrightarrow> program_inv (run_program p z as s)"
  by (induction as arbitrary: s) (simp_all add: program_inv_step)

lemma main_setup_Up:
  assumes "main_setup q ep oks env = Up s"
  obtains url ms r st sv where "main_metrics_url env = EnvVal url" "MetricsServer_ctor q url = Val (ms, r)" "main_settings env = EnvVal st"
    "CacheServer_ctor (initGenerator SEGMENT_SIZE DEFAULT_MAX_LIMIT) st oks = Val sv" "s = new_program ms (new_loop ep sv)"
proof -
  have env: "\<exists>a. r = EnvVal a \<and> f a = Up s" if "from_env r f = Up s" for r :: "'x env_result" and f :: "'x \<Rightarrow> ('a, 'b) program program_start"
    using that by (cases r) simp_all
  have cpp: "\<exists>a. r = Val a \<and> f a = Up s" if "from_cpp r f = Up s" for r :: "'x cpp" and f :: "'x \<Rightarrow> ('a, 'b) program program_start"
    using that by (cases r) simp_all
  show thesis using assms that unfolding main_setup_def by (auto dest!: env cpp)
qed

text \<open>A server that \<^verbatim>\<open>main\<close> has built has shards with the sizes of the generator.\<close>

lemma production_server:
  assumes "zlib_ok z" "0 < set_numShards st"
  obtains sv where "build_server (initGenerator SEGMENT_SIZE DEFAULT_MAX_LIMIT)
      \<lparr>initialSize = 2053, set_compressionEnabled = enableCompression st, set_usePrimeNumbers = True\<rparr> (set_numShards st) (respInlineCapacity st) = Val sv"
    "server_inv z sv {}"
proof -
  let ?st = "\<lparr>initialSize = 2053, set_compressionEnabled = enableCompression st, set_usePrimeNumbers = True\<rparr>"
  have "sorted_wrt (<) (2053 # initGenerator SEGMENT_SIZE DEFAULT_MAX_LIMIT)"
    using queue_strictly_increasing [of DEFAULT_MAX_LIMIT SEGMENT_SIZE] by (simp add: DEFAULT_MAX_LIMIT_def)
  then have "set_usePrimeNumbers ?st \<longrightarrow> sorted_wrt (<) (initialSize ?st # initGenerator SEGMENT_SIZE DEFAULT_MAX_LIMIT)" by simp
  moreover have "2 \<le> initialSize ?st" by simp
  ultimately show thesis using fresh_server [OF assms(1) _ _ assms(2), of ?st] that by blast
qed

text \<open>An environment with the required variables only.\<close>

definition ex_env :: environment where
  "ex_env = [''METRICS_HOST'' \<mapsto> ''localhost'', ''METRICS_PORT'' \<mapsto> int_text 8081, ''SERVER_PORT'' \<mapsto> int_text 9001]"

definition ex_settings :: ServerSettings where
  "ex_settings = default_server_settings\<lparr>enableCompression := True\<rparr>"

lemma ex_env_read: "main_metrics_url ex_env = EnvVal (''localhost'' @ '':'' @ int_text 8081)" "main_settings ex_env = EnvVal ex_settings"
proof -
  have "getFromEnv_int ex_env ''METRICS_PORT'' req d = EnvVal 8081" "getFromEnv_int ex_env ''SERVER_PORT'' req d = EnvVal 9001" for req d
    by (rule getFromEnv_int_text; simp add: ex_env_def fits_int_def)+
  note n = this
  show "main_metrics_url ex_env = EnvVal (''localhost'' @ '':'' @ int_text 8081)"
    using n by (simp add: main_metrics_url_def getFromEnv_text_def) (simp add: ex_env_def)
  have "ex_env ''NUM_SHARDS'' = None" "ex_env ''SOCK_BUF_SIZE'' = None" "ex_env ''CONN_QUEUE_LIMIT'' = None"
    "ex_env ''ENABLE_COMPRESSION'' = None" "ex_env ''RESP_INLINE_CAPACITY'' = None" by (simp_all add: ex_env_def)
  then show "main_settings ex_env = EnvVal ex_settings"
    unfolding main_settings_def n
    by (simp add: getFromEnv_int_def getFromEnv_uint_def getFromEnv_bool_def or_default_def ex_settings_def default_server_settings_def)
qed

lemma ex_program:
  obtains sv where "CacheServer_ctor (initGenerator SEGMENT_SIZE DEFAULT_MAX_LIMIT) ex_settings (replicate 12 True) = Val sv"
    "main_setup list_registry 3 (replicate 12 True) ex_env = Up (new_program fresh_metrics (new_loop 3 sv))"
proof -
  obtain sv where sv: "CacheServer_ctor (initGenerator SEGMENT_SIZE DEFAULT_MAX_LIMIT) ex_settings (replicate 12 True) = Val sv"
  proof (rule production_server [OF zlib_ok_store, of ex_settings])
    show "0 < set_numShards ex_settings" by (simp add: ex_settings_def default_server_settings_def)
  qed (simp add: CacheServer_ctor_def setup_steps_def numeral_eq_Suc that)
  then have "main_setup list_registry 3 (replicate 12 True) ex_env = Up (new_program fresh_metrics (new_loop 3 sv))"
    by (simp add: main_setup_def ex_env_read MetricsServer_ctor_def RegisterMetrics_def list_registry_def fresh_metrics_def)
  then show thesis using that sv by blast
qed

text \<open>
  C17: Destroying the objects of \<^verbatim>\<open>main\<close> is safe under every schedule: whatever the environment, whatever the threads do
  and whenever signals arrive, no thread uses a descriptor, the shards, the table of connections or the
  metrics after they are gone, although the shards are destroyed before the threads that use them are
  joined; and when \<^verbatim>\<open>main\<close> ends all four threads have ended.
\<close>

theorem teardown_safe:
  assumes "main_setup q ep oks env = Up s" and "run_program p z acts s = s'"
  shows "\<not> misused s' \<and> (\<not> shards_alive s' \<longrightarrow> req_at (srv s') = Ended) \<and>
    (main_at s' = MainEnded \<longrightarrow> conn_at_pc (srv s') = Ended \<and> req_at (srv s') = Ended \<and> metrics_at (srv s') = Ended \<and> consumer_at s' = ConsumerEnded)"
proof -
  have "program_inv s" using assms(1) by (metis main_setup_Up program_inv_new)
  then have "program_inv s'" using program_inv_run assms(2) by blast
  then show ?thesis using shut_inv_returned [of "srv s'"] by (auto simp: program_inv_def teardown_done_def split: main_pc.splits)
qed

text \<open>A run from the start to the end of \<^verbatim>\<open>main\<close>: one turn of each worker, a snapshot, a signal, and the rest.\<close>

definition ex_stop :: "program_action list" where
  "ex_stop = replicate 4 Main @ [Thread (ConnStep quiet_round), Thread (ReqStep (EpollEvents [] (\<lambda>_. []))), Thread MetricsStep, Thread MetricsStep,
     Consumer, Consumer, Consumer, Thread Signal, Thread StopStep, Thread StopStep, Thread StopStep, Thread StopStep, Thread StopStep,
     Thread (ConnStep quiet_round), Thread (ConnStep quiet_round), Thread (ReqStep EpollError), Thread (ReqStep EpollError), Main, Main]"

definition ex_end :: "program_action list list" where
  "ex_end = replicate 11 [Main, Consumer, Thread MetricsStep]"

lemma quiet_new_loop: "accept_once quiet_round (connManager (new_loop ep sv)) = (Val (), connManager (new_loop ep sv))"
  by (simp add: new_loop_def new_ConnManager_def accept_once_def quiet_round_def validateConnections_def with_lock_def split: option.split)

lemma ex_stop_state:
  fixes sv
  defines "s \<equiv> run_program number_prometheus store_zlib ex_stop (new_program fresh_metrics (new_loop 3 sv))"
  shows "main_at s = JoinConsumer" "metrics_token (srv s) = Some True" "consumer_at s = ConsumerTest" "metrics_at (srv s) = TestToken"
  unfolding s_def ex_stop_def
  by (simp_all add: new_program_def init_threads_def main_step_def consumer_step_def step_defs quiet_new_loop numeral_eq_Suc stop_requested_def
      request_stop_def resume_handler_def next_value_def server_data_def metricsUpdater_round_def channel_push_def channel_empty_def
      consume_metrics_def channel_try_pop_def)

theorem teardown_safe_witness:
  "\<exists>s. main_setup list_registry 3 (replicate 12 True) ex_env = Up s \<and> \<not> misused (run_program number_prometheus store_zlib ex_stop s)"
proof -
  obtain sv where "main_setup list_registry 3 (replicate 12 True) ex_env = Up (new_program fresh_metrics (new_loop 3 sv))"
    using ex_program by blast
  with teardown_safe [OF this refl, of number_prometheus store_zlib ex_stop] show ?thesis by blast
qed

subsection \<open>The process ends\<close>

text \<open>The steps that are left: those of \<^verbatim>\<open>main\<close>, and those of the two threads it waits for.\<close>

definition consumer_left :: "('c, 'g) program \<Rightarrow> nat" where
  "consumer_left s = (case consumer_at s of ConsumerEnded \<Rightarrow> 0 | ConsumerTest \<Rightarrow> 1 | ConsumerPop \<Rightarrow> length (channel (srv s)) + 2)"

definition metrics_left :: "worker_pc \<Rightarrow> nat" where
  "metrics_left pc = (if pc = Body then 3 else if pc = TestToken then 1 else 0)"

definition teardown_left :: "('c, 'g) program \<Rightarrow> nat" where
  "teardown_left s = 9 - teardown_done (main_at s) + consumer_left s + metrics_left (metrics_at (srv s))"

definition tearing :: "('c, 'g) program \<Rightarrow> bool" where
  "tearing s \<longleftrightarrow> program_inv s \<and> main_at s \<noteq> InStart \<and> metrics_token (srv s) = Some True"

text \<open>The thread that can go on.\<close>

definition next_actor :: "('c, 'g) program \<Rightarrow> program_action" where
  "next_actor s =
     (if main_at s = JoinConsumer \<and> consumer_at s \<noteq> ConsumerEnded then Consumer
      else if main_at s = JoinMetrics \<and> metrics_at (srv s) \<noteq> Ended then Thread MetricsStep
      else Main)"

definition advances :: "program_action \<Rightarrow> ('c, 'g) program \<Rightarrow> ('c, 'g) program \<Rightarrow> bool" where
  "advances a s s' \<longleftrightarrow> teardown_left s' < teardown_left s \<or>
     teardown_left s' = teardown_left s \<and> next_actor s' = next_actor s \<and> (a = next_actor s \<longrightarrow> teardown_left s = 0)"

lemmas teardown_defs = teardown_left_def consumer_left_def metrics_left_def teardown_done_def next_actor_def advances_def

lemma tearing_facts:
  assumes "tearing s"
  shows "program_inv s" "main_at s \<noteq> InStart" "metrics_token (srv s) = Some True" "consumer_token s"
    "conn_at_pc (srv s) = Ended" "req_at (srv s) = Ended" "handler (srv s) \<noteq> Crashed" "metrics_at (srv s) \<in> {Body, TestToken, Ended}"
    "main_at s \<noteq> JoinConsumer \<Longrightarrow> consumer_at s = ConsumerEnded"
    "main_at s \<in> {DropManager, DropMetrics, MainEnded} \<Longrightarrow> metrics_at (srv s) = Ended"
proof -
  show *: "program_inv s" "main_at s \<noteq> InStart" "metrics_token (srv s) = Some True" using assms by (simp_all add: tearing_def)
  then have "0 < teardown_done (main_at s)" by (cases "main_at s") (simp_all add: teardown_done_def)
  with * have i: "shut_inv (srv s)" "start_at (srv s) = Returned" "consumer_token s" by (simp_all add: program_inv_def)
  then show "consumer_token s" "conn_at_pc (srv s) = Ended" and e: "req_at (srv s) = Ended" using shut_inv_returned [OF i(1,2)] by simp_all
  have "handler (srv s) = Crashed \<longrightarrow> req_at (srv s) = Stuck" using i(1) by (simp add: shut_inv_def)
  then show "handler (srv s) \<noteq> Crashed" using e by auto
  show "metrics_at (srv s) \<in> {Body, TestToken, Ended}" using * i(2) by (cases "metrics_at (srv s)") (auto simp: program_inv_def)
  show "main_at s \<noteq> JoinConsumer \<Longrightarrow> consumer_at s = ConsumerEnded"
    using * by (cases "main_at s") (simp_all add: program_inv_def teardown_done_def)
  show "main_at s \<in> {DropManager, DropMetrics, MainEnded} \<Longrightarrow> metrics_at (srv s) = Ended"
    using * by (auto simp: program_inv_def teardown_done_def)
qed

lemma teardown_left_mono:
  assumes "teardown_done (main_at s) < teardown_done (main_at s')" "consumer_at s' = consumer_at s" "srv s' = srv s"
  shows "teardown_left s' < teardown_left s"
proof -
  have "teardown_done (main_at s') \<le> 9" by (cases "main_at s'") (simp_all add: teardown_done_def)
  moreover have "consumer_left s' = consumer_left s" unfolding consumer_left_def assms(2,3) by (rule refl)
  ultimately show ?thesis using assms(1,3) by (simp add: teardown_left_def)
qed

lemma tearing_main:
  assumes "tearing s"
  shows "tearing (main_step s) \<and> advances Main s (main_step s)"
proof -
  note f = tearing_facts [OF assms]
  have "program_inv (main_step s)" using f(1) by (rule program_inv_main)
  moreover have "main_at (main_step s) \<noteq> InStart" "metrics_token (srv (main_step s)) = Some True"
    using f(2,3,5,6) by (cases "main_at s"; simp add: main_step_def CacheServer_dtor_def request_stop_def)+
  moreover have "teardown_done (main_at s) < teardown_done (main_at (main_step s)) \<and> consumer_at (main_step s) = consumer_at s \<and> srv (main_step s) = srv s \<or>
      main_step s = s \<and> (next_actor s \<noteq> Main \<or> main_at s = MainEnded)"
    using f(2,3,5,6) by (cases "main_at s") (simp_all add: main_step_def CacheServer_dtor_def teardown_done_def next_actor_def request_stop_def)
  moreover have "main_at s = MainEnded \<Longrightarrow> teardown_left s = 0"
    using f(9,10) by (simp add: teardown_left_def teardown_done_def consumer_left_def metrics_left_def)
  ultimately show ?thesis using teardown_left_mono [of s "main_step s"] by (auto simp: tearing_def advances_def)
qed

lemma tearing_consumer:
  assumes "tearing s"
  shows "tearing (consumer_step p s) \<and> advances Consumer s (consumer_step p s)"
proof -
  note f = tearing_facts [OF assms]
  have "program_inv (consumer_step p s)" using f(1) by (rule program_inv_consumer)
  moreover have "main_at (consumer_step p s) = main_at s" "metrics_token (srv (consumer_step p s)) = metrics_token (srv s)"
    by (cases "consumer_at s"; simp add: consumer_step_def split: prod.split)+
  moreover have "advances Consumer s (consumer_step p s)"
  proof (cases "consumer_at s")
    case ConsumerPop
    then have "main_at s = JoinConsumer" using f(9) by auto
    then show ?thesis using ConsumerPop
      by (cases "channel (srv s)") (simp_all add: consumer_step_def consume_metrics_def channel_try_pop_def channel_empty_def teardown_defs)
  next
    case ConsumerTest
    then have "main_at s = JoinConsumer" using f(9) by auto
    then show ?thesis using ConsumerTest f(4) by (simp add: consumer_step_def teardown_defs)
  next
    case ConsumerEnded
    then show ?thesis by (simp add: consumer_step_def advances_def next_actor_def)
  qed
  ultimately show ?thesis using f(2,3) by (simp add: tearing_def)
qed

lemma tearing_metrics:
  assumes "tearing s"
  shows "tearing (program_step p z (Thread MetricsStep) s) \<and> advances (Thread MetricsStep) s (program_step p z (Thread MetricsStep) s)"
proof -
  note f = tearing_facts [OF assms]
  have "program_inv (program_step p z (Thread MetricsStep) s)" using f(1) by (rule program_inv_step)
  moreover obtain es where es: "server_data (handler (srv s)) = Some es"
    using f(7) by (cases "handler (srv s)") (simp_all add: server_data_def)
  then have "metrics_token (metrics_worker_step (srv s)) = Some True"
    using f(3) by (cases "metrics_at (srv s)") (simp_all add: metrics_worker_step_def)
  moreover have "advances (Thread MetricsStep) s (program_step p z (Thread MetricsStep) s)"
    using f(3,8,10) es
    by (cases "metrics_at (srv s)"; cases "consumer_at s")
      (auto simp: metrics_worker_step_def metricsUpdater_round_def channel_push_def stop_requested_def teardown_defs)
  ultimately show ?thesis using f(2) by (simp add: tearing_def)
qed

text \<open>The workers have ended, and \<^verbatim>\<open>Stop\<close> leaves a request to stop in place.\<close>

lemma Stop_metrics [simp]:
  "metrics_at (Stop_step s) = metrics_at s" "channel (Stop_step s) = channel s"
  "metrics_token s = Some True \<Longrightarrow> metrics_token (Stop_step s) = Some True"
  "metrics_at (signal_step s) = metrics_at s" "channel (signal_step s) = channel s" "metrics_token (signal_step s) = metrics_token s"
  by (cases "stop_at s"; simp add: Stop_step_def signal_step_def request_stop_def)+

lemma tearing_thread:
  assumes "tearing s" "a \<noteq> StartStep" "a \<noteq> MetricsStep"
  shows "tearing (program_step p z (Thread a) s) \<and> advances (Thread a) s (program_step p z (Thread a) s)"
proof -
  note f = tearing_facts [OF assms(1)]
  have "program_inv (program_step p z (Thread a) s)" using f(1) by (rule program_inv_step)
  moreover have "metrics_at (thread_step z a (srv s)) = metrics_at (srv s)" "channel (thread_step z a (srv s)) = channel (srv s)"
    "metrics_token (thread_step z a (srv s)) = Some True"
    using assms(2,3) f(3,5,6) by (cases a; simp add: conn_worker_step_def req_worker_step_def)+
  ultimately show ?thesis using f(2) assms(2,3) by (cases "consumer_at s") (simp_all add: tearing_def teardown_defs)
qed

lemma tearing_step:
  assumes "tearing s"
  shows "tearing (program_step p z a s) \<and> advances a s (program_step p z a s)"
proof (cases a)
  case (Thread b)
  show ?thesis
  proof (cases "b = StartStep")
    case True
    then show ?thesis using Thread assms by (auto simp: advances_def next_actor_def)
  next
    case False
    then show ?thesis using Thread assms tearing_thread [of s b p z] tearing_metrics [of s p z] by (cases "b = MetricsStep") simp_all
  qed
qed (use assms tearing_main tearing_consumer in auto)

lemma tearing_run:
  assumes "tearing s"
  shows "tearing (run_program p z as s) \<and> (teardown_left (run_program p z as s) < teardown_left s \<or>
    teardown_left (run_program p z as s) = teardown_left s \<and> next_actor (run_program p z as s) = next_actor s \<and>
    (next_actor s \<in> set as \<longrightarrow> teardown_left s = 0))"
  using assms
proof (induction as arbitrary: s)
  case (Cons a as)
  let ?s = "program_step p z a s"
  have "tearing ?s" "advances a s ?s" using tearing_step [OF Cons.prems] by blast+
  then show ?case using Cons.IH [of ?s] by (auto simp: advances_def)
qed simp

definition fair :: "program_action list \<Rightarrow> bool" where
  "fair as \<longleftrightarrow> Main \<in> set as \<and> Consumer \<in> set as \<and> Thread MetricsStep \<in> set as"

lemma tearing_blocks:
  assumes "tearing s" "list_all fair blocks" "teardown_left s \<le> length blocks"
  shows "teardown_left (run_program p z (concat blocks) s) = 0"
  using assms
proof (induction blocks arbitrary: s)
  case (Cons b bs)
  let ?s = "run_program p z b s"
  have "next_actor s \<in> set b" using Cons.prems(2) by (auto simp: fair_def next_actor_def)
  then have t: "tearing ?s" "teardown_left ?s < teardown_left s \<or> teardown_left ?s = 0" using tearing_run [OF Cons.prems(1), of p z b] by auto
  then have "teardown_left ?s \<le> length bs" using Cons.prems(3) by auto
  then show ?case using Cons.IH [OF t(1)] Cons.prems(2) by (simp add: run_program_append)
qed simp

text \<open>
  C18: The process ends: once \<^verbatim>\<open>main\<close> has seen \<^verbatim>\<open>Start\<close> return and the stop has been requested of the thread that
  takes the snapshots, every continuation in which \<^verbatim>\<open>main\<close>, the thread of \<^verbatim>\<open>main\<close> and the metrics thread get
  turns, as many as there are steps left, whatever else is scheduled between them, ends \<^verbatim>\<open>main\<close>; no join waits
  for ever.
\<close>

theorem process_ends:
  assumes "main_setup q ep oks env = Up s0" and "run_program p z acts s0 = s"
    and "main_at s \<noteq> InStart" and "metrics_token (srv s) = Some True"
    and "list_all fair blocks" and "teardown_left s \<le> length blocks"
  shows "main_at (run_program p z (concat blocks) s) = MainEnded"
proof -
  have inv: "program_inv s0" using assms(1) by (metis main_setup_Up program_inv_new)
  then have "tearing s" using program_inv_run [of s0 p z acts] assms(2-4) by (simp add: tearing_def)
  from tearing_blocks [OF this assms(5,6), of p z] show ?thesis
    by (cases "main_at (run_program p z (concat blocks) s)") (simp_all add: teardown_left_def teardown_done_def)
qed

theorem process_ends_witness:
  "\<exists>s. main_setup list_registry 3 (replicate 12 True) ex_env = Up s \<and>
    main_at (run_program number_prometheus store_zlib (concat ex_end) (run_program number_prometheus store_zlib ex_stop s)) = MainEnded"
proof -
  obtain sv where s: "main_setup list_registry 3 (replicate 12 True) ex_env = Up (new_program fresh_metrics (new_loop 3 sv))"
    using ex_program by blast
  let ?s = "run_program number_prometheus store_zlib ex_stop (new_program fresh_metrics (new_loop 3 sv))"
  have "main_at ?s \<noteq> InStart" "metrics_token (srv ?s) = Some True" using ex_stop_state [of sv] by simp_all
  moreover have "list_all fair ex_end" by (simp add: ex_end_def fair_def list_all_iff)
  moreover have "teardown_left ?s \<le> length ex_end"
    using ex_stop_state [of sv] by (simp add: teardown_left_def teardown_done_def consumer_left_def metrics_left_def ex_end_def)
  ultimately show ?thesis using process_ends [OF s refl] s by blast
qed

subsection \<open>From the environment to the answers\<close>

text \<open>The events of the service, with turns of the thread of \<^verbatim>\<open>main\<close> anywhere between them.\<close>

datatype program_event = Client service_event | Collect

fun program_action_of :: "program_event \<Rightarrow> program_action" where
  "program_action_of (Client ev) = (if ev = AwaitLatch then Main else Thread (action_of ev))"
| "program_action_of Collect = Consumer"

fun client_events :: "program_event list \<Rightarrow> service_event list" where
  "client_events [] = []"
| "client_events (Client ev # evs) = ev # client_events evs"
| "client_events (Collect # evs) = client_events evs"

lemma sim_channel [simp]: "sim z s (t\<lparr>channel := ch\<rparr>) = sim z s t"
  by (simp add: sim_def sim_threads_def)

lemma action_of_not_start: "ev \<noteq> AwaitLatch \<Longrightarrow> action_of ev \<noteq> StartStep"
  by (cases ev) simp_all

lemma client_simulated:
  assumes "main_at s = InStart" "sim z sp (srv s)" "service_step z ev sp = Some sp'"
  shows "main_at (program_step p z (program_action_of (Client ev)) s) = InStart \<and> sim z sp' (srv (program_step p z (program_action_of (Client ev)) s))"
proof (cases "ev = AwaitLatch")
  case True
  have "start_at (srv s) \<noteq> Returned" using assms(2) by (simp add: sim_def sim_threads_def)
  then show ?thesis using True assms service_step_simulated [OF assms(2,3)] by (simp add: main_step_def)
next
  case False
  then show ?thesis using assms(1) service_step_simulated [OF assms(2,3)] action_of_not_start by simp
qed

lemma program_simulated:
  assumes "main_at s = InStart" "sim z sp (srv s)" "service_run z (client_events evs) sp = Some sp'"
  shows "main_at (run_program p z (map program_action_of evs) s) = InStart \<and> sim z sp' (srv (run_program p z (map program_action_of evs) s))"
  using assms
proof (induction evs arbitrary: s sp)
  case (Cons e evs)
  show ?case
  proof (cases e)
    case (Client ev)
    then obtain sp1 where "service_step z ev sp = Some sp1" "service_run z (client_events evs) sp1 = Some sp'"
      using Cons.prems(3) by (auto split: option.splits)
    then show ?thesis using Client Cons.IH [of "program_step p z (program_action_of e) s" sp1] client_simulated [OF Cons.prems(1,2), of ev sp1 p]
      by (simp del: program_step.simps program_action_of.simps)
  next
    case Collect
    have "main_at (consumer_step p s) = InStart" "sim z sp (srv (consumer_step p s))"
      using Cons.prems(1,2) by (cases "consumer_at s"; simp add: consumer_step_def split: prod.split)+
    then show ?thesis using Collect Cons.IH Cons.prems(3) by simp
  qed
qed simp


definition ex_visit :: "program_event list" where
  "ex_visit = [Collect, Client (Connect 5 zero_time), Client Report, Client Report, Client AwaitLatch, Collect,
     Client (Serve (ask 5 (resp_request [''MULTI'']) [[''MULTI'']] None 5))]"

lemma ex_visit_runs:
  "\<exists>s. service_run z (client_events ex_visit) (new_service sv) = Some s \<and> answered s 5 = ''+OK'' @ [CR, LF]"
proof -
  have "length (resp_request [''MULTI'']) < 100" by code_simp
  then have "round_ok fds m (ask 5 (resp_request [''MULTI'']) [[''MULTI'']] None 5) [[simple_reply OK]]" if "5 \<in> fds" "m 5 = []" for fds m
    using that by (intro ask_ok) (simp_all add: simple_reply_def OK_def)
  then show ?thesis by (simp add: ex_visit_def new_service_def ask_effects) (simp add: simple_reply_def OK_def)
qed


subsection \<open>No shards\<close>

text \<open>
  A word in \<^verbatim>\<open>NUM_SHARDS\<close> is read as zero, \<^verbatim>\<open>main\<close> builds a server with no shards and starts it, and the first
  request for a key divides by zero.
\<close>

lemma no_shards_undefined:
  assumes "env ''NUM_SHARDS'' = Some (c # cs)" "\<not> is_digit c" "\<not> is_space c" "c \<noteq> CHR ''-''" "c \<noteq> CHR ''+''"
    and "main_setup q ep oks env = Up s"
  shows "\<exists>ms sv. s = new_program ms (new_loop ep sv) \<and> handleGet z key pr sv = (UB, sv)"
proof -
  have zero: "strtoull (c # cs) = 0" using assms(2-5) by (simp add: strtoull_def scan_number_def read_sign_def magnitude_of_def)
  obtain ms st sv where s: "main_settings env = EnvVal st" "CacheServer_ctor (initGenerator SEGMENT_SIZE DEFAULT_MAX_LIMIT) st oks = Val sv"
    "s = new_program ms (new_loop ep sv)" using assms(6) by (rule main_setup_Up)
  have "getFromEnv_uint env ''NUM_SHARDS'' False 24 = EnvVal 0" using assms(1) zero by (simp add: getFromEnv_uint_def)
  then have "set_numShards st = 0" using s(1) unfolding main_settings_def
    by (cases "getFromEnv_int env ''SERVER_PORT'' True 0"; cases "getFromEnv_int env ''SOCK_BUF_SIZE'' False 1048576";
        cases "getFromEnv_uint env ''CONN_QUEUE_LIMIT'' False 1048576"; cases "getFromEnv_bool env ''ENABLE_COMPRESSION'' False True";
        cases "getFromEnv_uint env ''RESP_INLINE_CAPACITY'' False 255") auto
  then have "numShards sv = 0" using s(2) by (auto simp: CacheServer_ctor_def build_server_def split: prod.splits cpp.splits)
  then have "handleGet z key pr sv = (UB, sv)" by (simp add: handleGet_def on_shard_def Let_def)
  then show ?thesis using s(3) by blast
qed

end
