(* ===== verification/Spec2Isabelle.thy ===== *)
theory Spec2Isabelle
  imports Primegen_Queue Hash_Props Client_Safety Any_Request Sockutils Env Coroutines Kvs_Lifetime Program
begin

text \<open>
  \<^bold>\<open>A verification of poor-man-s-cache.\<close> The program is an in-memory key value server: clients send
  SET, GET and DEL requests, in the RESP protocol of Redis or in a line protocol of its own, over TCP; one
  thread accepts connections, one handles requests in rounds driven by epoll, and the keys are spread over
  shards, each with a hash table of its own. A header-only client library speaks the line protocol.

  \<^bold>\<open>Parts and theories.\<close> Every theory follows one part of src/src; its definitions keep the names and
  the order of the code.

  \<^item> \<open>Prelude\<close>: outcomes of C++ code (\<open>cpp\<close>: a value, an exception with its message, undefined
    behaviour, or not returning), \<open>and_then\<close> for sequencing, C strings, and a heap of buffers.
  \<^item> \<open>Primegen\<close>, \<open>Primegen_Queue\<close> (primegen): the segmented sieve and the queue of table sizes, doubles included.
  \<^item> \<open>Pool\<close> (kvs.hpp, \<^verbatim>\<open>MemoryPool\<close>): the array of entries with its intrusive free list.
  \<^item> \<open>Hash\<close>, \<open>Hash_x86\<close> (hash): the variants of MurmurHash3 and \<^verbatim>\<open>hashFunc\<close> on machine words. \<open>Hash_Mix\<close> shows
    that mixing loses nothing; \<open>Hash_Props\<close> has the interface \<open>block_hash\<close>, its three interpretations and what
    follows for keys.
  \<^item> \<open>Compressor\<close> (gzip_compressor): the loops around zlib. zlib is not part of the repository: it is an
    argument \<open>z\<close> of everything above it, and \<open>zlib_ok\<close> is its documented contract; \<open>store_zlib\<close>, which stores
    its input, shows that the contract can be met.
  \<^item> \<open>Kvs\<close> (kvs): buckets, probing, set, get, del and growing. \<open>Kvs_Probe\<close>, \<open>Kvs_Inv\<close>, \<open>Kvs_Grow\<close> and \<open>Kvs_Refine\<close>
    hold the invariant and its preservation; \<open>Kvs_Spec\<close> the interface of a cache as the locales \<open>safe_cache\<close>
    and \<open>map_cache\<close>, whose interpretation \<open>kv\<close> is the store; \<open>Kvs_Props\<close> the properties; \<open>Kvs_Lifetime\<close> the
    destructor and the memory that survives it.
  \<^item> \<open>Resp\<close>, \<open>Resp_Props\<close> (protocol.cpp): the length scanner and the command splitter, with \<^verbatim>\<open>size_t\<close> modulo \<open>2 ^ 64\<close>;
    \<open>Resp_Cuts\<close>: requests that arrive in pieces.
  \<^item> \<open>Response\<close>, \<open>Response_Props\<close> (protocol.cpp): response packets, the arena of inline slots, the builders.
  \<^item> \<open>Shard\<close>, \<open>Server\<close> (shard, server.cpp): queries and commands of a shard; \<^verbatim>\<open>processRequestSync\<close> with both
    protocols and transactions. \<open>Server_Inv\<close>, \<open>Server_Ops\<close> (the sharded server as a second interpretation \<open>sv\<close> of
    the cache interface), \<open>Server_Exec\<close> and \<open>Server_Spec\<close> relate requests to the session specification \<open>spec_step\<close>.
  \<^item> \<open>Time_Util\<close>, \<open>Conn_Manager\<close> (utils/time, conn_manager.hpp): the table of connections; its mutex is part of
    the state, so that locking it twice is not returning.
  \<^item> \<open>Reader\<close>, \<open>Reader_Props\<close>, \<open>Sender\<close>, \<open>Event_Loop\<close> (server.cpp): \<^verbatim>\<open>readRequestAsync\<close>, \<^verbatim>\<open>sendResponses\<close> and a round
    of \<^verbatim>\<open>handleRequests\<close>. \<open>Loop_Props\<close>, \<open>Session\<close> and \<open>Many_Conns\<close> hold the lemmas on rounds; \<open>Server_Init\<close> the constructor.
  \<^item> \<open>Custom\<close>, \<open>Any_Request\<close>, \<open>Round_Props\<close>: the line protocol, requests with arbitrary bytes, and what rounds do
    not survive.
  \<^item> \<open>Coroutines\<close> (coroutines.hpp): the task classes as owners of coroutine frames, behind the interface
    \<open>task_owner\<close> with four interpretations, and the awaiters.
  \<^item> \<open>Sockutils\<close>, \<open>Env\<close>, \<open>Metrics\<close> (sockutils, env.hpp, main.cpp, metrics): socket options, the settings read
    from the environment, and the way of the counters to the metrics, with the prometheus library as
    parameters: \<open>p\<close> its counters and gauges, \<open>q\<close> its registry and HTTP server, with their documented
    behaviour as \<open>prom_ok\<close> and \<open>registry_ok\<close>.
  \<^item> \<open>Threads\<close>, \<open>Shutdown\<close> (\<^verbatim>\<open>Start\<close>, \<^verbatim>\<open>Stop\<close>, main.cpp): the threads as steps that a schedule, any list of
    steps, interleaves; a turn of a worker is a round of the models above.
  \<^item> \<open>Whole_Server\<close>: the specification \<open>service_step\<close> of the service (clients that connect, send requests in
    pieces, hang up and fail) and its simulation by the threads of a freshly built server.
  \<^item> \<open>Program\<close> (main.cpp): \<^verbatim>\<open>main\<close> from the environment to the running threads, the thread that takes the
    snapshots, and the destruction of all objects in their order.
  \<^item> \<open>Client\<close>, \<open>Client_Props\<close>, \<open>Client_Server\<close>, \<open>Client_Pipeline\<close>, \<open>Client_Safety\<close> (cache_client.hpp): the client
    and the client together with the server.

  \<^bold>\<open>State and effects.\<close> Objects are records that operations return updated. The results of system calls
  (\<^verbatim>\<open>read\<close>, \<^verbatim>\<open>sendmsg\<close>, \<^verbatim>\<open>epoll_wait\<close>, \<^verbatim>\<open>clock_gettime\<close> and so on) are arguments, lists of results in the order of
  the calls; a loop that has used up its list is blocked, which is \<open>Hang\<close>. What is written to a socket is
  recorded in the state. Loops are recursive functions over these lists or over the data; the loops that can
  run forever, the parsing loop of the reader and the loops of the compressor, are partial functions into
  \<open>option\<close>, and the properties show that they return, or that they do not.

  \<^bold>\<open>What is shown.\<close> The store and the sharded server behave like finite maps (with the precise conditions
  under which deletions keep that true), never meet undefined behaviour on any sequence of calls, and report
  every entry they lose. Whole rounds of the event loop with many connections refine a small session
  specification with transactions, whatever pieces the sockets deliver; EXEC equals the commands one by one.
  The running threads refine the service: in every interleaving of turns each client gets the answers of its
  session, also when its requests are cut across rounds, and its transaction ends with it; so does the whole
  program, from the environment that \<^verbatim>\<open>main\<close> reads. Its objects are destroyed without a thread using one that is
  gone, the process ends, and a store gives back its memory, up to the leaks that are stated.
  Parsers invert the encoders; responses are the RESP encodings of results; sending keeps the order. The
  client gets exactly the server's results, its pipelining is first in first out, keys and values cannot
  inject requests, and its objects own their sockets however they are moved. Requests of arbitrary bytes keep the invariant of the server. A stop that reaches both
  workers ends \<^verbatim>\<open>Start\<close> under every schedule that is fair to them. A second group of properties states precisely where the code goes wrong: inputs that hang
  the reader or make it erase too much, a response that points to freed memory, a sweep that locks the
  server up, signals that are lost, a setting that is read backwards, deleted keys that come back.

  \<^bold>\<open>Bounds.\<close> Requests and values below 1 GiB, buffers below \<open>2 ^ 62\<close> or \<open>2 ^ 63\<close> bytes: above these the \<^verbatim>\<open>int\<close>
  and \<^verbatim>\<open>size_t\<close> arithmetic of the code wraps around, which the parsers model.

  \<^bold>\<open>Not modelled.\<close> Memory exhaustion; the contents of error messages of the system; debug output; the
  Winsock branches of the client; what is inside the prometheus library and zlib; \<^verbatim>\<open>EpollStatus\<close> and
  \<^verbatim>\<open>RequestPart\<close>, which nothing uses; a signal that interrupts \<^verbatim>\<open>Stop\<close> or arrives after the server is gone;
  the data races between the two threads on the table of connections, which have no defined behaviour to
  model.
\<close>

section \<open>Sessions of clients\<close>


definition ex_rounds :: "service_round list" where
  "ex_rounds =
     [([\<lparr>b_fd = 5, b_chunks = [take 7 (resp_request [''SET'', ''a'', ''1'']),
           drop 7 (resp_request [''SET'', ''a'', ''1'']) @ take 9 (resp_request [''GET'', ''a''])],
         b_gone = False, b_reqs = [[''SET'', ''a'', ''1'']], b_begun = Some ([''GET'', ''a''], 9), b_now = zero_time\<rparr>,
        \<lparr>b_fd = 6, b_chunks = [resp_request [''GET'', ''a''] @ resp_request [''MULTI'']], b_gone = False,
         b_reqs = [[''GET'', ''a''], [''MULTI'']], b_begun = None, b_now = zero_time\<rparr>],
       \<lambda>fd. if fd = 5 then [SentBytes 3, SendAgain, SentBytes 2] else [SentBytes 12]),
      ([\<lparr>b_fd = 6, b_chunks = [], b_gone = True, b_reqs = [], b_begun = None, b_now = zero_time\<rparr>,
        \<lparr>b_fd = 5, b_chunks = [drop 9 (resp_request [''GET'', ''a''])], b_gone = False, b_reqs = [[''GET'', ''a'']], b_begun = None,
         b_now = zero_time\<rparr>], \<lambda>fd. if fd = 5 then [SentBytes 7] else []),
      ([\<lparr>b_fd = 6, b_chunks = [resp_request [''DEL'', ''a'']], b_gone = False, b_reqs = [[''DEL'', ''a'']], b_begun = None,
         b_now = zero_time\<rparr>], \<lambda>fd. [SentBytes 4])]"

lemma ex_rounds_answers:
  "fst (spec_rounds store_zlib ex_rounds ((\<lambda>_. Idle), ex_server)) =
    Val [[[''+OK'' @ [CR, LF]], [''$1'' @ [CR, LF] @ ''1'' @ [CR, LF], ''+OK'' @ [CR, LF]]],
      [[], [''$1'' @ [CR, LF] @ ''1'' @ [CR, LF]]], [['':1'' @ [CR, LF]]]]"
  by code_simp

lemma ex_rounds_lengths:
  "length (resp_request [''SET'', ''a'', ''1'']) = 27" "length (resp_request [''GET'', ''a'']) = 20"
  "length (resp_request [''MULTI'']) = 15" "length (resp_request [''DEL'', ''a'']) = 20" "9 \<notin> set (bad_cuts [''GET'', ''a''])"
  by code_simp+




section \<open>Transactions\<close>

text \<open>
  C7: EXEC is the same as sending the commands one by one: MULTI, any data commands and EXEC are answered
  with OK, a QUEUED for each command, and an array of exactly the answers that the commands get when they
  are sent without the transaction, and both leave the same shards and error counter.
\<close>

theorem exec_equals_one_by_one:
  assumes "conn_inv z c {}" and "tx_of (respTransaction c) = Idle" and "list_all op_cstr xs"
    and "list_all (\<lambda>x. length (resp_request (args_of x)) < 2 ^ 30) xs"
    and "run_ops (server_ops z) xs (server c) = (Val rs, sv1)"
  shows "\<exists>ps c1 a1 qs c2 a2.
    process_pending z (map resp_view ([''MULTI''] # map args_of xs @ [[''EXEC'']])) c = (Val ps, c1) \<and>
    live (arena (server c1)) {} ps
      (simple_reply OK # replicate (length xs) (simple_reply QUEUED_STR) @ [array_reply (map encode_res rs)]) \<and>
    server c1 = sv1\<lparr>arena := a1\<rparr> \<and> tx_of (respTransaction c1) = Idle \<and>
    process_pending z (map resp_view (map args_of xs)) c = (Val qs, c2) \<and>
    live (arena (server c2)) {} qs (map encode_res rs) \<and> server c2 = sv1\<lparr>arena := a2\<rparr>"
proof -
  have cmds: "map command_of (map args_of xs) = map COp xs" using assms(3) command_of_args by (auto simp: list_all_iff)
  then have cmds': "map command_of ([''MULTI''] # map args_of xs @ [[''EXEC'']]) = CMulti # map COp xs @ [CExec]" by simp
  have sz: "list_all (\<lambda>args. length (resp_request args) < 2 ^ 30) (map args_of xs)" using assms(4) by (simp add: list_all_iff)
  have "list_all (\<lambda>args. length (resp_request args) < 200) [[''MULTI''], [''EXEC'']]" by code_simp
  from small_requests [OF this] sz have sz': "list_all (\<lambda>args. length (resp_request args) < 2 ^ 30) ([''MULTI''] # map args_of xs @ [[''EXEC'']])"
    by simp
  have "spec_run z (CMulti # map COp xs @ [CExec]) (Idle, server c) =
      (Val (simple_reply OK # replicate (length xs) (simple_reply QUEUED_STR) @ [array_reply (map encode_res rs)]), Idle, sv1)"
    using assms(5) unfolding spec_run_exec by simp
  from batch_answers [OF assms(1) sz', unfolded cmds' assms(2), OF this] obtain ps c1 a1 where
    1: "process_pending z (map resp_view ([''MULTI''] # map args_of xs @ [[''EXEC'']])) c = (Val ps, c1)"
      "live (arena (server c1)) {} ps
        (simple_reply OK # replicate (length xs) (simple_reply QUEUED_STR) @ [array_reply (map encode_res rs)])"
      "server c1 = sv1\<lparr>arena := a1\<rparr>" "tx_of (respTransaction c1) = Idle" by blast
  have "spec_run z (map COp xs) (Idle, server c) = (Val (map encode_res rs), Idle, sv1)"
    using assms(5) unfolding spec_run_idle by simp
  from batch_answers [OF assms(1) sz, unfolded cmds assms(2), OF this] obtain qs c2 a2 where
    2: "process_pending z (map resp_view (map args_of xs)) c = (Val qs, c2)"
      "live (arena (server c2)) {} qs (map encode_res rs)" "server c2 = sv1\<lparr>arena := a2\<rparr>" by blast
  show ?thesis using 1 2 by blast
qed

theorem exec_equals_one_by_one_witness:
  "\<exists>rs sv1 ps c1 a1 qs c2 a2.
    process_pending store_zlib (map resp_view ([''MULTI''] # map args_of [Put ''a'' ''1'', Del ''b'', Get ''a''] @ [[''EXEC'']])) ex_conn = (Val ps, c1) \<and>
    live (arena (server c1)) {} ps (simple_reply OK # replicate (length [Put ''a'' ''1'', Del ''b'', Get ''a'']) (simple_reply QUEUED_STR) @ [array_reply (map encode_res rs)]) \<and>
    server c1 = sv1\<lparr>arena := a1\<rparr> \<and>
    process_pending store_zlib (map resp_view (map args_of [Put ''a'' ''1'', Del ''b'', Get ''a''])) ex_conn = (Val qs, c2) \<and>
    live (arena (server c2)) {} qs (map encode_res rs) \<and> server c2 = sv1\<lparr>arena := a2\<rparr>"
proof -
  let ?xs = "[Put ''a'' ''1'', Del ''b'', Get ''a'']"
  have "list_all (\<lambda>args. length (resp_request args) < 200) (map args_of ?xs)" by code_simp
  from small_requests [OF this] have sz: "list_all (\<lambda>x. length (resp_request (args_of x)) < 2 ^ 30) ?xs" by simp
  have "fst (run_ops (server_ops store_zlib) ?xs ex_server) = Val [Stored True, Removed False, Found (Some ''1'')]"
    by code_simp
  then obtain sv1 where run: "run_ops (server_ops store_zlib) ?xs (server ex_conn) =
      (Val [Stored True, Removed False, Found (Some ''1'')], sv1)"
    using ex_conn_ok(3) by (cases "run_ops (server_ops store_zlib) ?xs ex_server") auto
  have cs: "list_all op_cstr ?xs" by simp
  from exec_equals_one_by_one [OF ex_conn_ok(1,2) cs sz run] show ?thesis by blast
qed

text \<open>
  C8: A transaction that is discarded or has failed runs nothing: after MULTI and any commands but EXEC
  and DISCARD, well-formed or not, DISCARD is answered with OK, and EXEC with EXECABORT when one of them
  was refused; every shard is exactly as before MULTI and the transaction is closed.
\<close>

theorem dropped_transaction_runs_nothing:
  assumes "conn_inv z c {}" and "tx_of (respTransaction c) = Idle"
    and "list_all (\<lambda>args. length (resp_request args) < 2 ^ 30) reqs"
    and "list_all (\<lambda>args. quiet (command_of args)) reqs"
    and "final = ''DISCARD'' \<and> reply = simple_reply OK \<or>
      final = ''EXEC'' \<and> reply = error_reply RESP_ERR_EXEC_ABORTED \<and> list_ex (\<lambda>args. spoils (command_of args)) reqs"
  shows "\<exists>ps c' bs. process_pending z (map resp_view ([''MULTI''] # reqs @ [[final]])) c = (Val ps, c') \<and>
    live (arena (server c')) {} ps (bs @ [reply]) \<and> serverShards (server c') = serverShards (server c) \<and>
    tx_of (respTransaction c') = Idle"
proof -
  have "list_all (\<lambda>args. length (resp_request args) < 200) [[''MULTI''], [''EXEC''], [''DISCARD'']]" by code_simp
  from small_requests [OF this] assms(3,5)
  have sz: "list_all (\<lambda>args. length (resp_request args) < 2 ^ 30) ([''MULTI''] # reqs @ [[final]])" by auto
  have q: "list_all quiet (map command_of reqs)" "list_ex spoils (map command_of reqs) = list_ex (\<lambda>args. spoils (command_of args)) reqs"
    using assms(4) by (simp_all add: list_all_iff list_ex_iff)
  obtain bs n where "spec_run z (map command_of ([''MULTI''] # reqs @ [[final]])) (tx_of (respTransaction c), server c) =
      (Val (bs @ [reply]), Idle, (server c)\<lparr>numErrors := n\<rparr>)"
    using spec_run_discard [OF q(1), of z "server c"] spec_run_aborted [OF q(1), of z "server c"] q(2) assms(2,5) by auto
  from batch_answers [OF assms(1) sz this] show ?thesis by fastforce
qed

theorem dropped_transaction_runs_nothing_witness:
  "\<exists>ps c' bs. process_pending store_zlib (map resp_view ([''MULTI''] # [[''SET'', ''a'', ''1''], [''GET'']] @ [[''EXEC'']])) ex_conn = (Val ps, c') \<and>
    live (arena (server c')) {} ps (bs @ [error_reply RESP_ERR_EXEC_ABORTED]) \<and>
    serverShards (server c') = serverShards (server ex_conn) \<and> tx_of (respTransaction c') = Idle"
proof (rule dropped_transaction_runs_nothing [OF ex_conn_ok(1,2)])
  have "list_all (\<lambda>args. length (resp_request args) < 200) [[''SET'', ''a'', ''1''], [''GET'']]" by code_simp
  then show "list_all (\<lambda>args. length (resp_request args) < 2 ^ 30) [[''SET'', ''a'', ''1''], [''GET'']]" by (rule small_requests)
qed (simp_all add: command_of_def)

end
